(* ===== verification/Prelude.thy ===== *)
theory Prelude
  imports Main "HOL-Library.Multiset" "HOL-Library.Sublist"
begin

text \<open>
  Shared vocabulary of the development: the machine integers of the Rust sources as
  \<^typ>\<open>nat\<close> with their widths written out, saturating arithmetic, the generic list
  lemmas the components share, and the locale \<open>op_system\<close> that lifts one-step
  invariants to whole runs of operations.
\<close>

section \<open>Collections of facts\<close>

named_theorems sat_simps "unfolding rules for saturating arithmetic"
named_theorems inv_intros "introduction rules for the components' invariants"

section \<open>Machine integers\<close>

text \<open>
  \<open>u8\<close>, \<open>u32\<close>, \<open>u64\<close> and \<open>usize\<close> values are natural numbers; the
  operations that can reach the end of the range saturate (\<open>saturating_add\<close> and its
  kin), and that is written out here. \<open>saturating_sub\<close> on unsigned values is
  subtraction on \<^typ>\<open>nat\<close>.
\<close>

type_synonym u8 = nat
type_synonym u16 = nat
type_synonym u32 = nat
type_synonym u64 = nat
type_synonym usize = nat
type_synonym millis = nat

definition U32_MAX :: nat where "U32_MAX = 2 ^ 32 - 1"
definition U64_MAX :: nat where "U64_MAX = 2 ^ 64 - 1"
definition I64_MAX :: int where "I64_MAX = 2 ^ 63 - 1"
definition I64_MIN :: int where "I64_MIN = - (2 ^ 63)"

definition sat_add32 :: "u32 \<Rightarrow> u32 \<Rightarrow> u32" where
  [sat_simps]: "sat_add32 a b = min U32_MAX (a + b)"

definition sat_add64 :: "u64 \<Rightarrow> u64 \<Rightarrow> u64" where
  [sat_simps]: "sat_add64 a b = min U64_MAX (a + b)"

definition sat_mul64 :: "u64 \<Rightarrow> u64 \<Rightarrow> u64" where
  [sat_simps]: "sat_mul64 a b = min U64_MAX (a * b)"

definition sat_addi64 :: "int \<Rightarrow> int \<Rightarrow> int" where
  [sat_simps]: "sat_addi64 a b = max I64_MIN (min I64_MAX (a + b))"

definition sat_sum32 :: "u32 list \<Rightarrow> u32" where
  "sat_sum32 xs = foldl sat_add32 0 xs"

lemma sat_add32_le [simp]: "sat_add32 a b \<le> U32_MAX"
  by (simp add: sat_add32_def)

lemma sat_add64_le [simp]: "sat_add64 a b \<le> U64_MAX"
  by (simp add: sat_add64_def)

lemma sat_mul64_le [simp]: "sat_mul64 a b \<le> U64_MAX"
  by (simp add: sat_mul64_def)

lemma sat_add32_exact: "a + b \<le> U32_MAX \<Longrightarrow> sat_add32 a b = a + b"
  by (simp add: sat_add32_def)

lemma sat_add64_exact: "a + b \<le> U64_MAX \<Longrightarrow> sat_add64 a b = a + b"
  by (simp add: sat_add64_def)

lemma sat_add32_assoc: "sat_add32 (sat_add32 a b) c = sat_add32 a (sat_add32 b c)"
  by (auto simp: sat_add32_def min_def)

lemma sat_add64_assoc: "sat_add64 (sat_add64 a b) c = sat_add64 a (sat_add64 b c)"
  by (auto simp: sat_add64_def min_def)

lemma sat_add64_commute: "sat_add64 a b = sat_add64 b a"
  by (simp add: sat_add64_def add.commute)

lemma foldl_sat_add32: "foldl sat_add32 a xs = (if xs = [] then a else min U32_MAX (a + sum_list xs))"
  by (induction xs arbitrary: a) (auto simp: sat_add32_def min_def)

text \<open>A saturating sum is the exact sum clamped to the range.\<close>

lemma sat_sum32_eq: "sat_sum32 xs = min U32_MAX (sum_list xs)"
  by (auto simp: sat_sum32_def foldl_sat_add32)

lemma sat_sum32_Nil [simp]: "sat_sum32 [] = 0"
  by (simp add: sat_sum32_def)

lemma sat_sum32_append: "sat_sum32 (xs @ ys) = sat_add32 (sat_sum32 xs) (sat_sum32 ys)"
  by (auto simp: sat_sum32_eq sat_add32_def min_def)

section \<open>Lists\<close>

lemma dropWhile_hd_false: "dropWhile P xs = y # ys \<Longrightarrow> \<not> P y"
  by (metis dropWhile_eq_Cons_conv)

lemma length_dropWhile_less [simp]: "P x \<Longrightarrow> length (dropWhile P (x # xs)) < Suc (length xs)"
  by (simp add: le_imp_less_Suc length_dropWhile_le)

lemma sum_list_drop_le: "sum_list (drop n xs) \<le> (sum_list xs :: nat)"
  by (metis append_take_drop_id le_add2 sum_list_append)

lemma drop_Suc_nth: "n < length xs \<Longrightarrow> drop n xs = xs ! n # drop (Suc n) xs"
  by (rule Cons_nth_drop_Suc [symmetric])

fun list_of_option :: "'a option \<Rightarrow> 'a list" where
  "list_of_option None = []"
| "list_of_option (Some x) = [x]"

lemma set_list_of_option [simp]: "set (list_of_option x) = set_option x"
  by (cases x) simp_all

text \<open>The last index at which a predicate holds (Rust's \<open>rposition\<close>).\<close>

fun rposition :: "('a \<Rightarrow> bool) \<Rightarrow> 'a list \<Rightarrow> nat option" where
  "rposition P [] = None"
| "rposition P (x # xs) =
     (case rposition P xs of Some i \<Rightarrow> Some (Suc i) | None \<Rightarrow> if P x then Some 0 else None)"

lemma rposition_None: "rposition P xs = None \<longleftrightarrow> (\<forall>x \<in> set xs. \<not> P x)"
  by (induction xs) (auto split: option.splits)

lemma rposition_Some:
  "rposition P xs = Some i \<Longrightarrow> i < length xs \<and> P (xs ! i) \<and> (\<forall>x \<in> set (drop (Suc i) xs). \<not> P x)"
  by (induction xs arbitrary: i) (auto simp: rposition_None split: option.splits if_splits)

lemma find_rev_rposition: "rposition P xs = Some i \<Longrightarrow> find P (rev xs) = Some (xs ! i)"
proof (induction xs arbitrary: i)
  case (Cons x xs)
  have s: "find P (ys @ [z]) = (case find P ys of Some v \<Rightarrow> Some v | None \<Rightarrow> if P z then Some z else None)" for ys z
    by (induction ys) auto
  have "rposition P xs = None \<Longrightarrow> find P (rev xs) = None" by (simp add: rposition_None find_None_iff)
  then show ?case using Cons by (auto simp: s split: option.splits if_splits)
qed simp

lemma rposition_append:
  "rposition P (xs @ ys) =
     (case rposition P ys of Some i \<Rightarrow> Some (length xs + i) | None \<Rightarrow> rposition P xs)"
  by (induction xs) (auto split: option.splits)

section \<open>Runs of operations and their invariants\<close>

text \<open>
  A component is a state, a step function and an invariant that every step keeps. The
  invariant then holds after any sequence of operations.
\<close>

locale op_system =
  fixes step :: "'e \<Rightarrow> 's \<Rightarrow> 's"
    and inv :: "'s \<Rightarrow> bool"
  assumes step_inv: "inv s \<Longrightarrow> inv (step e s)"
begin

lemma run_inv: "inv s \<Longrightarrow> inv (fold step es s)"
  by (induction es arbitrary: s) (auto intro: step_inv)

lemma prefix_inv: "inv s \<Longrightarrow> inv (fold step (take n es) s)"
  by (rule run_inv)

end

end
