(* ===== verification/F64.thy ===== *)
theory F64
  imports Prelude "HOL-Library.Log_Nat" Complex_Main
begin

text \<open>
  The non-negative \<open>f64\<close> arithmetic the sources use: conversion from integers,
  division, multiplication and rounding. A value is the rational it denotes; every
  operation rounds its exact result to 53 significant bits, ties to even. The exponent
  range of \<open>f64\<close> is not modelled: the ratios and products of counters computed here
  stay far inside it.
\<close>

section \<open>Rounding to 53 bits\<close>

type_synonym f64 = rat

text \<open>
  A value read from the environment can be any \<open>f64\<close>: \<open>f64::from_str\<close> accepts infinities and
  NaN. \<open>f64_le v x\<close> is the comparison \<open>x >= v\<close> with a computed rate \<open>x\<close>; NaN compares
  false.
\<close>

datatype f64_value = Finite f64 | Infinity | NegInfinity | NaN

fun f64_le :: "f64_value \<Rightarrow> f64 \<Rightarrow> bool" where
  "f64_le (Finite v) x = (v \<le> x)"
| "f64_le Infinity x = False"
| "f64_le NegInfinity x = True"
| "f64_le NaN x = False"

definition round_even :: "rat \<Rightarrow> int" where
  "round_even x =
     (let f = \<lfloor>x\<rfloor>; d = x - of_int f
      in if d < 1 / 2 then f else if 1 / 2 < d then f + 1 else if even f then f else f + 1)"

text \<open>\<open>ilog2 x\<close> is the exponent of the leading bit of \<open>x > 0\<close>.\<close>

definition ilog2 :: "rat \<Rightarrow> int" where
  "ilog2 x =
     (let (a, b) = quotient_of x; k = bitlen a - bitlen b
      in if 2 powi k \<le> x then k else k - 1)"

definition f64_rnd :: "rat \<Rightarrow> f64" where
  "f64_rnd x =
     (if x \<le> 0 then 0
      else let e = ilog2 x - 52 in of_int (round_even (x / 2 powi e)) * 2 powi e)"

definition f64_of_nat :: "nat \<Rightarrow> f64" where
  "f64_of_nat n = f64_rnd (of_nat n)"

definition f64_div :: "f64 \<Rightarrow> f64 \<Rightarrow> f64" where
  "f64_div a b = f64_rnd (a / b)"

definition f64_mul :: "f64 \<Rightarrow> f64 \<Rightarrow> f64" where
  "f64_mul a b = f64_rnd (a * b)"

text \<open>\<open>f64::round\<close> (half away from zero) and the saturating cast to \<open>u64\<close>.\<close>

definition f64_round :: "f64 \<Rightarrow> f64" where
  "f64_round x = of_int \<lfloor>x + 1 / 2\<rfloor>"

definition f64_to_u64 :: "f64 \<Rightarrow> u64" where
  "f64_to_u64 x = min U64_MAX (nat \<lfloor>x\<rfloor>)"

section \<open>Facts about rounding\<close>

lemma floor_rat_bounds: "rat_of_int \<lfloor>x\<rfloor> \<le> x" "x < rat_of_int \<lfloor>x\<rfloor> + 1"
  using floor_correct [of x] by simp_all

lemma round_even_cases:
  "round_even x = \<lfloor>x\<rfloor> \<and> x - of_int \<lfloor>x\<rfloor> \<le> 1 / 2 \<or> round_even x = \<lfloor>x\<rfloor> + 1 \<and> 1 / 2 \<le> x - of_int \<lfloor>x\<rfloor>"
  by (simp add: round_even_def Let_def)

lemma round_even_err: "\<bar>of_int (round_even x) - x\<bar> \<le> 1 / 2"
  using round_even_cases [of x]
proof (elim disjE conjE)
  assume r: "round_even x = \<lfloor>x\<rfloor>" and "x - of_int \<lfloor>x\<rfloor> \<le> 1 / 2"
  then show ?thesis unfolding r using floor_rat_bounds [of x] by linarith
next
  assume r: "round_even x = \<lfloor>x\<rfloor> + 1" and "1 / 2 \<le> x - of_int \<lfloor>x\<rfloor>"
  then show ?thesis unfolding r of_int_add of_int_1 using floor_rat_bounds [of x] by linarith
qed

lemma round_even_int [simp]: "round_even (of_int i) = i"
  by (simp add: round_even_def)

lemma round_even_mono:
  assumes "x \<le> y" shows "round_even x \<le> round_even y"
proof (cases "\<lfloor>x\<rfloor> = \<lfloor>y\<rfloor>")
  case True
  then show ?thesis using assms by (auto simp: round_even_def Let_def)
next
  case False
  then have "\<lfloor>x\<rfloor> + 1 \<le> \<lfloor>y\<rfloor>" using floor_mono [OF assms] by simp
  then show ?thesis using round_even_cases [of x] round_even_cases [of y] by auto
qed

lemma bitlen_rat:
  assumes "0 < a"
  shows "(2::rat) powi (bitlen a - 1) \<le> of_int a \<and> (of_int a :: rat) < 2 powi bitlen a"
proof -
  have p: "1 \<le> bitlen a" using assms by (simp add: bitlen_def floorlog_def)
  have "2 ^ nat (bitlen a - 1) \<le> a" "a < 2 ^ nat (bitlen a)" using bitlen_bounds [OF assms] by auto
  then have "rat_of_int (2 ^ nat (bitlen a - 1)) \<le> of_int a" "rat_of_int a < of_int (2 ^ nat (bitlen a))"
    by (simp_all only: of_int_le_iff of_int_less_iff)
  then show ?thesis using p by (simp add: power_int_def)
qed

lemma powi_pos [simp]: "0 < (2::rat) powi k"
  by (simp add: zero_less_power_int)

lemma powi_mono: "j \<le> k \<Longrightarrow> (2::rat) powi j \<le> 2 powi k"
  by (rule power_int_increasing) simp_all

lemma powi_plus: "(2::rat) powi (j + k) = 2 powi j * 2 powi k"
  by (simp add: power_int_add)

lemma powi_diff: "(2::rat) powi (j - k) = 2 powi j / 2 powi k"
  by (simp add: power_int_diff)

lemma ilog2_bounds:
  assumes "0 < x"
  shows "2 powi ilog2 x \<le> x \<and> x < 2 powi (ilog2 x + 1)"
proof -
  obtain a b where ab: "quotient_of x = (a, b)" by (cases "quotient_of x")
  have b: "0 < b" using quotient_of_denom_pos [OF ab] .
  have x: "x = of_int a / of_int b" using quotient_of_div [OF ab] .
  have a: "0 < a" using assms b x by (simp add: zero_less_divide_iff)
  let ?k = "bitlen a - bitlen b"
  note la = bitlen_rat [OF a] and lb = bitlen_rat [OF b]
  have "2 powi (bitlen a - 1) / 2 powi bitlen b \<le> x"
    unfolding x using la lb a b by (intro frac_le) auto
  moreover have "bitlen a - 1 - bitlen b = ?k - 1" by simp
  ultimately have lo: "2 powi (?k - 1) \<le> x"
    by (simp only: powi_diff [symmetric])
  have "x < 2 powi bitlen a / 2 powi (bitlen b - 1)"
    unfolding x using la lb a b by (intro frac_less) auto
  moreover have "bitlen a - (bitlen b - 1) = ?k + 1" by simp
  ultimately have hi: "x < 2 powi (?k + 1)"
    by (simp only: powi_diff [symmetric])
  show ?thesis
    using lo hi by (auto simp: ilog2_def ab Let_def)
qed

lemma ilog2_mono:
  assumes "0 < x" "x \<le> y" shows "ilog2 x \<le> ilog2 y"
proof (rule ccontr)
  assume "\<not> ilog2 x \<le> ilog2 y"
  then have "(2::rat) powi (ilog2 y + 1) \<le> 2 powi ilog2 x" by (intro powi_mono) simp
  also have "\<dots> \<le> x" using ilog2_bounds [OF assms(1)] by simp
  also have "\<dots> < 2 powi (ilog2 y + 1)" using ilog2_bounds [of y] assms by simp
  finally show False by simp
qed

text \<open>The significand of a rounded value lies between \<open>2 ^ 52\<close> and \<open>2 ^ 53\<close>.\<close>

lemma significand_bounds:
  assumes "0 < x"
  defines "m \<equiv> round_even (x / 2 powi (ilog2 x - 52))"
  shows "2 ^ 52 \<le> m \<and> m \<le> 2 ^ 53"
proof -
  let ?q = "x / 2 powi (ilog2 x - 52)"
  have p: "(2::rat) powi ilog2 x = 2 ^ 52 * 2 powi (ilog2 x - 52)"
    using powi_plus [of 52 "ilog2 x - 52"] by simp
  have p': "(2::rat) powi (ilog2 x + 1) = 2 ^ 53 * 2 powi (ilog2 x - 52)"
    using powi_plus [of 53 "ilog2 x - 52"] by (simp add: add.commute)
  have "of_int (2 ^ 52) \<le> ?q" "?q \<le> of_int (2 ^ 53)"
    using ilog2_bounds [OF assms(1)] p p' by (simp_all add: pos_le_divide_eq pos_divide_le_eq)
  then show ?thesis
    unfolding m_def using round_even_mono round_even_int by metis
qed

lemma f64_rnd_pos: "0 < x \<Longrightarrow> 0 < f64_rnd x"
  using significand_bounds [of x] by (simp add: f64_rnd_def Let_def)

lemma f64_rnd_0 [simp]: "f64_rnd 0 = 0"
  by (simp add: f64_rnd_def)

lemma f64_rnd_nonneg [simp]: "0 \<le> f64_rnd x"
  using f64_rnd_pos [of x] by (cases "0 < x") (auto simp: f64_rnd_def)

lemma f64_rnd_mono:
  assumes "x \<le> y" shows "f64_rnd x \<le> f64_rnd y"
proof (cases "0 < x")
  case False
  then show ?thesis by (simp add: f64_rnd_def [of x])
next
  case True
  then have y: "0 < y" using assms by simp
  let ?ex = "ilog2 x - 52" and ?ey = "ilog2 y - 52"
  let ?mx = "round_even (x / 2 powi ?ex)" and ?my = "round_even (y / 2 powi ?ey)"
  have r: "f64_rnd x = of_int ?mx * 2 powi ?ex" "f64_rnd y = of_int ?my * 2 powi ?ey"
    using True y by (simp_all add: f64_rnd_def Let_def)
  show ?thesis
  proof (cases "ilog2 x = ilog2 y")
    case True
    then have "?mx \<le> ?my" using assms by (intro round_even_mono) (simp add: divide_right_mono)
    then show ?thesis using True r by simp
  next
    case False
    then have lt: "ilog2 x < ilog2 y" using ilog2_mono [OF \<open>0 < x\<close> assms] by simp
    have "rat_of_int ?mx \<le> of_int (2 ^ 53)"
      using significand_bounds [OF \<open>0 < x\<close>] by (simp only: of_int_le_iff)
    then have "f64_rnd x \<le> 2 ^ 53 * 2 powi ?ex"
      unfolding r by (intro mult_right_mono) simp_all
    also have "\<dots> = 2 powi (ilog2 x + 1)" using powi_plus [of 53 ?ex] by (simp add: add.commute)
    also have "\<dots> \<le> 2 powi ilog2 y" using lt by (intro powi_mono) simp
    also have "\<dots> = 2 ^ 52 * 2 powi ?ey" using powi_plus [of 52 ?ey] by simp
    also have "rat_of_int (2 ^ 52) \<le> of_int ?my"
      using significand_bounds [OF y] by (simp only: of_int_le_iff)
    then have "2 ^ 52 * 2 powi ?ey \<le> f64_rnd y"
      unfolding r by (intro mult_right_mono) simp_all
    finally show ?thesis .
  qed
qed

section \<open>Exact values and the error of one rounding\<close>

lemma f64_rnd_exact:
  assumes "0 < x" and "x / 2 powi (ilog2 x - 52) = of_int i"
  shows "f64_rnd x = x"
proof -
  have "f64_rnd x = of_int i * 2 powi (ilog2 x - 52)"
    using assms by (simp only: f64_rnd_def Let_def round_even_int not_le if_False) simp
  also have "\<dots> = x" using assms(2) by (simp add: nonzero_divide_eq_eq)
  finally show ?thesis .
qed

lemma f64_of_nat_exact:
  assumes "n < 2 ^ 53"
  shows "f64_of_nat n = of_nat n"
proof (cases "n = 0")
  case True
  then show ?thesis by (simp add: f64_of_nat_def)
next
  case False
  let ?x = "rat_of_nat n"
  have x: "0 < ?x" using False by simp
  have "ilog2 ?x \<le> 52"
  proof (rule ccontr)
    assume "\<not> ilog2 ?x \<le> 52"
    then have "(2::rat) powi 53 \<le> 2 powi ilog2 ?x" by (intro powi_mono) simp
    also have "\<dots> \<le> ?x" using ilog2_bounds [OF x] by simp
    finally have "rat_of_nat (2 ^ 53) \<le> of_nat n" by simp
    then show False using assms by (simp only: of_nat_le_iff)
  qed
  then have "2 powi (ilog2 ?x - 52) = inverse ((2::rat) ^ nat (52 - ilog2 ?x))"
    by (auto simp: power_int_def power_divide inverse_eq_divide)
  then have "?x / 2 powi (ilog2 ?x - 52) = of_int (int n * 2 ^ nat (52 - ilog2 ?x))"
    by (simp add: field_simps)
  from f64_rnd_exact [OF x this] show ?thesis by (simp add: f64_of_nat_def)
qed

lemma f64_rnd_err:
  assumes "0 < x"
  shows "\<bar>f64_rnd x - x\<bar> \<le> x / 2 ^ 53"
proof -
  let ?e = "ilog2 x - 52"
  let ?m = "rat_of_int (round_even (x / 2 powi ?e))"
  have "f64_rnd x - x = (?m - x / 2 powi ?e) * 2 powi ?e"
    using assms by (simp add: f64_rnd_def Let_def field_simps)
  then have "\<bar>f64_rnd x - x\<bar> = \<bar>?m - x / 2 powi ?e\<bar> * 2 powi ?e"
    by (simp add: abs_mult)
  also have "\<dots> \<le> 1 / 2 * 2 powi ?e"
    by (intro mult_right_mono round_even_err) (simp add: less_imp_le)
  also have "\<dots> = 2 powi ilog2 x / 2 ^ 53" by (simp add: powi_diff)
  also have "\<dots> \<le> x / 2 ^ 53" using ilog2_bounds [OF assms] by (intro divide_right_mono) auto
  finally show ?thesis .
qed

lemma f64_rnd_half [simp]: "f64_rnd (1 / 2) = 1 / 2"
  by code_simp

text \<open>
  The error of a division never moves a ratio of counters across one half.
\<close>

lemma f64_div_half:
  assumes b: "0 < b" "b < 2 ^ 53" and a: "a < 2 ^ 53"
  shows "1 / 2 \<le> f64_div (f64_of_nat a) (f64_of_nat b) \<longleftrightarrow> b \<le> 2 * a"
proof -
  let ?x = "rat_of_nat a / of_nat b"
  have d: "f64_div (f64_of_nat a) (f64_of_nat b) = f64_rnd ?x"
    using assms by (simp add: f64_div_def f64_of_nat_exact)
  show ?thesis
  proof (cases "b \<le> 2 * a")
    case True
    then have "rat_of_nat b \<le> of_nat (2 * a)" by (simp only: of_nat_le_iff)
    then have "1 / 2 \<le> ?x" using b by (simp add: field_simps)
    then have "1 / 2 \<le> f64_rnd ?x" using f64_rnd_mono [of "1 / 2" ?x] by simp
    with True show ?thesis by (simp add: d)
  next
    case False
    have "rat_of_nat (2 * a + 1) \<le> of_nat b" using False by (simp only: of_nat_le_iff)
    then have le: "?x \<le> 1 / 2 - 1 / (2 * of_nat b)" using b by (simp add: field_simps)
    have "rat_of_nat b < of_nat (2 ^ 53)" using b by (simp only: of_nat_less_iff)
    then have small: "1 / 2 ^ 54 < 1 / (2 * rat_of_nat b)" using b by (simp add: field_simps)
    have "f64_rnd ?x < 1 / 2"
    proof (cases "a = 0")
      case False
      then have x: "0 < ?x" using b by simp
      have q: "?x / 2 ^ 53 \<le> 1 / 2 ^ 54" using le b by (simp add: field_simps)
      have "f64_rnd ?x \<le> ?x + ?x / 2 ^ 53" using f64_rnd_err [OF x] by linarith
      then show ?thesis using le small q by linarith
    qed simp
    with False show ?thesis by (simp add: d)
  qed
qed

lemma f64_div_half_eval:
  "0 < b \<Longrightarrow> b < 2 ^ 53 \<Longrightarrow> a < 2 ^ 53 \<Longrightarrow>
     1 \<le> f64_div (f64_of_nat a) (f64_of_nat b) * 2 \<longleftrightarrow> b \<le> 2 * a"
  using f64_div_half [of b a] by simp

end
