(* ===== verification/Token_Estimation.thy ===== *)
theory Token_Estimation
  imports F64
begin

text \<open>
  The bytes/4 token heuristic and the context-window gates of
  \<open>crates/codegen/xai-token-estimation/src/lib.rs\<close>. Texts enter through their byte
  length (\<open>str::len\<close>); integers are \<open>u64\<close> with the saturating products of the
  source.
\<close>

section \<open>Estimates\<close>

definition BYTES_PER_TOKEN :: u64 where "BYTES_PER_TOKEN = 4"
definition IMAGE_TOKEN_ESTIMATE :: u64 where "IMAGE_TOKEN_ESTIMATE = 765"

definition estimate_tokens :: "string \<Rightarrow> u64" where
  "estimate_tokens s = length s div BYTES_PER_TOKEN"

definition estimate_chars :: "u64 \<Rightarrow> u64" where
  "estimate_chars tokens = sat_mul64 tokens BYTES_PER_TOKEN"

definition estimate_image_tokens :: "u64 \<Rightarrow> u64" where
  "estimate_image_tokens image_count = sat_mul64 image_count IMAGE_TOKEN_ESTIMATE"

section \<open>Gates on the context window\<close>

definition usage_percentage :: "u64 \<Rightarrow> u64 \<Rightarrow> f64" where
  "usage_percentage used tot =
     (if tot = 0 then 0
      else min (f64_mul (f64_div (f64_of_nat used) (f64_of_nat tot)) 100) 100)"

definition usage_percentage_u8 :: "u64 \<Rightarrow> u64 \<Rightarrow> u8" where
  "usage_percentage_u8 used tot = min 255 (nat \<lfloor>f64_round (usage_percentage used tot)\<rfloor>)"

definition usage_percentage_truncated_u8 :: "u64 \<Rightarrow> u64 \<Rightarrow> u8" where
  "usage_percentage_truncated_u8 used tot =
     (if tot = 0 then 0 else min (sat_mul64 used 100 div tot) 100)"

definition free_tokens :: "u64 \<Rightarrow> u64 \<Rightarrow> u64" where
  "free_tokens tot used = tot - used"

definition exceeds_threshold :: "u64 \<Rightarrow> u64 \<Rightarrow> u8 \<Rightarrow> bool" where
  "exceeds_threshold used context_window threshold_percent =
     (if context_window = 0 then False
      else sat_mul64 context_window threshold_percent \<le> sat_mul64 used 100)"

definition exceeds_threshold_with_headroom :: "u64 \<Rightarrow> u64 \<Rightarrow> u8 \<Rightarrow> u64 \<Rightarrow> bool" where
  "exceeds_threshold_with_headroom used context_window threshold_percent headroom =
     (if context_window = 0 then False
      else sat_mul64 context_window threshold_percent - sat_mul64 headroom 100
             \<le> sat_mul64 used 100)"

lemmas token_defs = estimate_tokens_def estimate_chars_def estimate_image_tokens_def
  usage_percentage_truncated_u8_def exceeds_threshold_def exceeds_threshold_with_headroom_def
  BYTES_PER_TOKEN_def IMAGE_TOKEN_ESTIMATE_def

section \<open>Properties\<close>

text \<open>
  C36: the auto-compact gate and the percentage shown to the user agree: for every used
  count and window whose products fit in 64 bits, the gate fires at threshold \<open>p\<close>
  exactly when the truncated percentage has reached \<open>p\<close>.
\<close>

theorem exceeds_threshold_iff_percentage:
  assumes "0 < cw" and "p \<le> 100" and "used * 100 \<le> U64_MAX" and "cw * p \<le> U64_MAX"
  shows "exceeds_threshold used cw p \<longleftrightarrow> p \<le> usage_percentage_truncated_u8 used cw"
proof -
  have "cw * p \<le> used * 100 \<longleftrightarrow> p \<le> used * 100 div cw"
    using assms(1) by (simp add: less_eq_div_iff_mult_less_eq mult.commute)
  with assms show ?thesis
    by (simp add: token_defs sat_mul64_def min_absorb2)
qed

theorem exceeds_threshold_iff_percentage_witness:
  "(exceeds_threshold 850 1000 85 \<longleftrightarrow> 85 \<le> usage_percentage_truncated_u8 850 1000)
     \<and> exceeds_threshold 850 1000 85 \<and> \<not> exceeds_threshold 849 1000 85"
proof -
  have "exceeds_threshold 850 1000 85 \<longleftrightarrow> 85 \<le> usage_percentage_truncated_u8 850 1000"
    by (rule exceeds_threshold_iff_percentage) (simp_all add: U64_MAX_def)
  then show ?thesis
    by (simp add: token_defs sat_mul64_def U64_MAX_def)
qed

lemma headroom_zero:
  "exceeds_threshold_with_headroom used cw p 0 = exceeds_threshold used cw p"
  by (simp add: token_defs sat_mul64_def)

lemma headroom_mono:
  "exceeds_threshold_with_headroom used cw p h \<Longrightarrow> h \<le> h'
     \<Longrightarrow> exceeds_threshold_with_headroom used cw p h'"
  by (auto simp: token_defs sat_mul64_def min_def split: if_splits)

section \<open>The two displayed percentages\<close>

lemma f64_rnd_rel:
  assumes "0 \<le> x"
  shows "\<bar>f64_rnd x - x\<bar> \<le> x / 2 ^ 53"
  using f64_rnd_err [of x] assms by (cases "x = 0") auto

lemma percentage_error:
  assumes "0 < tot" "tot < 2 ^ 53" "used \<le> tot"
  defines "p \<equiv> 100 * rat_of_nat used / of_nat tot"
  shows "\<bar>usage_percentage used tot - p\<bar> < 1 / 2"
proof -
  let ?q = "rat_of_nat used / of_nat tot"
  have q: "0 \<le> ?q" "?q \<le> 1" using assms(1,3) by (simp_all add: divide_le_eq)
  have p: "p = ?q * 100" by (simp add: p_def)
  define a where "a = f64_rnd ?q"
  define m where "m = f64_rnd (a * 100)"
  have a: "\<bar>a - ?q\<bar> \<le> 1 / 2 ^ 53" "0 \<le> a"
    using f64_rnd_rel [OF q(1)] q(2) by (auto simp: a_def field_simps)
  have "a \<le> ?q + 1 / 2 ^ 53" using a(1) by linarith
  moreover have "(1::rat) / 2 ^ 53 \<le> 1" by simp
  ultimately have a1: "a \<le> 2" using q(2) by linarith
  have "\<bar>m - a * 100\<bar> \<le> a * 100 / 2 ^ 53"
    unfolding m_def by (rule f64_rnd_rel) (use a(2) in simp)
  then have "\<bar>m - a * 100\<bar> \<le> 200 / 2 ^ 53" using a1 by (simp add: field_simps)
  moreover have "\<bar>a * 100 - p\<bar> \<le> 100 / 2 ^ 53"
  proof -
    have "a * 100 - p = (a - ?q) * 100" by (simp only: p left_diff_distrib)
    then have "\<bar>a * 100 - p\<bar> = \<bar>a - ?q\<bar> * 100" by (simp only: abs_mult abs_numeral)
    then show ?thesis using a(1) by simp
  qed
  ultimately have "\<bar>m - p\<bar> \<le> 200 / 2 ^ 53 + 100 / 2 ^ 53" by linarith
  also have "\<dots> < (1 / 2 :: rat)" by simp
  finally have "\<bar>m - p\<bar> < 1 / 2" .
  moreover have "usage_percentage used tot = min m 100"
    using assms(1-3) by (simp add: usage_percentage_def f64_div_def f64_mul_def f64_of_nat_exact a_def m_def)
  moreover have "0 \<le> p" unfolding p using q(1) by (rule mult_nonneg_nonneg) simp
  moreover have "p \<le> 100" unfolding p using mult_right_mono [OF q(2), of 100] by simp
  ultimately show ?thesis by (auto simp: min_def abs_less_iff)
qed

text \<open>
  The rounded percentage shown by the usage display and the truncated one used by the
  gates never differ by more than one, the rounded one being the larger, for every window
  below \<open>2 ^ 53\<close> tokens; both stay at most 100.
\<close>

theorem rounded_vs_truncated_percentage:
  assumes "0 < tot" "tot < 2 ^ 53" "used \<le> tot"
  shows "usage_percentage_truncated_u8 used tot \<le> usage_percentage_u8 used tot
         \<and> usage_percentage_u8 used tot \<le> usage_percentage_truncated_u8 used tot + 1
         \<and> usage_percentage_u8 used tot \<le> 100"
proof -
  let ?p = "100 * rat_of_nat used / of_nat tot"
  let ?k = "used * 100 div tot"
  have tr: "usage_percentage_truncated_u8 used tot = ?k" and k100: "?k \<le> 100"
  proof -
    have "used * 100 div tot \<le> tot * 100 div tot" using assms(3) by (intro div_le_mono) simp
    then show k: "?k \<le> 100" using assms(1) by simp
    have "used * 100 \<le> U64_MAX" using assms by (simp add: U64_MAX_def)
    then show "usage_percentage_truncated_u8 used tot = ?k"
      using assms(1) k by (simp add: usage_percentage_truncated_u8_def sat_mul64_def min_absorb2 min_absorb1)
  qed
  have "rat_of_nat (?k * tot) \<le> of_nat (used * 100)" "rat_of_nat (used * 100) < of_nat ((?k + 1) * tot)"
    by (simp_all only: of_nat_le_iff of_nat_less_iff)
      (simp_all add: assms(1) dividend_less_times_div mult.commute)
  then have p: "rat_of_nat ?k \<le> ?p" "?p < of_nat ?k + 1"
    using assms(1) by (simp_all add: pos_le_divide_eq pos_divide_less_eq algebra_simps)
  let ?u = "usage_percentage used tot"
  have u: "\<bar>?u - ?p\<bar> < 1 / 2" by (rule percentage_error [OF assms])
  have le: "?u \<le> 100" by (simp add: usage_percentage_def)
  let ?r = "\<lfloor>?u + 1 / 2\<rfloor>"
  have "of_nat ?k \<le> ?u + 1 / 2" "?u + 1 / 2 < of_nat ?k + 2" using p u by linarith+
  then have "int ?k \<le> ?r" "?r < int ?k + 2" by (simp_all add: le_floor_iff floor_less_iff)
  moreover have "?r \<le> 100"
  proof -
    have "?r < 101" using le by (simp add: floor_less_iff)
    then show ?thesis by simp
  qed
  ultimately have "?k \<le> nat ?r" "nat ?r \<le> ?k + 1" "nat ?r \<le> 100" by linarith+
  moreover have "usage_percentage_u8 used tot = min 255 (nat ?r)"
    by (simp add: usage_percentage_u8_def f64_round_def)
  ultimately show ?thesis by (simp add: tr)
qed

theorem rounded_vs_truncated_percentage_witness:
  "usage_percentage_truncated_u8 2 3 = 66 \<and> usage_percentage_u8 2 3 \<in> {66, 67}"
proof -
  have "usage_percentage_truncated_u8 2 3 = 66"
    by (simp add: usage_percentage_truncated_u8_def sat_mul64_def U64_MAX_def)
  moreover have "2 \<le> (3::nat)" "3 < (2::nat) ^ 53" "0 < (3::nat)" by simp_all
  ultimately show ?thesis
    using rounded_vs_truncated_percentage [of 3 2] by auto
qed

end
