(* ===== verification/Sliding_Window.thy ===== *)
theory Sliding_Window
  imports F64
begin

text \<open>
  The bounded sliding window of the circuit breaker,
  \<open>crates/common/xai-circuit-breaker/src/window.rs\<close>. An \<open>Instant\<close> is the number
  of nanoseconds since the smallest representable instant, a \<open>Duration\<close> a number of
  nanoseconds. The locale \<open>sample_window\<close> is the interface the breaker uses; the
  window of the source is its interpretation.
\<close>

type_synonym instant = nat
type_synonym duration = nat

definition MAX_WINDOW_ENTRIES :: usize where "MAX_WINDOW_ENTRIES = 10000"

record SlidingWindow =
  entries :: "(instant \<times> bool) list"
  failures :: usize

definition new_window :: SlidingWindow where
  "new_window = \<lparr>entries = [], failures = 0\<rparr>"

text \<open>\<open>usize -= 1\<close> wraps at zero in a release build.\<close>

definition dec_usize :: "usize \<Rightarrow> usize" where
  "dec_usize n = (if n = 0 then U64_MAX else n - 1)"

definition push_back :: "bool \<Rightarrow> instant \<Rightarrow> SlidingWindow \<Rightarrow> SlidingWindow" where
  "push_back is_failure ts w =
     w\<lparr>entries := entries w @ [(ts, is_failure)],
       failures := (if is_failure then failures w + 1 else failures w)\<rparr>"

definition push :: "bool \<Rightarrow> instant \<Rightarrow> SlidingWindow \<Rightarrow> SlidingWindow" where
  "push is_failure ts w =
     push_back is_failure ts
       (if MAX_WINDOW_ENTRIES \<le> length (entries w)
        then (case entries w of
                [] \<Rightarrow> w
              | (_, was_failure) # rest \<Rightarrow>
                  w\<lparr>entries := rest,
                    failures := (if was_failure then dec_usize (failures w) else failures w)\<rparr>)
        else w)"

fun evict_loop :: "instant \<Rightarrow> (instant \<times> bool) list \<Rightarrow> usize \<Rightarrow> (instant \<times> bool) list \<times> usize" where
  "evict_loop cutoff [] n = ([], n)"
| "evict_loop cutoff ((ts, was_failure) # rest) n =
     (if ts < cutoff then evict_loop cutoff rest (if was_failure then dec_usize n else n)
      else ((ts, was_failure) # rest, n))"

definition evict :: "duration \<Rightarrow> instant \<Rightarrow> SlidingWindow \<Rightarrow> SlidingWindow" where
  "evict window now w =
     (if now < window then w
      else let (es, n) = evict_loop (now - window) (entries w) (failures w)
           in w\<lparr>entries := es, failures := n\<rparr>)"

definition error_rate :: "SlidingWindow \<Rightarrow> f64" where
  "error_rate w =
     (if entries w = [] then 0
      else f64_div (f64_of_nat (failures w)) (f64_of_nat (length (entries w))))"

definition sample_count :: "SlidingWindow \<Rightarrow> usize" where
  "sample_count w = length (entries w)"

definition clear :: "SlidingWindow \<Rightarrow> SlidingWindow" where
  "clear w = w\<lparr>entries := [], failures := 0\<rparr>"

section \<open>The invariant of the failure counter\<close>

definition count_failures :: "(instant \<times> bool) list \<Rightarrow> nat" where
  "count_failures es = length (filter snd es)"

lemma count_failures_simps [simp]:
  "count_failures [] = 0"
  "count_failures (e # es) = (if snd e then 1 else 0) + count_failures es"
  "count_failures (es @ fs) = count_failures es + count_failures fs"
  by (simp_all add: count_failures_def)

lemma count_failures_le: "count_failures es \<le> length es"
  by (simp add: count_failures_def)

definition window_ok :: "SlidingWindow \<Rightarrow> bool" where
  "window_ok w \<longleftrightarrow> failures w = count_failures (entries w) \<and> length (entries w) \<le> MAX_WINDOW_ENTRIES"

lemma dec_usize_Suc [simp]: "dec_usize (Suc n) = n"
  by (simp add: dec_usize_def)

lemma evict_loop_spec:
  "evict_loop c es (count_failures es) =
     (dropWhile (\<lambda>e. fst e < c) es, count_failures (dropWhile (\<lambda>e. fst e < c) es))"
  by (induction es) auto

lemma entries_evict:
  "window_ok w \<Longrightarrow> entries (evict d now w) = dropWhile (\<lambda>e. fst e + d < now) (entries w)"
proof -
  assume "window_ok w"
  moreover have "(\<lambda>e. fst e < now - d) = (\<lambda>e :: instant \<times> bool. fst e + d < now)"
    by (auto simp: less_diff_conv)
  moreover have "now < d \<Longrightarrow> dropWhile (\<lambda>e. fst e + d < now) es = es" for es :: "(instant \<times> bool) list"
    by (cases es) auto
  ultimately show ?thesis
    by (simp add: evict_def window_ok_def evict_loop_spec)
qed

lemma window_ok_evict [intro, inv_intros]: "window_ok w \<Longrightarrow> window_ok (evict d now w)"
  using length_dropWhile_le [of _ "entries w"]
  by (auto simp: evict_def window_ok_def evict_loop_spec Let_def intro: le_trans)

lemma window_ok_push [intro, inv_intros]: "window_ok w \<Longrightarrow> window_ok (push f t w)"
  by (cases "entries w")
    (auto simp: push_def push_back_def window_ok_def MAX_WINDOW_ENTRIES_def)

lemma window_ok_clear [intro, simp]: "window_ok (clear w)"
  by (simp add: clear_def window_ok_def MAX_WINDOW_ENTRIES_def)

lemma window_ok_new [intro, simp]: "window_ok new_window"
  by (simp add: new_window_def window_ok_def MAX_WINDOW_ENTRIES_def)

section \<open>The interface of a sample window\<close>

definition last_n :: "nat \<Rightarrow> 'a list \<Rightarrow> 'a list" where
  "last_n n xs = drop (length xs - n) xs"

lemma last_n_all [simp]: "length xs \<le> n \<Longrightarrow> last_n n xs = xs"
  by (simp add: last_n_def)

lemma length_last_n [simp]: "length (last_n n xs) = min n (length xs)"
  by (simp add: last_n_def)

lemma last_n_last_n: "last_n n (last_n n xs @ [x]) = last_n n (xs @ [x])"
  by (cases "length xs \<le> n") (auto simp: last_n_def min_def Suc_diff_le)

lemma last_n_snoc_full: "length xs = n \<Longrightarrow> 0 < n \<Longrightarrow> last_n n (xs @ [x]) = tl xs @ [x]"
  by (cases xs) (auto simp: last_n_def)

lemma entries_push:
  assumes "window_ok w"
  shows "entries (push f t w) = last_n MAX_WINDOW_ENTRIES (entries w @ [(t, f)])"
  using assms last_n_snoc_full [of "entries w" MAX_WINDOW_ENTRIES]
  by (cases "entries w")
    (auto simp: push_def push_back_def window_ok_def MAX_WINDOW_ENTRIES_def)

lemma dropWhile_dropWhile_sub:
  "(\<And>x. P0 x \<Longrightarrow> P x) \<Longrightarrow> dropWhile P (dropWhile P0 xs @ ys) = dropWhile P (xs @ ys)"
  by (induction xs) auto

lemma dropWhile_last_n:
  assumes sub: "\<And>x. P0 x \<Longrightarrow> P x" and len: "length L \<le> c" and c: "0 < c"
  shows "dropWhile P (last_n c (dropWhile P0 L @ [x])) = dropWhile P (last_n c (L @ [x]))"
proof (cases "dropWhile P0 L = L")
  case False
  then obtain a L' where L: "L = a # L'" and a: "P0 a" by (cases L) (auto split: if_splits)
  have "length (dropWhile P0 L @ [x]) \<le> c"
    using len a length_dropWhile_le [of P0 L'] by (simp add: L)
  then have "dropWhile P (last_n c (dropWhile P0 L @ [x])) = dropWhile P (L @ [x])"
    using dropWhile_dropWhile_sub [OF sub] by simp
  also have "\<dots> = dropWhile P (last_n c (L @ [x]))"
    using len c sub a last_n_snoc_full [of L c x] by (cases "length L = c") (auto simp: L)
  finally show ?thesis .
qed simp

locale sample_window =
  fixes push_w :: "bool \<Rightarrow> instant \<Rightarrow> 'w \<Rightarrow> 'w"
    and evict_w :: "duration \<Rightarrow> instant \<Rightarrow> 'w \<Rightarrow> 'w"
    and samples :: "'w \<Rightarrow> (instant \<times> bool) list"
    and ok :: "'w \<Rightarrow> bool"
    and cap :: nat
  assumes ok_push: "ok w \<Longrightarrow> ok (push_w f t w)"
    and ok_evict: "ok w \<Longrightarrow> ok (evict_w d t w)"
    and samples_push: "ok w \<Longrightarrow> samples (push_w f t w) = last_n cap (samples w @ [(t, f)])"
    and samples_evict: "ok w \<Longrightarrow> samples (evict_w d t w) = dropWhile (\<lambda>e. fst e + d < t) (samples w)"
    and cap_pos: "0 < cap"
begin

definition observe :: "duration \<Rightarrow> instant \<times> bool \<Rightarrow> 'w \<Rightarrow> 'w" where
  "observe d e w = evict_w d (fst e) (push_w (snd e) (fst e) w)"

lemma ok_observe: "ok w \<Longrightarrow> ok (observe d e w)"
  by (simp add: observe_def ok_push ok_evict)

lemma ok_run: "ok w \<Longrightarrow> ok (fold (observe d) hist w)"
  by (induction hist arbitrary: w) (auto intro: ok_observe)

text \<open>The live samples are the recent ones among the last \<open>cap\<close> of the whole history.\<close>

lemma run_dropWhile:
  assumes "ok w" "samples w = []" "sorted (map fst hist)" "hist \<noteq> []"
  shows "samples (fold (observe d) hist w) =
           dropWhile (\<lambda>e. fst e + d < fst (last hist)) (last_n cap hist)"
  using assms
proof (induction hist rule: rev_induct)
  case (snoc x hist)
  note okh = ok_run [OF snoc.prems(1), of d hist]
  let ?P = "\<lambda>e :: instant \<times> bool. fst e + d < fst x"
  have step: "samples (fold (observe d) (hist @ [x]) w) =
      dropWhile ?P (last_n cap (samples (fold (observe d) hist w) @ [x]))"
    using okh by (simp add: observe_def samples_push samples_evict ok_push)
  show ?case
  proof (cases "hist = []")
    case True
    then show ?thesis using step snoc.prems(2) by simp
  next
    case False
    then have "fst (last hist) \<le> fst x" using snoc.prems(3) by (simp add: sorted_append)
    then have sub: "fst e + d < fst (last hist) \<Longrightarrow> ?P e" for e :: "instant \<times> bool" by simp
    have "samples (fold (observe d) hist w) =
        dropWhile (\<lambda>e. fst e + d < fst (last hist)) (last_n cap hist)"
      using snoc.IH snoc.prems False by (simp add: sorted_append)
    then show ?thesis
      using step dropWhile_last_n [where P = ?P and L = "last_n cap hist", OF sub _ cap_pos]
      by (simp add: last_n_last_n)
  qed
qed simp

end

lemma dropWhile_filter_sorted:
  "sorted (map fst es) \<Longrightarrow> dropWhile (\<lambda>e. fst e + d < t) es = filter (\<lambda>e. t \<le> fst e + d) es"
  for es :: "(instant \<times> bool) list"
  by (induction es) (auto intro!: filter_True [symmetric])

interpretation sw: sample_window push evict entries window_ok MAX_WINDOW_ENTRIES
  by unfold_locales
    (auto simp: entries_push entries_evict MAX_WINDOW_ENTRIES_def)

lemmas window_run = sw.run_dropWhile sw.ok_run

text \<open>On the live window the error rate is at least one half exactly when half the samples failed.\<close>

lemma error_rate_half:
  assumes "window_ok w" and "entries w \<noteq> []"
  shows "1 / 2 \<le> error_rate w \<longleftrightarrow> length (entries w) \<le> 2 * count_failures (entries w)"
proof -
  have "length (entries w) < 2 ^ 53" and "failures w = count_failures (entries w)"
    using assms(1) by (simp_all add: window_ok_def MAX_WINDOW_ENTRIES_def)
  moreover have "count_failures (entries w) < 2 ^ 53"
    using count_failures_le [of "entries w"] \<open>length (entries w) < 2 ^ 53\<close> by simp
  ultimately show ?thesis
    using assms(2) f64_div_half [of "length (entries w)" "failures w"] by (simp add: error_rate_def)
qed

end
