(* ===== verification/Rust_Text.thy ===== *)
theory Rust_Text
  imports Prelude
begin

text \<open>
  The part of Rust's \<open>str\<close> the sources use. A Rust string is a sequence of UTF-8
  bytes, so it is modelled as a \<^typ>\<open>string\<close> whose characters are bytes: \<open>len\<close> is
  \<^const>\<open>length\<close>, searching and replacing work bytewise, and the character boundaries
  that \<open>is_char_boundary\<close> and \<open>chars\<close> see are the bytes that do not continue an
  encoding.
\<close>

section \<open>Characters and boundaries\<close>

definition is_cont :: "char \<Rightarrow> bool" where
  "is_cont c = (128 \<le> (of_char c :: nat) \<and> (of_char c :: nat) < 192)"

definition is_char_boundary :: "string \<Rightarrow> nat \<Rightarrow> bool" where
  "is_char_boundary s i =
     (i = 0 \<or> i = length s \<or> (i < length s \<and> \<not> is_cont (s ! i)))"

function chars :: "string \<Rightarrow> string list" where
  "chars [] = []"
| "chars (c # cs) = (c # takeWhile is_cont cs) # chars (dropWhile is_cont cs)"
  by pat_completeness auto
termination
  by (relation "measure length") (auto simp: le_imp_less_Suc length_dropWhile_le)

lemma concat_chars [simp]: "concat (chars s) = s"
  by (induction s rule: chars.induct) auto

lemma chars_Nil_iff [simp]: "chars s = [] \<longleftrightarrow> s = []"
  by (cases s) auto

lemma length_chars_le: "length (chars s) \<le> length s"
proof (induction s rule: chars.induct)
  case (2 c cs)
  then show ?case using length_dropWhile_le [of is_cont cs] by simp
qed simp

text \<open>Rounding an offset down to a character boundary, as every byte-truncating loop does.\<close>

fun floor_boundary :: "string \<Rightarrow> nat \<Rightarrow> nat" where
  "floor_boundary s i = (if is_char_boundary s i then i else if i = 0 then 0 else floor_boundary s (i - 1))"

declare floor_boundary.simps [simp del]

lemma floor_boundary_boundary: "is_char_boundary s (floor_boundary s i)"
proof (induction s i rule: floor_boundary.induct)
  case (1 s i)
  then show ?case
    by (subst floor_boundary.simps) (auto simp: is_char_boundary_def)
qed

lemma floor_boundary_le: "floor_boundary s i \<le> i"
proof (induction s i rule: floor_boundary.induct)
  case (1 s i)
  then show ?case
    by (subst floor_boundary.simps) (cases "i = 0"; force)
qed

lemma floor_boundary_greatest:
  "is_char_boundary s j \<Longrightarrow> j \<le> i \<Longrightarrow> j \<le> floor_boundary s i"
proof (induction s i rule: floor_boundary.induct)
  case (1 s i)
  show ?case
  proof (cases "is_char_boundary s i \<or> i = 0")
    case True
    then show ?thesis using "1.prems" by (subst floor_boundary.simps) auto
  next
    case False
    then have "j \<noteq> i" using "1.prems" by auto
    then show ?thesis
      using False "1.IH" "1.prems" by (subst floor_boundary.simps) auto
  qed
qed

section \<open>Searching and replacing\<close>

fun find_sub :: "string \<Rightarrow> string \<Rightarrow> nat option" where
  "find_sub p [] = (if p = [] then Some 0 else None)"
| "find_sub p (c # cs) =
     (if prefix p (c # cs) then Some 0 else map_option Suc (find_sub p cs))"

fun rfind_sub :: "string \<Rightarrow> string \<Rightarrow> nat option" where
  "rfind_sub p [] = (if p = [] then Some 0 else None)"
| "rfind_sub p (c # cs) =
     (case rfind_sub p cs of Some i \<Rightarrow> Some (Suc i)
      | None \<Rightarrow> if prefix p (c # cs) then Some 0 else None)"

definition contains_sub :: "string \<Rightarrow> string \<Rightarrow> bool" where
  "contains_sub p s = (find_sub p s \<noteq> None)"

definition strip_prefix :: "string \<Rightarrow> string \<Rightarrow> string option" where
  "strip_prefix p s = (if prefix p s then Some (drop (length p) s) else None)"

function replace_nonempty :: "string \<Rightarrow> string \<Rightarrow> string \<Rightarrow> string" where
  "replace_nonempty p r [] = []"
| "replace_nonempty p r (c # cs) =
     (if prefix p (c # cs) then r @ replace_nonempty p r (drop (length p - 1) cs)
      else c # replace_nonempty p r cs)"
  by pat_completeness auto
termination
  by (relation "measure (\<lambda>(p, r, s). length s)") auto

text \<open>An empty pattern matches at every character boundary, as \<open>str::replace\<close> does.\<close>

definition replace_sub :: "string \<Rightarrow> string \<Rightarrow> string \<Rightarrow> string" where
  "replace_sub p r s =
     (if p = [] then r @ concat (map (\<lambda>ch. ch @ r) (chars s)) else replace_nonempty p r s)"

lemma find_sub_Some:
  "find_sub p s = Some i \<Longrightarrow>
     i + length p \<le> length s \<and> prefix p (drop i s) \<and> (\<forall>j < i. \<not> prefix p (drop j s))"
proof (induction p s arbitrary: i rule: find_sub.induct)
  case (2 p c cs)
  show ?case
  proof (cases "prefix p (c # cs)")
    case True
    then show ?thesis using "2.prems" by (auto dest: prefix_length_le)
  next
    case False
    with "2.prems" obtain k where k: "find_sub p cs = Some k" "i = Suc k" by auto
    with "2.IH" [OF False k(1)] False show ?thesis
      by (auto simp: less_Suc_eq_0_disj)
  qed
qed (auto split: if_splits)

lemma find_sub_None: "find_sub p s = None \<longleftrightarrow> \<not> sublist p s"
  by (induction p s rule: find_sub.induct) (auto simp: sublist_Cons_right)

lemma contains_sub_iff: "contains_sub p s \<longleftrightarrow> sublist p s"
  by (simp add: contains_sub_def find_sub_None)

lemma rfind_sub_None: "rfind_sub p s = None \<longleftrightarrow> \<not> sublist p s"
  by (induction p s rule: rfind_sub.induct) (auto simp: sublist_Cons_right split: option.splits)

lemma rfind_sub_Some:
  "rfind_sub p s = Some i \<Longrightarrow> i + length p \<le> length s \<and> prefix p (drop i s)"
  by (induction p s arbitrary: i rule: rfind_sub.induct)
    (auto split: if_splits option.splits dest: prefix_length_le)

lemma replace_nonempty_id: "\<not> sublist p s \<Longrightarrow> replace_nonempty p r s = s"
  by (induction p r s rule: replace_nonempty.induct) (auto simp: sublist_Cons_right)

lemma replace_sub_id: "\<not> sublist p s \<Longrightarrow> replace_sub p r s = s"
  by (auto simp: replace_sub_def replace_nonempty_id)

section \<open>Trimming\<close>

text \<open>The encodings of the characters with Unicode property \<open>White_Space\<close>.\<close>

definition ws_chars :: "string list" where
  "ws_chars =
     [[CHR 0x09], [CHR 0x0A], [CHR 0x0B], [CHR 0x0C], [CHR 0x0D], [CHR 0x20],
      [CHR 0xC2, CHR 0x85], [CHR 0xC2, CHR 0xA0], [CHR 0xE1, CHR 0x9A, CHR 0x80],
      [CHR 0xE2, CHR 0x80, CHR 0x80], [CHR 0xE2, CHR 0x80, CHR 0x81],
      [CHR 0xE2, CHR 0x80, CHR 0x82], [CHR 0xE2, CHR 0x80, CHR 0x83],
      [CHR 0xE2, CHR 0x80, CHR 0x84], [CHR 0xE2, CHR 0x80, CHR 0x85],
      [CHR 0xE2, CHR 0x80, CHR 0x86], [CHR 0xE2, CHR 0x80, CHR 0x87],
      [CHR 0xE2, CHR 0x80, CHR 0x88], [CHR 0xE2, CHR 0x80, CHR 0x89],
      [CHR 0xE2, CHR 0x80, CHR 0x8A], [CHR 0xE2, CHR 0x80, CHR 0xA8],
      [CHR 0xE2, CHR 0x80, CHR 0xA9], [CHR 0xE2, CHR 0x80, CHR 0xAF],
      [CHR 0xE2, CHR 0x81, CHR 0x9F], [CHR 0xE3, CHR 0x80, CHR 0x80]]"

definition is_whitespace :: "string \<Rightarrow> bool" where
  "is_whitespace ch = (ch \<in> set ws_chars)"

definition trim_start :: "string \<Rightarrow> string" where
  "trim_start s = concat (dropWhile is_whitespace (chars s))"

definition trim_end :: "string \<Rightarrow> string" where
  "trim_end s = concat (rev (dropWhile is_whitespace (rev (chars s))))"

definition trim :: "string \<Rightarrow> string" where
  "trim s = trim_end (trim_start s)"

definition trim_end_matches :: "char list \<Rightarrow> string \<Rightarrow> string" where
  "trim_end_matches cs s = rev (dropWhile (\<lambda>c. c \<in> set cs) (rev s))"

definition trim_start_matches :: "char list \<Rightarrow> string \<Rightarrow> string" where
  "trim_start_matches cs s = dropWhile (\<lambda>c. c \<in> set cs) s"

lemma trim_end_matches_idem [simp]:
  "trim_end_matches cs (trim_end_matches cs s) = trim_end_matches cs s"
  by (simp add: trim_end_matches_def)

section \<open>ASCII and numbers\<close>

definition to_ascii_lower :: "char \<Rightarrow> char" where
  "to_ascii_lower c =
     (if 65 \<le> (of_char c :: nat) \<and> (of_char c :: nat) \<le> 90 then char_of ((of_char c :: nat) + 32) else c)"

definition to_ascii_lowercase :: "string \<Rightarrow> string" where
  "to_ascii_lowercase s = map to_ascii_lower s"

definition eq_ignore_ascii_case :: "string \<Rightarrow> string \<Rightarrow> bool" where
  "eq_ignore_ascii_case a b = (to_ascii_lowercase a = to_ascii_lowercase b)"

definition is_lower_hex :: "char \<Rightarrow> bool" where
  "is_lower_hex c = (c \<in> set ''0123456789abcdef'')"

definition is_ascii_digit :: "char \<Rightarrow> bool" where
  "is_ascii_digit c = (c \<in> set ''0123456789'')"

definition digit_char :: "nat \<Rightarrow> char" where
  "digit_char d = ''0123456789abcdef'' ! d"

definition digit_val :: "char \<Rightarrow> nat" where
  "digit_val c = length (takeWhile (\<lambda>x. x \<noteq> c) ''0123456789abcdef'')"

fun show_radix :: "nat \<Rightarrow> nat \<Rightarrow> string" where
  "show_radix b n = (if b \<le> 1 \<or> n < b then [digit_char n] else show_radix b (n div b) @ [digit_char (n mod b)])"

declare show_radix.simps [simp del]

definition show_nat :: "nat \<Rightarrow> string" where
  "show_nat n = show_radix 10 n"

definition show_hex :: "nat \<Rightarrow> string" where
  "show_hex n = show_radix 16 n"

definition radix_val :: "nat \<Rightarrow> string \<Rightarrow> nat" where
  "radix_val b s = foldl (\<lambda>n c. n * b + digit_val c) 0 s"

lemma less_16_cases:
  "(d::nat) < 16 \<Longrightarrow> d = 0 \<or> d = 1 \<or> d = 2 \<or> d = 3 \<or> d = 4 \<or> d = 5 \<or> d = 6 \<or> d = 7 \<or> d = 8
     \<or> d = 9 \<or> d = 10 \<or> d = 11 \<or> d = 12 \<or> d = 13 \<or> d = 14 \<or> d = 15"
  by arith

lemma digit_val_char [simp]: "d < 16 \<Longrightarrow> digit_val (digit_char d) = d"
  by (drule less_16_cases, elim disjE) (simp_all add: digit_val_def digit_char_def)

lemma digit_char_hex [simp]: "d < 16 \<Longrightarrow> is_lower_hex (digit_char d)"
  by (drule less_16_cases, elim disjE) (simp_all add: is_lower_hex_def digit_char_def)

lemma show_radix_hex: "2 \<le> b \<Longrightarrow> b \<le> 16 \<Longrightarrow> list_all is_lower_hex (show_radix b n)"
proof (induction b n rule: show_radix.induct)
  case (1 b n)
  have "n mod b < b" using "1.prems" by simp
  then have "n mod b < 16" using "1.prems" by linarith
  with 1 show ?case by (subst show_radix.simps) auto
qed

lemma show_radix_nonempty: "show_radix b n \<noteq> []"
  by (subst show_radix.simps) simp

lemma radix_val_show: "2 \<le> b \<Longrightarrow> b \<le> 16 \<Longrightarrow> radix_val b (show_radix b n) = n"
proof (induction b n rule: show_radix.induct)
  case (1 b n)
  show ?case
  proof (cases "n < b")
    case True
    then show ?thesis using "1.prems" by (subst show_radix.simps) (simp add: radix_val_def)
  next
    case False
    then have IH: "radix_val b (show_radix b (n div b)) = n div b" using 1 by simp
    have "n mod b < b" using "1.prems" by simp
    then have "n mod b < 16" using "1.prems" by linarith
    then show ?thesis
      using False "1.prems" IH by (subst show_radix.simps) (simp add: radix_val_def)
  qed
qed

lemma show_hex_inj [simp]: "show_hex a = show_hex b \<longleftrightarrow> a = b"
proof
  assume "show_hex a = show_hex b"
  then have "radix_val 16 (show_radix 16 a) = radix_val 16 (show_radix 16 b)"
    by (simp add: show_hex_def)
  then show "a = b" by (simp add: radix_val_show)
qed simp

section \<open>Joining\<close>

fun join :: "'a list \<Rightarrow> 'a list list \<Rightarrow> 'a list" where
  "join sep [] = []"
| "join sep [x] = x"
| "join sep (x # y # ys) = x @ sep @ join sep (y # ys)"

lemma join_Cons: "join sep (x # xs) = (if xs = [] then x else x @ sep @ join sep xs)"
  by (cases xs) auto

lemma join_append: "xs \<noteq> [] \<Longrightarrow> ys \<noteq> [] \<Longrightarrow> join sep (xs @ ys) = join sep xs @ sep @ join sep ys"
  by (induction xs) (auto simp: join_Cons)

lemma sublist_join: "x \<in> set xs \<Longrightarrow> sublist x (join sep xs)"
proof (induction xs)
  case (Cons a xs)
  then show ?case
  proof (cases "x = a")
    case True
    then show ?thesis by (auto simp: join_Cons)
  next
    case False
    then have "sublist x (join sep xs)" "xs \<noteq> []" using Cons by auto
    then show ?thesis
      by (metis join_Cons sublist_append_leftI sublist_order.order_trans sublist_order.order.refl)
  qed
qed simp

section \<open>Splitting and parsing\<close>

text \<open>\<open>str::split\<close> on a one-byte separator: the pieces between separators, at least one.\<close>

fun split_on :: "char \<Rightarrow> string \<Rightarrow> string list" where
  "split_on c [] = [[]]"
| "split_on c (x # xs) =
     (if x = c then [] # split_on c xs
      else case split_on c xs of [] \<Rightarrow> [[x]] | p # ps \<Rightarrow> (x # p) # ps)"

lemma split_on_nonempty [simp]: "split_on c s \<noteq> []"
  by (cases s) (auto split: list.splits)

lemma split_on_noc: "p \<in> set (split_on c s) \<Longrightarrow> c \<notin> set p"
  by (induction s arbitrary: p) (auto split: list.splits if_splits)

lemma split_on_id: "c \<notin> set s \<Longrightarrow> split_on c s = [s]"
  by (induction s) auto

lemma split_on_append: "c \<notin> set p \<Longrightarrow> split_on c (p @ c # s) = p # split_on c s"
  by (induction p) auto

lemma split_on_join:
  "ps \<noteq> [] \<Longrightarrow> (\<forall>p \<in> set ps. c \<notin> set p) \<Longrightarrow> split_on c (join [c] ps) = ps"
  by (induction ps) (auto simp: join_Cons split_on_id split_on_append)

text \<open>
  \<open>from_str\<close> of the unsigned integer types: an optional plus sign, then at least one
  decimal digit, rejecting values beyond the type's maximum.
\<close>

definition parse_uint :: "nat \<Rightarrow> string \<Rightarrow> nat option" where
  "parse_uint mx s =
     (let ds = (case s of c # r \<Rightarrow> (if c = CHR ''+'' then r else s) | [] \<Rightarrow> s)
      in if ds \<noteq> [] \<and> list_all is_ascii_digit ds \<and> radix_val 10 ds \<le> mx
         then Some (radix_val 10 ds) else None)"

definition parse_bool :: "string \<Rightarrow> bool option" where
  "parse_bool s = (if s = ''true'' then Some True else if s = ''false'' then Some False else None)"

lemma parse_uint_le: "parse_uint mx s = Some n \<Longrightarrow> n \<le> mx"
  by (auto simp: parse_uint_def Let_def split: if_splits)

section \<open>Characters with their byte offsets\<close>

fun indices_from :: "nat \<Rightarrow> string list \<Rightarrow> (nat \<times> string) list" where
  "indices_from i [] = []"
| "indices_from i (c # cs) = (i, c) # indices_from (i + length c) cs"

definition char_indices :: "string \<Rightarrow> (nat \<times> string) list" where
  "char_indices s = indices_from 0 (chars s)"

lemma snd_indices_from [simp]: "map snd (indices_from i cs) = cs"
  by (induction cs arbitrary: i) auto

lemma fst_indices_from_ge: "(j, c) \<in> set (indices_from i cs) \<Longrightarrow> i \<le> j \<and> j + length c \<le> i + length (concat cs)"
  by (induction cs arbitrary: i) fastforce+

text \<open>The end of the last character that starts before \<open>n\<close>, and the bytes before it.\<close>

lemma takeWhile_indices:
  "takeWhile (\<lambda>x. fst x < n) (indices_from i cs) = ys \<Longrightarrow> ys \<noteq> [] \<Longrightarrow>
     fst (last ys) + length (snd (last ys)) = i + length (concat (map snd ys))
     \<and> (\<exists>zs. cs = map snd ys @ zs)"
proof (induction cs arbitrary: i ys)
  case (Cons c cs)
  then obtain ys' where ys: "ys = (i, c) # ys'"
    "ys' = takeWhile (\<lambda>x. fst x < n) (indices_from (i + length c) cs)"
    by (auto split: if_splits)
  show ?case
  proof (cases "ys' = []")
    case False
    with Cons.IH [of "i + length c" ys'] ys show ?thesis by auto
  qed (simp add: ys(1))
qed simp

section \<open>Trimming\<close>

text \<open>
  A list of characters is well formed when each is a lead byte with its continuation bytes;
  only the first may start with a continuation byte (in a text that is not valid UTF-8).
\<close>

definition char_like :: "string \<Rightarrow> bool" where
  "char_like ch \<longleftrightarrow> ch \<noteq> [] \<and> list_all is_cont (tl ch)"

definition char_list :: "string list \<Rightarrow> bool" where
  "char_list cs \<longleftrightarrow> list_all char_like cs \<and> list_all (\<lambda>ch. \<not> is_cont (hd ch)) (tl cs)"

lemma split_cont:
  assumes "list_all is_cont t" and "x = [] \<or> \<not> is_cont (hd x)"
  shows "takeWhile is_cont (t @ x) = t" and "dropWhile is_cont (t @ x) = x"
  using assms by (cases x; auto simp: list_all_iff takeWhile_append2 dropWhile_append2)+

lemma chars_concat: "char_list cs \<Longrightarrow> chars (concat cs) = cs"
proof (induction cs)
  case (Cons ch cs)
  obtain h t where ch: "ch = h # t" using Cons.prems by (cases ch) (auto simp: char_list_def char_like_def)
  have t: "list_all is_cont t" using Cons.prems by (simp add: char_list_def char_like_def ch)
  have cs: "char_list cs" using Cons.prems by (cases cs) (auto simp: char_list_def)
  have hd: "concat cs = [] \<or> \<not> is_cont (hd (concat cs))"
    using Cons.prems by (cases cs) (auto simp: char_list_def char_like_def hd_append)
  show ?case using Cons.IH [OF cs] split_cont [OF t hd] by (simp add: ch)
qed simp

lemma char_list_chars: "char_list (chars s)"
proof (induction s rule: chars.induct)
  case (2 c cs)
  define D where "D = chars (dropWhile is_cont cs)"
  have "D = [] \<or> \<not> is_cont (hd (hd D))"
    unfolding D_def by (cases "dropWhile is_cont cs") (auto dest: dropWhile_hd_false)
  moreover have "list_all is_cont (takeWhile is_cont cs)"
    by (auto simp: list_all_iff dest: set_takeWhileD)
  ultimately show ?case
    using 2 unfolding chars.simps D_def [symmetric]
    by (cases D) (auto simp: char_list_def char_like_def)
qed (simp add: char_list_def)

lemma char_list_suffix: "char_list (xs @ ys) \<Longrightarrow> char_list ys"
  by (cases xs; cases ys) (auto simp: char_list_def list_all_iff)

lemma char_list_prefix: "char_list (xs @ ys) \<Longrightarrow> char_list xs"
  by (cases xs) (auto simp: char_list_def)

lemma chars_trim_start: "chars (trim_start s) = dropWhile is_whitespace (chars s)"
  unfolding trim_start_def
  by (rule chars_concat) (metis char_list_chars char_list_suffix takeWhile_dropWhile_id)

lemma rev_dropWhile_prefix: "\<exists>ys. xs = rev (dropWhile P (rev xs)) @ ys"
  by (metis rev_append rev_rev_ident takeWhile_dropWhile_id)

lemma chars_trim_end: "chars (trim_end s) = rev (dropWhile is_whitespace (rev (chars s)))"
  unfolding trim_end_def
  by (rule chars_concat) (metis char_list_chars char_list_prefix rev_dropWhile_prefix)

lemma trim_end_idem: "trim_end (trim_end s) = trim_end s"
  by (subst trim_end_def) (simp add: chars_trim_end concat_chars [symmetric] del: concat_chars, simp add: trim_end_def)

lemma hd_rev_dropWhile_rev:
  "xs = [] \<or> \<not> P (hd xs) \<Longrightarrow> rev (dropWhile P (rev xs)) = [] \<or> \<not> P (hd (rev (dropWhile P (rev xs))))"
  by (metis append_is_Nil_conv hd_append2 rev_dropWhile_prefix)

lemma trim_idem [simp]: "trim (trim s) = trim s"
proof -
  let ?cs = "dropWhile is_whitespace (chars s)"
  have "?cs = [] \<or> \<not> is_whitespace (hd ?cs)" by (metis hd_dropWhile)
  then have "chars (trim s) = [] \<or> \<not> is_whitespace (hd (chars (trim s)))"
    unfolding trim_def chars_trim_end chars_trim_start by (rule hd_rev_dropWhile_rev)
  then have "dropWhile is_whitespace (chars (trim s)) = chars (trim s)"
    by (metis dropWhile_eq_self_iff)
  then have "trim_start (trim s) = trim s" by (simp only: trim_start_def concat_chars)
  then show ?thesis by (simp add: trim_def trim_end_idem)
qed

text \<open>Tokens: single-byte characters that are not white space.\<close>

definition token_char :: "char \<Rightarrow> bool" where
  "token_char c \<longleftrightarrow> \<not> is_cont c \<and> \<not> is_whitespace [c]"

lemma trim_token:
  assumes "list_all token_char s"
  shows "trim s = s"
proof -
  have cs: "list_all token_char t \<Longrightarrow> chars t = map (\<lambda>c. [c]) t" for t
  proof (induction t)
    case (Cons c t)
    then have "t = [] \<or> \<not> is_cont (hd t)" by (cases t) (auto simp: token_char_def)
    then show ?case using Cons split_cont [of "[]" t] by simp
  qed simp
  have dw: "list_all token_char t \<Longrightarrow> dropWhile is_whitespace (map (\<lambda>c. [c]) t) = map (\<lambda>c. [c]) t" for t
    by (cases t) (auto simp: token_char_def)
  have "trim_start s = s"
    using assms by (simp add: trim_start_def cs dw)
  moreover have "trim_end s = s"
    using assms dw [of "rev s"] by (simp add: trim_end_def cs rev_map [symmetric])
  ultimately show ?thesis by (simp add: trim_def)
qed

lemma show_hex_lower [simp]: "list_all is_lower_hex (show_hex n)" "show_hex n \<noteq> []"
  using show_radix_hex [of 16 n] show_radix_nonempty [of 16 n] by (simp_all add: show_hex_def)

lemma token_hex: "is_lower_hex c \<Longrightarrow> token_char c"
  by (auto simp: is_lower_hex_def token_char_def is_cont_def is_whitespace_def ws_chars_def)

lemma chars_append: "y = [] \<or> \<not> is_cont (hd y) \<Longrightarrow> chars (x @ y) = chars x @ chars y"
proof (induction x rule: chars.induct)
  case (2 c cs)
  have "takeWhile is_cont (cs @ y) = takeWhile is_cont cs \<and> dropWhile is_cont (cs @ y) = dropWhile is_cont cs @ y
        \<and> (dropWhile is_cont cs = [] \<longrightarrow> dropWhile is_cont y = y)"
    using 2(2) by (induction cs) (auto, (cases y; simp)+)
  then show ?case using 2 by simp
qed simp

lemma chars_of_trim: "chars (trim s) = rev (dropWhile is_whitespace (rev (dropWhile is_whitespace (chars s))))"
  by (simp add: trim_def chars_trim_end chars_trim_start)

lemma trim_cons: "is_whitespace [a] \<Longrightarrow> s = [] \<or> \<not> is_cont (hd s) \<Longrightarrow> trim (a # s) = trim s"
  using chars_append [of s "[a]"] chars_of_trim [of s] chars_of_trim [of "a # s"]
  by (metis append_Cons append_Nil chars.simps concat_chars dropWhile.simps(2) takeWhile.simps(1) dropWhile.simps(1))

lemma trim_snoc:
  assumes "is_whitespace [b]" "\<not> is_cont b"
  shows "trim (s @ [b]) = trim s"
proof -
  have c: "chars (s @ [b]) = chars s @ [[b]]" using chars_append [of "[b]" s] assms(2) by simp
  have "chars (trim (s @ [b])) = chars (trim s)"
  proof (cases "\<forall>x \<in> set (chars s). is_whitespace x")
    case True
    then show ?thesis using assms unfolding chars_of_trim c by (auto simp: dropWhile_append2 dest: set_dropWhileD)
  next
    case False
    then have "dropWhile is_whitespace (chars s @ [[b]]) = dropWhile is_whitespace (chars s) @ [[b]]"
      by (auto simp: dropWhile_append1)
    then show ?thesis using assms unfolding chars_of_trim c by simp
  qed
  then show ?thesis by (metis concat_chars)
qed

text \<open>White space put around a text is what trimming removes.\<close>

lemma trim_surround:
  assumes "is_whitespace [a]" "is_whitespace [b]" "\<not> is_cont b" "q = [] \<or> \<not> is_cont (hd q)"
  shows "trim (a # q @ [b]) = trim q"
  using trim_cons [OF assms(1), of "q @ [b]"] trim_snoc [OF assms(2,3), of q] assms(3,4) by (cases q) auto

lemma trim_id:
  assumes "token_char a" "\<not> is_cont (hd (m @ [b]))" "token_char b"
  shows "trim (a # m @ [b]) = a # m @ [b]"
proof -
  have c: "chars (a # m @ [b]) = [a] # chars m @ [[b]]"
    using chars_append [of "m @ [b]" "[a]"] chars_append [of "[b]" m] assms by (simp add: token_char_def)
  have "chars (trim (a # m @ [b])) = chars (a # m @ [b])"
    using assms unfolding chars_of_trim c by (simp add: token_char_def)
  then show ?thesis by (metis concat_chars)
qed

text \<open>Patterns that start with a byte occurring nowhere else in the searched part.\<close>

lemma find_sub_first: "c \<notin> set m \<Longrightarrow> find_sub (c # p) (m @ c # p @ r) = Some (length m)"
  by (induction m) auto

lemma sublist_marked:
  "c \<notin> set m \<Longrightarrow> sublist (c # p) (m @ s) \<longleftrightarrow> sublist (c # p) s"
  by (induction m) (auto simp: sublist_Cons_right)

lemma length_replace_le:
  "length r \<le> length p \<Longrightarrow> length (replace_nonempty p r s) \<le> length s"
proof (induction p r s rule: replace_nonempty.induct)
  case (2 p r c cs)
  then show ?case using prefix_length_le [of p "c # cs"] by (cases "prefix p (c # cs)") auto
qed simp

lemma length_replace_less:
  "length r < length p \<Longrightarrow> sublist p s \<Longrightarrow> length (replace_nonempty p r s) < length s"
proof (induction p r s rule: replace_nonempty.induct)
  case (2 p r c cs)
  show ?case
  proof (cases "prefix p (c # cs)")
    case True
    then show ?thesis
      using length_replace_le [of r p "drop (length p - 1) cs"] 2(3) prefix_length_le [OF True] by auto
  next
    case False
    then show ?thesis using 2 by (auto simp: sublist_Cons_right)
  qed
qed auto

lemma sublist_trim: "sublist (trim s) s"
proof -
  have s: "sublist (trim_start u) u" for u
    unfolding trim_start_def
    by (metis concat_append concat_chars sublist_append_leftI sublist_order.order_refl takeWhile_dropWhile_id)
  have e: "sublist (trim_end u) u" for u
    unfolding trim_end_def
    by (metis concat_append concat_chars rev_dropWhile_prefix sublist_append_rightI)
  show ?thesis unfolding trim_def using s e by (metis sublist_order.order_trans)
qed

end
