(* ===== verification/Circuit_Breaker.thy ===== *)
theory Circuit_Breaker
  imports Sliding_Window Rust_Text
begin

text \<open>
  The circuit breaker of \<open>crates/common/xai-circuit-breaker/src\<close>: configuration and
  its presets (\<open>config.rs\<close>), states and outcomes (\<open>state.rs\<close>), the state machine
  (\<open>breaker.rs\<close>) and the per-key registry (\<open>registry.rs\<close>). The clock is external:
  every reading an operation takes is an argument, in the order the code reads it. The probe
  counter is a natural number: the invariant bounds it by the number of slots, so the wrap-around
  of \<open>fetch_add\<close> and \<open>fetch_sub\<close> on \<open>usize\<close> is not reached. Calls of
  the installed \<open>Observer\<close> are appended to \<open>log\<close>. Operations run one at a time
  here; the interleaving of concurrent \<open>check\<close> calls is the theory \<open>Breaker_Race\<close>.
\<close>

section \<open>States, outcomes, configuration\<close>

datatype BreakerState = Closed | Open | HalfOpen

definition as_u8 :: "BreakerState \<Rightarrow> u8" where
  "as_u8 s = (case s of Closed \<Rightarrow> 0 | Open \<Rightarrow> 1 | HalfOpen \<Rightarrow> 2)"

definition from_u8 :: "u8 \<Rightarrow> BreakerState" where
  "from_u8 v = (if v = 0 then Closed else if v = 1 then Open else if v = 2 then HalfOpen else Closed)"

datatype Outcome = Success | Failure

datatype BreakerOpen = BreakerOpen (retry_after: duration)

datatype observer_event =
  on_state_change BreakerState BreakerState string
| on_outcome Outcome BreakerState
| on_probe_admission bool

abbreviation from_secs :: "nat \<Rightarrow> duration" where "from_secs s \<equiv> s * 1000000000"
abbreviation from_millis :: "nat \<Rightarrow> duration" where "from_millis s \<equiv> s * 1000000"
abbreviation as_millis :: "duration \<Rightarrow> nat" where "as_millis d \<equiv> d div 1000000"

record BreakerConfig =
  window_duration :: duration
  min_samples :: usize
  error_rate_threshold :: f64_value
  open_duration :: duration
  half_open_max_probes :: usize
  failure_codes :: "u16 set"
  enabled :: bool

definition DEFAULT_FAILURE_CODES :: "u16 list" where
  "DEFAULT_FAILURE_CODES = [429, 500, 502, 503, 504]"

definition default_failure_codes :: "u16 set" where
  "default_failure_codes = set DEFAULT_FAILURE_CODES"

definition server_config :: BreakerConfig where
  "server_config =
     \<lparr>window_duration = from_secs 60, min_samples = 10, error_rate_threshold = Finite (1 / 2),
      open_duration = from_secs 10, half_open_max_probes = 1,
      failure_codes = default_failure_codes, enabled = True\<rparr>"

definition client_config :: BreakerConfig where
  "client_config =
     \<lparr>window_duration = from_secs 60, min_samples = 5, error_rate_threshold = Finite (1 / 2),
      open_duration = from_secs 60, half_open_max_probes = 1,
      failure_codes = {401}, enabled = True\<rparr>"

definition is_failure_status :: "BreakerConfig \<Rightarrow> u16 \<Rightarrow> bool" where
  "is_failure_status config status \<longleftrightarrow> status \<in> failure_codes config"

definition parse_failure_codes :: "string \<Rightarrow> u16 set" where
  "parse_failure_codes s = set (List.map_filter (\<lambda>c. parse_uint (2 ^ 16 - 1) (trim c)) (split_on CHR '','' s))"

definition lookup_or ::
    "(string \<Rightarrow> 't option) \<Rightarrow> (string \<Rightarrow> string option) \<Rightarrow> string \<Rightarrow> 't \<Rightarrow> 't" where
  "lookup_or parse get key dflt =
     (case get key of
        Some v \<Rightarrow> (case parse v of Some parsed \<Rightarrow> parsed | None \<Rightarrow> dflt)
      | None \<Rightarrow> dflt)"

text \<open>
  The \<open>f64\<close> literal syntax is not modelled; \<open>parse_f64\<close> stands for
  \<open>f64::from_str\<close> in the one knob that uses it.
\<close>

definition from_lookup_with_prefix ::
    "(string \<Rightarrow> f64_value option) \<Rightarrow> string \<Rightarrow> (string \<Rightarrow> string option) \<Rightarrow> BreakerConfig" where
  "from_lookup_with_prefix parse_f64 pfx get =
     (let key = (\<lambda>k. pfx @ k);
          codes = (case get (key ''FAILURE_CODES'') of
              Some raw \<Rightarrow>
                (let codes = parse_failure_codes raw
                 in if codes = {} then default_failure_codes else codes)
            | None \<Rightarrow> default_failure_codes)
      in \<lparr>window_duration = from_secs (lookup_or (parse_uint U64_MAX) get (key ''WINDOW_SECS'') 60),
          min_samples = lookup_or (parse_uint U64_MAX) get (key ''MIN_SAMPLES'') 10,
          error_rate_threshold = lookup_or parse_f64 get (key ''ERROR_RATE_THRESHOLD'') (Finite (1 / 2)),
          open_duration = from_secs (lookup_or (parse_uint U64_MAX) get (key ''OPEN_DURATION_SECS'') 10),
          half_open_max_probes =
            max (lookup_or (parse_uint U64_MAX) get (key ''HALF_OPEN_MAX_PROBES'') 1) 1,
          failure_codes = codes,
          enabled = lookup_or parse_bool get (key ''ENABLED'') True\<rparr>)"

section \<open>The breaker\<close>

record CircuitBreaker =
  config :: BreakerConfig
  state_u8 :: u8
  baseline :: instant
  opened_at_millis :: u64
  half_open_probes :: usize
  probe_claimed_at_millis :: u64
  is_open_fast :: bool
  window :: SlidingWindow
  log :: "observer_event list"

definition with_clock :: "BreakerConfig \<Rightarrow> instant \<Rightarrow> CircuitBreaker" where
  "with_clock cfg now =
     \<lparr>config = cfg\<lparr>half_open_max_probes := max (half_open_max_probes cfg) 1\<rparr>,
      state_u8 = as_u8 Closed, baseline = now, opened_at_millis = 0, half_open_probes = 0,
      probe_claimed_at_millis = 0, is_open_fast = False, window = new_window, log = []\<rparr>"

definition state :: "CircuitBreaker \<Rightarrow> BreakerState" where
  "state b = from_u8 (state_u8 b)"

definition is_open :: "CircuitBreaker \<Rightarrow> bool" where
  "is_open b = is_open_fast b"

definition emit :: "observer_event \<Rightarrow> CircuitBreaker \<Rightarrow> CircuitBreaker" where
  "emit e b = b\<lparr>log := log b @ [e]\<rparr>"

definition elapsed_millis :: "CircuitBreaker \<Rightarrow> instant \<Rightarrow> u64" where
  "elapsed_millis b now = as_millis (now - baseline b) mod 2 ^ 64"

definition trip :: "BreakerState \<Rightarrow> string \<Rightarrow> instant \<Rightarrow> CircuitBreaker \<Rightarrow> CircuitBreaker" where
  "trip prev reason now b =
     (let b = b\<lparr>state_u8 := as_u8 Open, opened_at_millis := elapsed_millis b now,
                half_open_probes := 0, is_open_fast := True\<rparr>
      in if prev \<noteq> Open then emit (on_state_change prev Open reason) b else b)"

definition close :: "BreakerState \<Rightarrow> string \<Rightarrow> CircuitBreaker \<Rightarrow> CircuitBreaker" where
  "close prev reason b =
     (let b = b\<lparr>state_u8 := as_u8 Closed, window := clear (window b),
                half_open_probes := 0, is_open_fast := False\<rparr>
      in if prev \<noteq> Closed then emit (on_state_change prev Closed reason) b else b)"

definition cas_state :: "BreakerState \<Rightarrow> BreakerState \<Rightarrow> CircuitBreaker \<Rightarrow> bool \<times> CircuitBreaker" where
  "cas_state from_s to_s b =
     (if state_u8 b = as_u8 from_s then (True, b\<lparr>state_u8 := as_u8 to_s\<rparr>) else (False, b))"

definition HALF_OPEN_PROBE_BACKOFF :: duration where
  "HALF_OPEN_PROBE_BACKOFF = from_millis 50"

definition try_half_open_probe ::
    "instant \<Rightarrow> CircuitBreaker \<Rightarrow> (BreakerOpen + unit) \<times> CircuitBreaker" where
  "try_half_open_probe t b =
     (let now = elapsed_millis b t;
          prev = half_open_probes b;
          b = b\<lparr>half_open_probes := prev + 1\<rparr>
      in if prev < half_open_max_probes (config b)
         then (Inr (), emit (on_probe_admission True) (b\<lparr>probe_claimed_at_millis := now\<rparr>))
         else
           let b = b\<lparr>half_open_probes := half_open_probes b - 1\<rparr>;
               lease_millis = as_millis (open_duration (config b)) mod 2 ^ 64;
               claimed = probe_claimed_at_millis b
           in if lease_millis \<le> now - claimed
              then (Inr (), emit (on_probe_admission True) (b\<lparr>probe_claimed_at_millis := now\<rparr>))
              else (Inl (BreakerOpen (min HALF_OPEN_PROBE_BACKOFF (open_duration (config b)))),
                    emit (on_probe_admission False) b))"

definition check_open ::
    "instant \<Rightarrow> instant \<Rightarrow> CircuitBreaker \<Rightarrow> (BreakerOpen + unit) \<times> CircuitBreaker" where
  "check_open t1 t2 b =
     (let elapsed = from_millis (elapsed_millis b t1 - opened_at_millis b)
      in if open_duration (config b) \<le> elapsed
         then case cas_state Open HalfOpen b of
             (True, b) \<Rightarrow>
               try_half_open_probe t2
                 (emit (on_state_change Open HalfOpen ''open_elapsed'') (b\<lparr>is_open_fast := False\<rparr>))
           | (False, b) \<Rightarrow>
               (case state b of
                  Closed \<Rightarrow> (Inr (), b)
                | HalfOpen \<Rightarrow> try_half_open_probe t2 b
                | Open \<Rightarrow>
                    let elapsed = from_millis (elapsed_millis b t2 - opened_at_millis b)
                    in (Inl (BreakerOpen (open_duration (config b) - elapsed)), b))
         else (Inl (BreakerOpen (open_duration (config b) - elapsed)), b))"

definition check ::
    "instant \<Rightarrow> instant \<Rightarrow> CircuitBreaker \<Rightarrow> (BreakerOpen + unit) \<times> CircuitBreaker" where
  "check t1 t2 b =
     (if \<not> enabled (config b) then (Inr (), b)
      else case state b of
          Closed \<Rightarrow> (Inr (), b)
        | Open \<Rightarrow> check_open t1 t2 b
        | HalfOpen \<Rightarrow> try_half_open_probe t1 b)"

definition observe_window :: "bool \<Rightarrow> instant \<Rightarrow> CircuitBreaker \<Rightarrow> CircuitBreaker" where
  "observe_window is_failure now b =
     b\<lparr>window := evict (window_duration (config b)) now (push is_failure now (window b))\<rparr>"

definition record_outcome :: "Outcome \<Rightarrow> instant \<Rightarrow> instant \<Rightarrow> CircuitBreaker \<Rightarrow> CircuitBreaker" where
  "record_outcome outcome now t2 b =
     (if \<not> enabled (config b) then b
      else
        let is_failure = (outcome = Failure);
            prev_state = state b;
            b = (case prev_state of
                Closed \<Rightarrow>
                  (let b = observe_window is_failure now b;
                       should_trip = (min_samples (config b) \<le> sample_count (window b)
                                      \<and> f64_le (error_rate_threshold (config b)) (error_rate (window b)))
                   in if should_trip then trip prev_state ''trip'' t2 b else b)
              | HalfOpen \<Rightarrow>
                  (if is_failure then trip prev_state ''probe_failure'' t2 b
                   else close prev_state ''probe_success'' b)
              | Open \<Rightarrow> observe_window is_failure now b)
        in emit (on_outcome outcome (state b)) b)"

definition breaker_error_rate :: "instant \<Rightarrow> CircuitBreaker \<Rightarrow> f64 \<times> CircuitBreaker" where
  "breaker_error_rate now b =
     (let w = evict (window_duration (config b)) now (window b)
      in (error_rate w, b\<lparr>window := w\<rparr>))"

definition force_half_open :: "CircuitBreaker \<Rightarrow> CircuitBreaker" where
  "force_half_open b =
     (let prev = state b;
          b = b\<lparr>state_u8 := as_u8 HalfOpen, is_open_fast := False, half_open_probes := 0\<rparr>
      in if prev \<noteq> HalfOpen then emit (on_state_change prev HalfOpen ''force_half_open'') b else b)"

section \<open>The registry\<close>

text \<open>
  The registry hands out shared handles (\<open>Arc\<close>): a handle is an index into the store of
  the breakers created so far, so that an operation through one handle is seen by every
  holder of the same key.
\<close>

type_synonym breaker_ref = nat

record CircuitBreakerRegistry =
  reg_config :: BreakerConfig
  breakers :: "string \<rightharpoonup> breaker_ref"
  store :: "CircuitBreaker list"

definition new_registry :: "BreakerConfig \<Rightarrow> CircuitBreakerRegistry" where
  "new_registry cfg = \<lparr>reg_config = cfg, breakers = Map.empty, store = []\<rparr>"

definition registry_get ::
    "string \<Rightarrow> instant \<Rightarrow> CircuitBreakerRegistry \<Rightarrow> breaker_ref option \<times> CircuitBreakerRegistry" where
  "registry_get key now r =
     (if \<not> enabled (reg_config r) then (None, r)
      else case breakers r key of
          Some cb \<Rightarrow> (Some cb, r)
        | None \<Rightarrow>
            let cb = length (store r)
            in (Some cb, r\<lparr>breakers := (breakers r)(key \<mapsto> cb),
                           store := store r @ [with_clock (reg_config r) now]\<rparr>))"

section \<open>The invariant\<close>

definition breaker_ok :: "CircuitBreaker \<Rightarrow> bool" where
  "breaker_ok b \<longleftrightarrow>
     state_u8 b \<le> 2 \<and> window_ok (window b)
     \<and> (is_open_fast b \<longleftrightarrow> state b = Open)
     \<and> 1 \<le> half_open_max_probes (config b)
     \<and> half_open_probes b \<le> half_open_max_probes (config b)
     \<and> (state b \<noteq> HalfOpen \<longrightarrow> half_open_probes b = 0)"

lemma from_as_u8 [simp]: "from_u8 (as_u8 s) = s"
  by (cases s) (auto simp: from_u8_def as_u8_def)

lemma as_u8_simps [simp]: "as_u8 Closed = 0" "as_u8 Open = 1" "as_u8 HalfOpen = 2"
  by (simp_all add: as_u8_def)

lemma from_u8_simps [simp]: "from_u8 0 = Closed" "from_u8 (Suc 0) = Open" "from_u8 1 = Open" "from_u8 2 = HalfOpen"
  by (simp_all add: from_u8_def)

lemma from_u8_Open [simp]: "from_u8 v = Open \<longleftrightarrow> v = 1"
  by (simp add: from_u8_def)

lemma from_u8_HalfOpen [simp]: "from_u8 v = HalfOpen \<longleftrightarrow> v = 2" "HalfOpen = from_u8 v \<longleftrightarrow> v = 2"
  by (auto simp: from_u8_def)

lemma emit_sel [simp]:
  "config (emit e b) = config b" "state_u8 (emit e b) = state_u8 b" "baseline (emit e b) = baseline b"
  "opened_at_millis (emit e b) = opened_at_millis b" "half_open_probes (emit e b) = half_open_probes b"
  "probe_claimed_at_millis (emit e b) = probe_claimed_at_millis b"
  "is_open_fast (emit e b) = is_open_fast b" "window (emit e b) = window b" "log (emit e b) = log b @ [e]"
  "elapsed_millis (emit e b) = elapsed_millis b" "state (emit e b) = state b"
  by (simp_all add: emit_def elapsed_millis_def fun_eq_iff state_def)

lemmas breaker_defs = trip_def close_def cas_state_def Let_def
  check_open_def check_def observe_window_def record_outcome_def breaker_error_rate_def
  force_half_open_def

lemma breaker_ok_emit [simp]: "breaker_ok (emit e b) = breaker_ok b"
  by (simp add: breaker_ok_def)

lemma breaker_ok_trip [inv_intros]: "breaker_ok b \<Longrightarrow> breaker_ok (trip p r t b)"
  by (auto simp: breaker_ok_def trip_def Let_def state_def)

lemma breaker_ok_close [inv_intros]: "breaker_ok b \<Longrightarrow> breaker_ok (close p r b)"
  by (auto simp: breaker_ok_def close_def Let_def state_def)

lemma breaker_ok_observe [inv_intros]: "breaker_ok b \<Longrightarrow> breaker_ok (observe_window f t b)"
  by (auto simp: breaker_ok_def observe_window_def state_def)

lemma breaker_ok_probe [inv_intros]:
  "breaker_ok b \<Longrightarrow> state b = HalfOpen \<Longrightarrow> breaker_ok (snd (try_half_open_probe t b))"
  by (auto simp: breaker_ok_def try_half_open_probe_def Let_def state_def)

lemma breaker_ok_check_open [inv_intros]:
  assumes "breaker_ok b" "state b = Open"
  shows "breaker_ok (snd (check_open t1 t2 b))"
proof -
  have "breaker_ok (b\<lparr>state_u8 := 2, is_open_fast := False\<rparr>)" and u: "state_u8 b = 1"
    using assms by (auto simp: breaker_ok_def state_def)
  then show ?thesis
    using assms(1) by (auto simp: check_open_def cas_state_def Let_def state_def intro!: inv_intros)
qed

lemma breaker_ok_check [inv_intros]: "breaker_ok b \<Longrightarrow> breaker_ok (snd (check t1 t2 b))"
  by (auto simp: check_def split: BreakerState.splits intro: inv_intros)

lemma breaker_ok_record [inv_intros]: "breaker_ok b \<Longrightarrow> breaker_ok (record_outcome out t1 t2 b)"
  by (auto simp: record_outcome_def Let_def split: BreakerState.splits intro!: inv_intros)

lemma breaker_ok_error_rate [inv_intros]: "breaker_ok b \<Longrightarrow> breaker_ok (snd (breaker_error_rate t b))"
  by (auto simp: breaker_ok_def breaker_error_rate_def Let_def state_def)

lemma breaker_ok_force [inv_intros]: "breaker_ok b \<Longrightarrow> breaker_ok (force_half_open b)"
  by (auto simp: breaker_ok_def force_half_open_def Let_def state_def)

lemma breaker_ok_new [inv_intros]: "breaker_ok (with_clock cfg t)"
  by (auto simp: breaker_ok_def with_clock_def state_def)

datatype breaker_op =
  Check instant instant
| Record Outcome instant instant
| ErrorRate instant
| ForceHalfOpen

fun breaker_step :: "breaker_op \<Rightarrow> CircuitBreaker \<Rightarrow> CircuitBreaker" where
  "breaker_step (Check t1 t2) b = snd (check t1 t2 b)"
| "breaker_step (Record out t1 t2) b = record_outcome out t1 t2 b"
| "breaker_step (ErrorRate t) b = snd (breaker_error_rate t b)"
| "breaker_step ForceHalfOpen b = force_half_open b"

lemma breaker_step_ok: "breaker_ok b \<Longrightarrow> breaker_ok (breaker_step e b)"
  by (cases e) (auto intro: inv_intros)

interpretation br: op_system breaker_step breaker_ok
  by unfold_locales (rule breaker_step_ok)

section \<open>Runs of recorded outcomes\<close>

text \<open>
  \<open>record_all\<close> feeds a history of timed outcomes to the breaker; the second clock reading
  of each call, taken only when it trips, is a function of its position's time.
\<close>

fun record_all :: "(instant \<Rightarrow> instant) \<Rightarrow> (instant \<times> Outcome) list \<Rightarrow> CircuitBreaker \<Rightarrow> CircuitBreaker" where
  "record_all t2 [] b = b"
| "record_all t2 ((t, out) # hist) b = record_all t2 hist (record_outcome out t (t2 t) b)"

definition sample :: "instant \<times> Outcome \<Rightarrow> instant \<times> bool" where
  "sample e = (fst e, snd e = Failure)"

definition live_samples :: "duration \<Rightarrow> (instant \<times> Outcome) list \<Rightarrow> (instant \<times> bool) list" where
  "live_samples d hist =
     filter (\<lambda>e. fst (last hist) \<le> fst e + d) (last_n MAX_WINDOW_ENTRIES (map sample hist))"

lemma record_config [simp]: "config (record_outcome out t t2 b) = config b"
  by (simp add: record_outcome_def trip_def close_def observe_window_def Let_def split: BreakerState.splits)

lemma record_all_append: "record_all t2 (xs @ ys) b = record_all t2 ys (record_all t2 xs b)"
  by (induction xs arbitrary: b) auto

lemma record_all_config [simp]: "config (record_all t2 hist b) = config b"
  by (induction hist arbitrary: b) auto

lemma record_all_ok: "breaker_ok b \<Longrightarrow> breaker_ok (record_all t2 hist b)"
  by (induction t2 hist b rule: record_all.induct) (simp_all add: breaker_ok_record)

lemma trip_state [simp]: "state (trip p r t b) = Open"
  by (simp add: trip_def Let_def state_def)

lemma close_state [simp]: "state (close p r b) = Closed"
  by (simp add: close_def Let_def state_def)

lemma observe_state [simp]: "state (observe_window f t b) = state b"
  by (simp add: observe_window_def state_def)

lemma record_stays_open: "state b = Open \<Longrightarrow> state (record_outcome out t t2 b) = Open"
  by (simp add: record_outcome_def Let_def)

lemma record_from_not_half_open:
  "state b \<noteq> HalfOpen \<Longrightarrow> state (record_outcome out t t2 b) = Closed \<Longrightarrow> state b = Closed"
  by (cases "state b") (simp_all add: record_stays_open)

lemma record_not_half_open:
  "state b \<noteq> HalfOpen \<Longrightarrow> state (record_outcome out t t2 b) \<noteq> HalfOpen"
  by (auto simp: record_outcome_def Let_def split: BreakerState.splits)

lemma record_all_not_half_open:
  "state b \<noteq> HalfOpen \<Longrightarrow> state (record_all t2 hist b) \<noteq> HalfOpen"
  by (induction t2 hist b rule: record_all.induct) (simp_all add: record_not_half_open)

lemma record_window_closed:
  assumes "enabled (config b)" "state b = Closed"
  shows "window (record_outcome out t t2 b) =
           sw.observe (window_duration (config b)) (t, out = Failure) (window b)"
  using assms
  by (simp add: record_outcome_def Let_def observe_window_def trip_def sw.observe_def)

lemma record_all_window:
  assumes "enabled (config b)" "state b \<noteq> HalfOpen" "state (record_all t2 hist b) = Closed"
  shows "window (record_all t2 hist b) =
           fold (sw.observe (window_duration (config b))) (map sample hist) (window b)"
  using assms
proof (induction hist rule: rev_induct)
  case (snoc x hist)
  obtain t out where x: "x = (t, out)" by (cases x)
  have "state (record_all t2 hist b) = Closed"
    using snoc.prems record_all_not_half_open [of b t2 hist]
      record_from_not_half_open [of "record_all t2 hist b" out t "t2 t"]
    by (simp add: record_all_append x)
  with snoc show ?case
    by (simp add: record_all_append x record_window_closed sample_def)
qed simp

lemma record_decides:
  assumes "enabled (config b)" "state b = Closed"
  shows "state (record_outcome out t t2 b) = Open \<longleftrightarrow>
           min_samples (config b) \<le> sample_count (window (record_outcome out t t2 b))
           \<and> f64_le (error_rate_threshold (config b)) (error_rate (window (record_outcome out t t2 b)))"
  using assms by (auto simp: record_outcome_def Let_def observe_window_def trip_def state_def)

lemma run_entries:
  assumes "sorted (map fst hist)" "hist \<noteq> []"
  shows "entries (fold (sw.observe d) (map sample hist) new_window) = live_samples d hist"
proof -
  have s: "sorted (map fst (map sample hist))" using assms(1) by (simp add: sample_def comp_def)
  have "entries (fold (sw.observe d) (map sample hist) new_window) =
      dropWhile (\<lambda>e. fst e + d < fst (last (map sample hist))) (last_n MAX_WINDOW_ENTRIES (map sample hist))"
    using assms(2) s by (intro sw.run_dropWhile window_ok_new) (simp_all add: new_window_def)
  also have "\<dots> = live_samples d hist"
    using assms(2) sorted_wrt_drop [OF s] unfolding live_samples_def
    by (subst dropWhile_filter_sorted) (simp_all add: last_n_def drop_map last_map, simp add: sample_def)
  finally show ?thesis .
qed

text \<open>
  C5: trip decision. A fresh breaker with either preset that has stayed closed over a
  history of outcomes recorded in time order opens on the last outcome exactly when, among
  the samples of the window (the last 10000, none older than the window duration), there are
  at least \<open>min_samples\<close> and at least half are failures. The \<open>f64\<close> rate the code
  compares gives the exact answer.
\<close>

theorem trips_at_half_failures:
  assumes "cfg \<in> {server_config, client_config}"
    and "sorted (map fst (hist @ [(t, out)]))"
    and "state (record_all t2 hist (with_clock cfg base)) = Closed"
  shows "state (record_all t2 (hist @ [(t, out)]) (with_clock cfg base)) = Open \<longleftrightarrow>
           (let live = live_samples (window_duration cfg) (hist @ [(t, out)])
            in min_samples cfg \<le> length live \<and> length live \<le> 2 * count_failures live)"
proof -
  let ?h = "hist @ [(t, out)]" and ?fresh = "with_clock cfg base"
  let ?b = "record_all t2 hist ?fresh"
  let ?w = "window (record_outcome out t (t2 t) ?b)"
  have b0: "enabled (config ?fresh)" "state ?fresh = Closed" "window ?fresh = new_window"
    "min_samples (config ?fresh) = min_samples cfg" "window_duration (config ?fresh) = window_duration cfg"
    "error_rate_threshold (config ?fresh) = Finite (1 / 2)" "0 < min_samples cfg"
    using assms(1) by (auto simp: with_clock_def server_config_def client_config_def state_def)
  have w: "?w = fold (sw.observe (window_duration cfg)) (map sample ?h) new_window"
    using record_all_window [of ?fresh t2 hist] assms(3) b0
    by (simp add: record_window_closed sample_def)
  have e: "entries ?w = live_samples (window_duration cfg) ?h"
    unfolding w by (rule run_entries) (use assms(2) in auto)
  have ok: "window_ok ?w" unfolding w by (rule sw.ok_run) simp
  have "state (record_all t2 ?h ?fresh) = Open \<longleftrightarrow>
      min_samples cfg \<le> length (entries ?w) \<and> 1 / 2 \<le> error_rate ?w"
    using record_decides [of ?b out t "t2 t"] assms(3) b0
    by (simp add: record_all_append sample_count_def)
  also have "\<dots> \<longleftrightarrow> min_samples cfg \<le> length (entries ?w) \<and>
      length (entries ?w) \<le> 2 * count_failures (entries ?w)"
    using error_rate_half [OF ok] b0(7) by (cases "entries ?w = []") auto
  finally show ?thesis unfolding e by (simp add: Let_def)
qed

lemmas eval_breaker = record_outcome_def observe_window_def trip_def emit_def push_def
  push_back_def evict_def new_window_def with_clock_def client_config_def state_def
  sample_count_def error_rate_def f64_div_half_eval MAX_WINDOW_ENTRIES_def Let_def check_def
  check_open_def cas_state_def try_half_open_probe_def elapsed_millis_def
  HALF_OPEN_PROBE_BACKOFF_def

theorem trips_at_half_failures_witness:
  "let hist = [(1, Success), (2, Failure), (3, Success), (4, Failure)] in
     state (record_all id hist (with_clock client_config 0)) = Closed
     \<and> state (record_all id (hist @ [(5, Failure)]) (with_clock client_config 0)) = Open"
proof -
  let ?hist = "[(1, Success), (2, Failure), (3, Success), (4, Failure)]"
  have c: "state (record_all id ?hist (with_clock client_config 0)) = Closed"
    by (simp add: eval_breaker)
  have "state (record_all id (?hist @ [(5, Failure)]) (with_clock client_config 0)) = Open \<longleftrightarrow>
          (let live = live_samples (window_duration client_config) (?hist @ [(5, Failure)])
           in min_samples client_config \<le> length live \<and> length live \<le> 2 * count_failures live)"
    using c by (intro trips_at_half_failures) simp_all
  moreover have "let live = live_samples (window_duration client_config) (?hist @ [(5, Failure)])
           in min_samples client_config \<le> length live \<and> length live \<le> 2 * count_failures live"
    by (simp add: live_samples_def sample_def last_n_def client_config_def MAX_WINDOW_ENTRIES_def)
  ultimately show ?thesis using c by (simp add: Let_def)
qed

text \<open>A client breaker tripped by five failures at time zero.\<close>

definition tripped :: CircuitBreaker where
  "tripped = record_all id [(0, Failure), (0, Failure), (0, Failure), (0, Failure), (0, Failure)]
     (with_clock client_config 0)"

lemma tripped_eval:
  "tripped =
     \<lparr>config = client_config, state_u8 = 1, baseline = 0, opened_at_millis = 0, half_open_probes = 0,
      probe_claimed_at_millis = 0, is_open_fast = True,
      window = \<lparr>entries = [(0, True), (0, True), (0, True), (0, True), (0, True)], failures = 5\<rparr>,
      log = [on_outcome Failure Closed, on_outcome Failure Closed, on_outcome Failure Closed,
             on_outcome Failure Closed, on_state_change Closed Open ''trip'', on_outcome Failure Open]\<rparr>"
  by (simp add: tripped_def eval_breaker)

lemma tripped_ok: "breaker_ok tripped"
  unfolding tripped_def by (intro record_all_ok breaker_ok_new)

section \<open>Safety and recovery\<close>

text \<open>
  C16: invariant of the breaker. After any sequence of checks, recorded outcomes, rate reads
  and forced transitions, whatever the clock readings: the lock-free mirror agrees with the
  authoritative state, the probe slots in use never exceed the configured maximum (which is
  at least one) and are zero outside the half-open state, the incremental failure counter is
  the number of failed samples in the window, and the window holds at most 10000 samples.
\<close>

theorem breaker_run_invariant:
  "let b = fold breaker_step es (with_clock cfg base)
   in (is_open b \<longleftrightarrow> state b = Open) \<and> 1 \<le> half_open_max_probes (config b)
      \<and> half_open_probes b \<le> half_open_max_probes (config b)
      \<and> (state b = HalfOpen \<or> half_open_probes b = 0)
      \<and> failures (window b) = count_failures (entries (window b))
      \<and> sample_count (window b) \<le> MAX_WINDOW_ENTRIES"
proof -
  have "breaker_ok (fold breaker_step es (with_clock cfg base))"
    by (rule br.run_inv) (rule breaker_ok_new)
  then show ?thesis
    by (auto simp: Let_def breaker_ok_def window_ok_def is_open_def sample_count_def)
qed

lemma probe_max [simp]: "config (snd (try_half_open_probe t b)) = config b"
  by (simp add: try_half_open_probe_def Let_def)

lemma first_probe_admitted:
  "half_open_probes b < half_open_max_probes (config b) \<Longrightarrow> fst (try_half_open_probe t b) = Inr ()"
  by (simp add: try_half_open_probe_def Let_def)

text \<open>The three outcomes of a probe attempt.\<close>

lemma probe_cases:
  "half_open_probes b < half_open_max_probes (config b) \<Longrightarrow>
     try_half_open_probe t b =
       (Inr (), emit (on_probe_admission True)
          (b\<lparr>half_open_probes := half_open_probes b + 1, probe_claimed_at_millis := elapsed_millis b t\<rparr>))"
  "half_open_max_probes (config b) \<le> half_open_probes b \<Longrightarrow>
     as_millis (open_duration (config b)) mod 2 ^ 64 \<le> elapsed_millis b t - probe_claimed_at_millis b \<Longrightarrow>
     try_half_open_probe t b =
       (Inr (), emit (on_probe_admission True) (b\<lparr>probe_claimed_at_millis := elapsed_millis b t\<rparr>))"
  "half_open_max_probes (config b) \<le> half_open_probes b \<Longrightarrow>
     elapsed_millis b t - probe_claimed_at_millis b < as_millis (open_duration (config b)) mod 2 ^ 64 \<Longrightarrow>
     try_half_open_probe t b =
       (Inl (BreakerOpen (min HALF_OPEN_PROBE_BACKOFF (open_duration (config b)))),
        emit (on_probe_admission False) b)"
  by (simp_all add: try_half_open_probe_def Let_def emit_def)

lemma first_probe_counts:
  "half_open_probes b < half_open_max_probes (config b) \<Longrightarrow>
     half_open_probes (snd (try_half_open_probe t b)) = half_open_probes b + 1"
  by (simp add: try_half_open_probe_def Let_def)

lemma probe_is_open_fast [simp]: "is_open_fast (snd (try_half_open_probe t b)) = is_open_fast b"
  by (simp add: try_half_open_probe_def Let_def)

lemma expired_probe_admitted:
  assumes "as_millis (open_duration (config b)) \<le> elapsed_millis b t - probe_claimed_at_millis b"
  shows "fst (try_half_open_probe t b) = Inr ()"
proof -
  have "as_millis (open_duration (config b)) mod 2 ^ 64 \<le> elapsed_millis b t - probe_claimed_at_millis b"
    by (rule le_trans [OF mod_less_eq_dividend assms])
  then show ?thesis by (simp add: try_half_open_probe_def Let_def)
qed

definition half_opened :: "CircuitBreaker \<Rightarrow> CircuitBreaker" where
  "half_opened b =
     emit (on_state_change Open HalfOpen ''open_elapsed'') (b\<lparr>state_u8 := 2, is_open_fast := False\<rparr>)"

lemma half_opened_sel [simp]:
  "config (half_opened b) = config b" "half_open_probes (half_opened b) = half_open_probes b"
  "is_open_fast (half_opened b) = False" "state (half_opened b) = HalfOpen"
  by (simp_all add: half_opened_def state_def)

lemma check_of_open:
  assumes "enabled (config b)" "state b = Open"
  shows "check t1 t2 b =
    (let elapsed = from_millis (elapsed_millis b t1 - opened_at_millis b)
     in if elapsed < open_duration (config b)
        then (Inl (BreakerOpen (open_duration (config b) - elapsed)), b)
        else try_half_open_probe t2 (half_opened b))"
  using assms by (simp add: check_def check_open_def cas_state_def state_def Let_def half_opened_def)

lemma check_of_half_open:
  "enabled (config b) \<Longrightarrow> state b = HalfOpen \<Longrightarrow> check t1 t2 b = try_half_open_probe t1 b"
  by (simp add: check_def)

lemma probe_state [simp]: "state (snd (try_half_open_probe t b)) = state b"
  by (simp add: try_half_open_probe_def Let_def state_def)

text \<open>
  C17: an open breaker. Before the cool-down has elapsed every check is rejected with the
  exact time that is left and nothing changes; once it has elapsed the check is admitted as
  the first probe and the breaker is half-open with one slot taken.
\<close>

theorem open_breaker_check:
  assumes "breaker_ok b" "enabled (config b)" "state b = Open"
  shows "let elapsed = from_millis (elapsed_millis b t1 - opened_at_millis b);
             (res, b') = check t1 t2 b
         in if elapsed < open_duration (config b)
            then res = Inl (BreakerOpen (open_duration (config b) - elapsed)) \<and> b' = b
            else res = Inr () \<and> state b' = HalfOpen \<and> \<not> is_open b' \<and> half_open_probes b' = 1"
proof -
  have free: "half_open_probes b = 0" "0 < half_open_max_probes (config b)"
    using assms(1,3) by (simp_all add: breaker_ok_def)
  let ?h = "half_opened b"
  have "fst (try_half_open_probe t2 ?h) = Inr ()" "half_open_probes (snd (try_half_open_probe t2 ?h)) = 1"
    using first_probe_admitted [of ?h t2] first_probe_counts [of ?h t2] free by simp_all
  then show ?thesis
    by (simp add: check_of_open [OF assms(2,3)] Let_def is_open_def split_beta)
qed

theorem open_breaker_check_witness:
  "state tripped = Open
   \<and> fst (check (from_secs 59) (from_secs 59) tripped) = Inl (BreakerOpen (from_secs 1))
   \<and> fst (check (from_secs 60) (from_secs 60) tripped) = Inr ()"
proof -
  have o: "state tripped = Open" "enabled (config tripped)"
    by (simp_all add: tripped_eval state_def client_config_def)
  show ?thesis
    using open_breaker_check [OF tripped_ok o(2,1), of "from_secs 59" "from_secs 59"]
      open_breaker_check [OF tripped_ok o(2,1), of "from_secs 60" "from_secs 60"] o
    by (simp add: Let_def tripped_eval elapsed_millis_def client_config_def split: prod.splits)
qed

text \<open>
  C11: recovery. No breaker stays closed to traffic: in every open or half-open state, also
  when all probe slots are held by callers that were cancelled and will never record an
  outcome, a check taken once the cool-down of the opening and of the last claim have both
  elapsed is admitted, and a successful outcome then closes the breaker with an empty window.
\<close>

theorem breaker_recovers:
  assumes "breaker_ok b" "enabled (config b)" "state b \<noteq> Closed"
    and "open_duration (config b) \<le> from_millis (elapsed_millis b t - opened_at_millis b)"
    and "as_millis (open_duration (config b)) \<le> elapsed_millis b t - probe_claimed_at_millis b"
  shows "let (res, b1) = check t t b; b2 = record_outcome Success t' t'' b1
         in res = Inr () \<and> state b2 = Closed \<and> \<not> is_open b2 \<and> entries (window b2) = []"
proof -
  have r: "fst (check t t b) = Inr () \<and> state (snd (check t t b)) = HalfOpen
      \<and> config (snd (check t t b)) = config b"
  proof (cases "state b")
    case Open
    then have free: "half_open_probes b < half_open_max_probes (config b)"
      using assms(1) by (simp add: breaker_ok_def)
    then have "fst (try_half_open_probe t (half_opened b)) = Inr ()"
      by (intro first_probe_admitted) simp
    then show ?thesis using assms(4) by (simp add: check_of_open [OF assms(2) Open] Let_def not_less)
  next
    case HalfOpen
    then show ?thesis
      using expired_probe_admitted [OF assms(5)] by (simp add: check_of_half_open [OF assms(2)])
  qed (use assms(3) in simp)
  then show ?thesis
    using assms(2)
    by (simp add: split_beta record_outcome_def Let_def close_def clear_def is_open_def state_def)
qed

theorem breaker_recovers_witness:
  "let lost = snd (check (from_secs 60) (from_secs 60) tripped);
       (res, b1) = check (from_secs 120) (from_secs 120) lost
   in fst (check (from_secs 61) (from_secs 61) lost) = Inl (BreakerOpen (from_millis 50))
      \<and> res = Inr () \<and> state (record_outcome Success 0 0 b1) = Closed"
proof -
  let ?lost = "snd (check (from_secs 60) (from_secs 60) tripped)"
  have ok: "breaker_ok ?lost" by (intro breaker_ok_check tripped_ok)
  have v: "enabled (config ?lost)" "state ?lost \<noteq> Closed" "open_duration (config ?lost) = from_secs 60"
    "opened_at_millis ?lost = 0" "probe_claimed_at_millis ?lost = 60000"
    "elapsed_millis ?lost (from_secs 120) = 120000"
    "fst (check (from_secs 61) (from_secs 61) ?lost) = Inl (BreakerOpen (from_millis 50))"
    by (simp_all add: tripped_eval eval_breaker)
  show ?thesis
    using breaker_recovers [OF ok v(1,2), of "from_secs 120" 0 0] v(3-7)
    by (simp add: Let_def split: prod.splits)
qed

section \<open>What the observer sees\<close>

text \<open>
  \<open>replay\<close> follows the state changes reported to the observer and fails on one whose
  source is not the state reached so far, or on an outcome reported with another state.
\<close>

fun replay :: "BreakerState \<Rightarrow> observer_event list \<Rightarrow> BreakerState option" where
  "replay s [] = Some s"
| "replay s (on_state_change from_s to_s reason # es) =
     (if from_s = s \<and> to_s \<noteq> s then replay to_s es else None)"
| "replay s (on_outcome out st # es) = (if st = s then replay s es else None)"
| "replay s (on_probe_admission ok # es) = (if s = HalfOpen then replay s es else None)"

definition seen :: "CircuitBreaker \<Rightarrow> bool" where
  "seen b \<longleftrightarrow> state_u8 b \<le> 2 \<and> replay Closed (log b) = Some (state b)"

lemma replay_append:
  "replay s (es @ fs) = (case replay s es of Some s' \<Rightarrow> replay s' fs | None \<Rightarrow> None)"
  by (induction s es rule: replay.induct) auto

lemma seen_trip: "seen b \<Longrightarrow> state b = p \<Longrightarrow> seen (trip p r t b)"
  by (auto simp: seen_def trip_def Let_def replay_append state_def)

lemma seen_close: "seen b \<Longrightarrow> state b = p \<Longrightarrow> seen (close p r b)"
  by (auto simp: seen_def close_def Let_def replay_append state_def)

lemma seen_observe: "seen b \<Longrightarrow> seen (observe_window f t b)"
  by (simp add: seen_def observe_window_def state_def)

lemma seen_outcome: "seen b \<Longrightarrow> seen (emit (on_outcome out (state b)) b)"
  by (simp add: seen_def replay_append)

lemma seen_probe: "seen b \<Longrightarrow> state b = HalfOpen \<Longrightarrow> seen (snd (try_half_open_probe t b))"
  by (auto simp: seen_def try_half_open_probe_def Let_def replay_append state_def)

lemma seen_half_opened: "seen b \<Longrightarrow> state b = Open \<Longrightarrow> seen (half_opened b)"
  by (auto simp: seen_def half_opened_def replay_append state_def)

lemma seen_check: "seen b \<Longrightarrow> seen (snd (check t1 t2 b))"
proof (cases "enabled (config b)")
  case True
  assume s: "seen b"
  show ?thesis
  proof (cases "state b")
    case Open
    have "seen (snd (try_half_open_probe t2 (half_opened b)))"
      using s Open by (intro seen_probe seen_half_opened) simp_all
    then show ?thesis using s by (simp add: check_of_open [OF True Open] Let_def)
  qed (use s True seen_probe in \<open>simp_all add: check_def\<close>)
qed (simp add: check_def)

lemma seen_record: "seen b \<Longrightarrow> seen (record_outcome out t1 t2 b)"
  using seen_trip seen_close seen_observe seen_outcome
  by (simp add: record_outcome_def Let_def split: BreakerState.splits)

lemma seen_step: "seen b \<Longrightarrow> seen (breaker_step e b)"
proof (cases e)
  case (ErrorRate t)
  assume "seen b"
  with ErrorRate show ?thesis by (simp add: seen_def breaker_error_rate_def Let_def state_def)
next
  case ForceHalfOpen
  assume "seen b"
  with ForceHalfOpen show ?thesis
    by (auto simp: seen_def force_half_open_def Let_def replay_append state_def)
qed (simp_all add: seen_check seen_record)

interpretation obs: op_system breaker_step seen
  by unfold_locales (rule seen_step)

text \<open>
  C31: telemetry. Over any sequence of operations on a breaker, the state changes reported to
  the observer form an unbroken path from \<open>Closed\<close> to the current state: none is
  missed, duplicated or reported with the wrong source; every outcome is reported with the
  state it left the breaker in, and probe admissions are reported only while half-open.
\<close>

theorem observer_sees_every_transition:
  "let b = fold breaker_step es (with_clock cfg base) in replay Closed (log b) = Some (state b)"
proof -
  have "seen (with_clock cfg base)" by (simp add: seen_def with_clock_def state_def)
  then have "seen (fold breaker_step es (with_clock cfg base))" by (rule obs.run_inv)
  then show ?thesis by (simp add: seen_def Let_def)
qed

section \<open>Disabled breakers, configuration, registry\<close>

lemma disabled_check: "\<not> enabled (config b) \<Longrightarrow> check t1 t2 b = (Inr (), b)"
  by (simp add: check_def)

lemma disabled_record: "\<not> enabled (config b) \<Longrightarrow> record_outcome out t1 t2 b = b"
  by (simp add: record_outcome_def)

lemma from_lookup_empty: "from_lookup_with_prefix pf pfx (\<lambda>_. None) = server_config"
  by (simp add: from_lookup_with_prefix_def lookup_or_def server_config_def)

text \<open>
  C39: environment configuration. Whatever the environment holds, a loaded configuration has
  at least one probe slot and a non-empty set of failure codes, each a 16-bit status; with
  no variable set it is the server preset.
\<close>

theorem env_config_sane:
  "let c = from_lookup_with_prefix pf pfx get
   in 1 \<le> half_open_max_probes c \<and> failure_codes c \<noteq> {} \<and> failure_codes c \<subseteq> {..< 2 ^ 16}
      \<and> from_lookup_with_prefix pf pfx (\<lambda>_. None) = server_config"
proof -
  have "parse_failure_codes s \<subseteq> {..< 2 ^ 16}" for s
    using parse_uint_le by (fastforce simp: parse_failure_codes_def List.map_filter_def)
  moreover have "default_failure_codes \<subseteq> {..< 2 ^ 16}" "default_failure_codes \<noteq> {}"
    by (simp_all add: default_failure_codes_def DEFAULT_FAILURE_CODES_def)
  ultimately show ?thesis
    by (simp add: from_lookup_empty from_lookup_with_prefix_def Let_def split: option.splits)
qed

definition registry_ok :: "CircuitBreakerRegistry \<Rightarrow> bool" where
  "registry_ok r \<longleftrightarrow> ran (breakers r) \<subseteq> {..< length (store r)} \<and> inj_on (breakers r) (dom (breakers r))"

lemma registry_ok_get:
  assumes "registry_ok r" shows "registry_ok (snd (registry_get key now r))"
proof -
  have fresh: "Some (length (store r)) \<notin> breakers r ` A" for A
    using assms by (auto simp: registry_ok_def ran_def subset_iff dest: sym)
  show ?thesis
    using assms fresh
    by (auto simp: registry_ok_def registry_get_def Let_def ran_def inj_on_def subset_iff
        less_Suc_eq image_iff split: option.splits)
qed

definition registry_step :: "string \<times> instant \<Rightarrow> CircuitBreakerRegistry \<Rightarrow> CircuitBreakerRegistry" where
  "registry_step e r = snd (registry_get (fst e) (snd e) r)"

interpretation reg: op_system registry_step registry_ok
  by unfold_locales (simp add: registry_step_def registry_ok_get)

lemma registry_get_stable:
  "breakers r key = Some i \<Longrightarrow> breakers (registry_step e r) key = Some i"
  by (auto simp: registry_step_def registry_get_def Let_def split: option.splits)

lemma registry_run_stable:
  "breakers r key = Some i \<Longrightarrow> breakers (fold registry_step es r) key = Some i"
  by (induction es arbitrary: r) (simp_all add: registry_get_stable)

lemma registry_run_config: "reg_config (fold registry_step es r) = reg_config r"
  by (induction es arbitrary: r)
    (auto simp: registry_step_def registry_get_def Let_def split: option.splits)

text \<open>
  C32: one breaker per key. In an enabled registry, two look-ups, however many other look-ups
  happen in between and around, yield the same breaker exactly when they use the same key.
\<close>

theorem registry_one_breaker_per_key:
  assumes "enabled cfg"
  shows "let r1 = fold registry_step es (new_registry cfg);
             (h1, r2) = registry_get k1 t1 r1;
             (h2, r3) = registry_get k2 t2 (fold registry_step es' r2)
         in h1 = h2 \<longleftrightarrow> k1 = k2"
proof -
  define r1 where "r1 = fold registry_step es (new_registry cfg)"
  define r2 where "r2 = snd (registry_get k1 t1 r1)"
  define r2' where "r2' = fold registry_step es' r2"
  define r3 where "r3 = snd (registry_get k2 t2 r2')"
  have en: "enabled (reg_config r1)" "enabled (reg_config r2')"
    using assms registry_run_config
    by (auto simp: r1_def r2_def r2'_def registry_get_def new_registry_def Let_def split: option.splits)
  have hit: "enabled (reg_config r) \<Longrightarrow> fst (registry_get k t r) = breakers (snd (registry_get k t r)) k
      \<and> breakers (snd (registry_get k t r)) k \<noteq> None" for k t r
    by (auto simp: registry_get_def Let_def split: option.splits)
  obtain i where i: "breakers r2 k1 = Some i" "fst (registry_get k1 t1 r1) = Some i"
    using hit [OF en(1), of k1 t1] by (auto simp: r2_def)
  obtain j where j: "breakers r3 k2 = Some j" "fst (registry_get k2 t2 r2') = Some j"
    using hit [OF en(2), of k2 t2] by (auto simp: r3_def)
  have "breakers r2' k1 = Some i" unfolding r2'_def by (rule registry_run_stable [OF i(1)])
  then have i3: "breakers r3 k1 = Some i"
    using registry_get_stable [of r2' k1 i "(k2, t2)"] by (simp add: r3_def registry_step_def)
  have "registry_ok (new_registry cfg)" by (simp add: registry_ok_def new_registry_def)
  then have "registry_ok r3"
    unfolding r3_def r2'_def r2_def r1_def by (intro registry_ok_get reg.run_inv)
  then have "i = j \<longleftrightarrow> k1 = k2"
    using i3 j(1) by (auto simp: registry_ok_def inj_on_def dom_def)
  then show ?thesis
    using i(2) j(2) by (simp add: Let_def split_beta r1_def r2_def r2'_def)
qed

theorem registry_one_breaker_per_key_witness:
  "let (h1, r2) = registry_get ''a'' 0 (new_registry server_config);
       (h2, r3) = registry_get ''a'' 5 r2; (h3, r4) = registry_get ''b'' 5 r3
   in h1 = h2 \<and> h1 \<noteq> h3"
proof -
  have "enabled server_config" by (simp add: server_config_def)
  from registry_one_breaker_per_key [OF this, of "[]" "''a''" 0 "''a''" 5 "[]"]
    registry_one_breaker_per_key [OF this, of "[]" "''a''" 0 "''b''" 5 "[(''a'', 5)]"]
  show ?thesis by (simp add: Let_def split_beta registry_step_def)
qed

end
