(* ===== verification/Breaker_Race.thy ===== *)
theory Breaker_Race
  imports Circuit_Breaker
begin

text \<open>
  Concurrent calls of \<open>CircuitBreaker::check\<close> (\<open>breaker.rs\<close>) at the granularity of
  their atomic loads, stores, fetch-and-adds, compare-exchanges and clock readings. A thread is
  a program counter; \<open>check_step\<close>, \<open>open_step\<close> and \<open>probe_step\<close> are the steps of
  \<open>check\<close>, \<open>check_open\<close> and \<open>try_half_open_probe\<close> on the shared breaker, and
  \<open>race\<close> lets any thread take its next step at any clock reading of a given set. Only
  \<open>check\<close> runs concurrently here; outcomes are recorded in \<open>Circuit_Breaker\<close>. Observer
  calls are not part of the shared state.
\<close>

section \<open>One thread\<close>

text \<open>
  Where a thread stands inside \<open>check_open\<close> and inside \<open>try_half_open_probe\<close>, with the
  values it has read so far. A finished thread was let through by a closed or disabled breaker
  (\<open>Passed\<close>), by a probe slot (\<open>Admitted\<close>) or by taking over a stale claim
  (\<open>Reclaimed\<close>), or it carries the error \<open>check\<close> returns.
\<close>

datatype open_pc = LoadOpened | ReadNow u64 | CasOpen | StoreFast | Reload | ReloadOpened | ReloadNow u64

datatype probe_pc =
  ReadClock | FetchAdd u64 | StoreClaim u64 | FetchSub u64 | LoadClaim u64 | CasClaim u64 u64

datatype pc =
  Start | Opening open_pc | Probing probe_pc | Passed | Admitted | Reclaimed | Rejected BreakerOpen

definition check_step :: "CircuitBreaker \<Rightarrow> pc \<times> CircuitBreaker" where
  "check_step b =
     (if \<not> enabled (config b) then (Passed, b)
      else case state b of
          Closed \<Rightarrow> (Passed, b)
        | Open \<Rightarrow> (Opening LoadOpened, b)
        | HalfOpen \<Rightarrow> (Probing ReadClock, b))"

fun open_step :: "instant \<Rightarrow> open_pc \<Rightarrow> CircuitBreaker \<Rightarrow> pc \<times> CircuitBreaker" where
  "open_step t LoadOpened b = (Opening (ReadNow (opened_at_millis b)), b)"
| "open_step t (ReadNow opened) b =
     (let elapsed = from_millis (elapsed_millis b t - opened)
      in if open_duration (config b) \<le> elapsed then (Opening CasOpen, b)
         else (Rejected (BreakerOpen (open_duration (config b) - elapsed)), b))"
| "open_step t CasOpen b =
     (case cas_state Open HalfOpen b of (ok, b) \<Rightarrow> (Opening (if ok then StoreFast else Reload), b))"
| "open_step t StoreFast b = (Probing ReadClock, b\<lparr>is_open_fast := False\<rparr>)"
| "open_step t Reload b =
     (case state b of
        Closed \<Rightarrow> (Passed, b)
      | HalfOpen \<Rightarrow> (Probing ReadClock, b)
      | Open \<Rightarrow> (Opening ReloadOpened, b))"
| "open_step t ReloadOpened b = (Opening (ReloadNow (opened_at_millis b)), b)"
| "open_step t (ReloadNow opened) b =
     (Rejected (BreakerOpen (open_duration (config b) - from_millis (elapsed_millis b t - opened))), b)"

fun probe_step :: "instant \<Rightarrow> probe_pc \<Rightarrow> CircuitBreaker \<Rightarrow> pc \<times> CircuitBreaker" where
  "probe_step t ReadClock b = (Probing (FetchAdd (elapsed_millis b t)), b)"
| "probe_step t (FetchAdd now) b =
     (Probing (if half_open_probes b < half_open_max_probes (config b) then StoreClaim now else FetchSub now),
      b\<lparr>half_open_probes := half_open_probes b + 1\<rparr>)"
| "probe_step t (StoreClaim now) b = (Admitted, b\<lparr>probe_claimed_at_millis := now\<rparr>)"
| "probe_step t (FetchSub now) b = (Probing (LoadClaim now), b\<lparr>half_open_probes := half_open_probes b - 1\<rparr>)"
| "probe_step t (LoadClaim now) b =
     (if as_millis (open_duration (config b)) mod 2 ^ 64 \<le> now - probe_claimed_at_millis b
      then (Probing (CasClaim (probe_claimed_at_millis b) now), b)
      else (Rejected (BreakerOpen (min HALF_OPEN_PROBE_BACKOFF (open_duration (config b)))), b))"
| "probe_step t (CasClaim claimed now) b =
     (if probe_claimed_at_millis b = claimed
      then (Reclaimed, b\<lparr>probe_claimed_at_millis := now\<rparr>)
      else (Rejected (BreakerOpen (min HALF_OPEN_PROBE_BACKOFF (open_duration (config b)))), b))"

fun advance :: "instant \<Rightarrow> pc \<Rightarrow> CircuitBreaker \<Rightarrow> pc \<times> CircuitBreaker" where
  "advance t Start b = check_step b"
| "advance t (Opening p) b = open_step t p b"
| "advance t (Probing p) b = probe_step t p b"
| "advance t p b = (p, b)"

text \<open>What a finished thread returns from \<open>check\<close>.\<close>

fun returned :: "pc \<Rightarrow> (BreakerOpen + unit) option" where
  "returned Passed = Some (Inr ())"
| "returned Admitted = Some (Inr ())"
| "returned Reclaimed = Some (Inr ())"
| "returned (Rejected e) = Some (Inl e)"
| "returned _ = None"

fun run_thread :: "instant list \<Rightarrow> pc \<times> CircuitBreaker \<Rightarrow> pc \<times> CircuitBreaker" where
  "run_thread [] c = c"
| "run_thread (t # ts) (p, b) = run_thread ts (advance t p b)"

section \<open>Interleaving\<close>

inductive race :: "instant set \<Rightarrow> pc list \<times> CircuitBreaker \<Rightarrow> pc list \<times> CircuitBreaker \<Rightarrow> bool" for T where
  thread_step:
    "i < length ps \<Longrightarrow> t \<in> T \<Longrightarrow> advance t (ps ! i) b = (p, b') \<Longrightarrow> race T (ps, b) (ps[i := p], b')"

inductive_cases raceE: "race T (ps, b) c"

inductive reachable :: "instant set \<Rightarrow> pc list \<times> CircuitBreaker \<Rightarrow> pc list \<times> CircuitBreaker \<Rightarrow> bool" for T c0 where
  start: "reachable T c0 c0"
| step: "reachable T c0 c \<Longrightarrow> race T c c' \<Longrightarrow> reachable T c0 c'"

text \<open>One thread may run on its own for a while.\<close>

lemma reachable_run:
  assumes "reachable T c0 (ps, b)" "i < length ps" "set ts \<subseteq> T" "run_thread ts (ps ! i, b) = (p, b')"
  shows "reachable T c0 (ps[i := p], b')"
  using assms
proof (induction ts arbitrary: ps b)
  case (Cons t ts)
  obtain q b1 where a: "advance t (ps ! i) b = (q, b1)" by fastforce
  have "race T (ps, b) (ps[i := q], b1)" using Cons.prems a by (intro thread_step) auto
  then have "reachable T c0 (ps[i := q], b1)" using Cons.prems(1) by (rule reachable.step [rotated])
  then show ?case using Cons.IH [of "ps[i := q]" b1] Cons.prems a by simp
qed (auto simp: list_update_same_conv)

section \<open>Slots and claims\<close>

fun holds_slot :: "pc \<Rightarrow> bool" where
  "holds_slot (Probing (StoreClaim _)) = True"
| "holds_slot Admitted = True"
| "holds_slot _ = False"

fun over_count :: "pc \<Rightarrow> bool" where
  "over_count (Probing (FetchSub _)) = True"
| "over_count _ = False"

definition count_pc :: "(pc \<Rightarrow> bool) \<Rightarrow> pc list \<Rightarrow> nat" where
  "count_pc P ps = length (filter P ps)"

lemma count_pc_update:
  "i < length ps \<Longrightarrow>
     count_pc P (ps[i := p]) + (if P (ps ! i) then 1 else 0) = count_pc P ps + (if P p then 1 else 0)"
proof -
  assume i: "i < length ps"
  have "count_pc P ps = count_pc P (take i ps @ ps ! i # drop (Suc i) ps)"
    using id_take_nth_drop [OF i] by simp
  then show ?thesis using i by (simp add: upd_conv_take_nth_drop count_pc_def)
qed

lemma count_pc_pos: "i < length ps \<Longrightarrow> P (ps ! i) \<Longrightarrow> 0 < count_pc P ps"
  by (auto simp: count_pc_def length_greater_0_conv filter_empty_conv)

lemma count_pc_Start [simp]: "count_pc P (replicate n Start) = (if P Start then n else 0)"
  by (simp add: count_pc_def)

text \<open>
  The slot counter is the number of threads that hold a slot or are about to give back one
  they took in excess; in an open or half-open enabled breaker no thread passes without a probe.
\<close>

definition race_ok :: "pc list \<times> CircuitBreaker \<Rightarrow> bool" where
  "race_ok c = (case c of (ps, b) \<Rightarrow>
     half_open_probes b = count_pc holds_slot ps + count_pc over_count ps
     \<and> count_pc holds_slot ps \<le> half_open_max_probes (config b))"

definition shut :: "pc list \<times> CircuitBreaker \<Rightarrow> bool" where
  "shut c = (case c of (ps, b) \<Rightarrow> enabled (config b) \<and> state b \<noteq> Closed \<and> Passed \<notin> set ps)"

lemma advance_keeps:
  assumes "advance t p b = (p', b')"
  shows "config b' = config b \<and> baseline b' = baseline b \<and> (state b \<noteq> Closed \<longrightarrow> state b' \<noteq> Closed)"
proof (cases p)
  case (Opening q)
  with assms show ?thesis
    by (cases q) (auto simp: cas_state_def Let_def state_def split: BreakerState.splits if_splits)
next
  case (Probing q)
  with assms show ?thesis by (cases q) (auto simp: state_def split: if_splits)
qed (use assms in \<open>auto simp: check_step_def split: BreakerState.splits if_splits\<close>)

lemma advance_shut:
  "advance t p b = (p', b') \<Longrightarrow> enabled (config b) \<Longrightarrow> state b \<noteq> Closed \<Longrightarrow> p \<noteq> Passed \<Longrightarrow> p' \<noteq> Passed"
  by (induction t p b rule: advance.induct)
    (auto simp: check_step_def cas_state_def Let_def elim!: open_step.elims probe_step.elims
      split: BreakerState.splits if_splits)

lemma advance_counts:
  assumes "advance t p b = (p', b')"
  shows "int (half_open_probes b') - int (half_open_probes b) =
           (if over_count p \<and> half_open_probes b = 0 then 0
            else of_bool (holds_slot p') + of_bool (over_count p') - of_bool (holds_slot p) - of_bool (over_count p))
         \<and> (holds_slot p' \<and> \<not> holds_slot p \<longrightarrow> half_open_probes b < half_open_max_probes (config b))"
proof (cases p)
  case (Opening q)
  with assms show ?thesis by (cases q) (auto simp: cas_state_def Let_def split: BreakerState.splits if_splits)
next
  case (Probing q)
  with assms show ?thesis by (cases q) (auto split: if_splits)
qed (use assms in \<open>auto simp: check_step_def split: BreakerState.splits if_splits\<close>)

lemma race_ok_step:
  assumes "race_ok c" "race T c c'" shows "race_ok c'"
proof -
  obtain ps b where c: "c = (ps, b)" by (cases c)
  from assms(2) obtain i t p b' where i: "i < length ps" and a: "advance t (ps ! i) b = (p, b')"
    and c': "c' = (ps[i := p], b')"
    by (auto simp: c elim: raceE)
  note h = count_pc_update [OF i, of holds_slot p] and o = count_pc_update [OF i, of over_count p]
  show ?thesis
    using assms(1) h o advance_counts [OF a] advance_keeps [OF a] count_pc_pos [OF i, of over_count]
    by (auto simp: race_ok_def c c' split: if_splits)
qed

lemma shut_step:
  assumes "shut c" "race T c c'" shows "shut c'"
proof -
  obtain ps b where c: "c = (ps, b)" by (cases c)
  from assms(2) obtain i t p b' where i: "i < length ps" and a: "advance t (ps ! i) b = (p, b')"
    and c': "c' = (ps[i := p], b')"
    by (auto simp: c elim: raceE)
  have "Passed \<notin> set ps" using assms(1) by (simp add: shut_def c)
  then have "ps ! i \<noteq> Passed" using nth_mem [OF i] by metis
  then have "p \<noteq> Passed" using advance_shut [OF a] assms(1) by (simp add: shut_def c)
  then show ?thesis
    using assms(1) advance_keeps [OF a] set_update_subset_insert [of ps i p] by (auto simp: shut_def c c')
qed

text \<open>
  Clock readings within one lease, from \<open>m\<close> on. A thread that compares and exchanges a claim
  has read one older than \<open>m\<close>; every write stores a reading that is not; so at most one
  exchange succeeds.
\<close>

definition lease_millis :: "CircuitBreaker \<Rightarrow> u64" where
  "lease_millis b = as_millis (open_duration (config b)) mod 2 ^ 64"

fun recent :: "u64 \<Rightarrow> u64 \<Rightarrow> pc \<Rightarrow> bool" where
  "recent m l (Probing (FetchAdd now)) = (m \<le> now \<and> now < m + l)"
| "recent m l (Probing (StoreClaim now)) = (m \<le> now \<and> now < m + l)"
| "recent m l (Probing (FetchSub now)) = (m \<le> now \<and> now < m + l)"
| "recent m l (Probing (LoadClaim now)) = (m \<le> now \<and> now < m + l)"
| "recent m l (Probing (CasClaim claimed now)) = (claimed < m \<and> m \<le> now \<and> now < m + l)"
| "recent m l _ = True"

definition within_lease :: "u64 \<Rightarrow> CircuitBreaker \<Rightarrow> instant set" where
  "within_lease m b = {t. m \<le> elapsed_millis b t \<and> elapsed_millis b t < m + lease_millis b}"

definition claims_ok :: "u64 \<Rightarrow> pc list \<times> CircuitBreaker \<Rightarrow> bool" where
  "claims_ok m c = (case c of (ps, b) \<Rightarrow>
     list_all (recent m (lease_millis b)) ps
     \<and> count_pc (\<lambda>p. p = Reclaimed) ps \<le> (if m \<le> probe_claimed_at_millis b then 1 else 0))"

lemma advance_recent:
  assumes "advance t p b = (p', b')" "recent m (lease_millis b) p" "t \<in> within_lease m b"
  shows "recent m (lease_millis b) p'
         \<and> (m \<le> probe_claimed_at_millis b \<longrightarrow> m \<le> probe_claimed_at_millis b')
         \<and> (p' = Reclaimed \<and> p \<noteq> Reclaimed \<longrightarrow>
              probe_claimed_at_millis b < m \<and> m \<le> probe_claimed_at_millis b')"
proof (cases p)
  case (Opening q)
  with assms show ?thesis by (cases q) (auto simp: cas_state_def Let_def split: BreakerState.splits if_splits)
next
  case (Probing q)
  with assms show ?thesis
    by (cases q) (auto simp: within_lease_def lease_millis_def split: if_splits)
qed (use assms in \<open>auto simp: check_step_def split: BreakerState.splits if_splits\<close>)

lemma claims_ok_step:
  assumes "claims_ok m c" "race T c c'" "T \<subseteq> within_lease m (snd c)"
  shows "claims_ok m c' \<and> within_lease m (snd c') = within_lease m (snd c)"
proof -
  obtain ps b where c: "c = (ps, b)" by (cases c)
  from assms(2) obtain i t p b' where i: "i < length ps" and t: "t \<in> T"
    and a: "advance t (ps ! i) b = (p, b')" and c': "c' = (ps[i := p], b')"
    by (auto simp: c elim: raceE)
  have k: "lease_millis b' = lease_millis b" "within_lease m b' = within_lease m b"
    using advance_keeps [OF a] by (simp_all add: lease_millis_def within_lease_def elapsed_millis_def)
  have "recent m (lease_millis b) (ps ! i)"
    using assms(1) nth_mem [OF i] by (auto simp: claims_ok_def c list_all_iff)
  then have r: "recent m (lease_millis b) p" "m \<le> probe_claimed_at_millis b \<longrightarrow> m \<le> probe_claimed_at_millis b'"
    "p = Reclaimed \<and> ps ! i \<noteq> Reclaimed \<longrightarrow> probe_claimed_at_millis b < m \<and> m \<le> probe_claimed_at_millis b'"
    using advance_recent [OF a] t assms(3) by (auto simp: c)
  have "list_all (recent m (lease_millis b')) (ps[i := p])"
    using assms(1) r(1) set_update_subset_insert [of ps i p]
    by (auto simp: claims_ok_def c list_all_iff k)
  moreover have "count_pc (\<lambda>p. p = Reclaimed) (ps[i := p]) \<le> (if m \<le> probe_claimed_at_millis b' then 1 else 0)"
    using assms(1) r(2,3) count_pc_update [OF i, of "\<lambda>p. p = Reclaimed" p]
    by (auto simp: claims_ok_def c split: if_splits)
  ultimately show ?thesis by (simp add: claims_ok_def c c' k)
qed

lemma race_inv_reachable:
  assumes "reachable T c0 c"
  shows "(race_ok c0 \<longrightarrow> race_ok c) \<and> (shut c0 \<longrightarrow> shut c)
         \<and> (claims_ok m c0 \<and> T \<subseteq> within_lease m (snd c0) \<longrightarrow> claims_ok m c \<and> T \<subseteq> within_lease m (snd c))"
  using assms
proof induction
  case (step c c')
  then show ?case using race_ok_step shut_step claims_ok_step [of m c T c'] by blast
qed simp

section \<open>Properties\<close>

lemma ran_count:
  "Passed \<notin> set ps \<Longrightarrow>
     count_pc (\<lambda>p. returned p = Some (Inr ())) ps = count_pc (\<lambda>p. p = Admitted) ps + count_pc (\<lambda>p. p = Reclaimed) ps"
proof (induction ps)
  case (Cons p ps)
  then show ?case by (cases p) (auto simp: count_pc_def)
qed (simp add: count_pc_def)

text \<open>
  C3: concurrent probes. However many threads call \<open>check\<close> concurrently on an open, enabled
  breaker, in every interleaving of their atomic steps: at most \<open>half_open_max_probes\<close> of
  them are admitted through a probe slot; whenever no thread is between its fetch-and-add and the
  matching fetch-and-sub, the counter is the number of slots held; and if all clock readings lie
  within one lease (an open duration), at most \<open>half_open_max_probes + 1\<close> calls return
  \<open>Ok\<close> in all, the additional one by taking over a claim that was stale when the race began.
\<close>

theorem concurrent_probe_bound:
  assumes "breaker_ok b" "enabled (config b)" "state b = Open"
    and "reachable T (replicate n Start, b) (ps, b')"
  shows "count_pc (\<lambda>p. p = Admitted) ps \<le> half_open_max_probes (config b')
         \<and> (count_pc over_count ps = 0 \<longrightarrow> half_open_probes b' = count_pc holds_slot ps)
         \<and> (T \<subseteq> within_lease m b \<longrightarrow>
              count_pc (\<lambda>p. returned p = Some (Inr ())) ps \<le> half_open_max_probes (config b') + 1)"
proof -
  have "race_ok (replicate n Start, b)" "shut (replicate n Start, b)" "claims_ok m (replicate n Start, b)"
    using assms(1-3) by (auto simp: race_ok_def shut_def claims_ok_def breaker_ok_def list_all_iff)
  then have ok: "race_ok (ps, b')" "shut (ps, b')" "T \<subseteq> within_lease m b \<longrightarrow> claims_ok m (ps, b')"
    using race_inv_reachable [OF assms(4), of m] by simp_all
  have "count_pc (\<lambda>p. p = Admitted) ps \<le> count_pc holds_slot ps"
    by (induction ps) (auto simp: count_pc_def)
  with ok show ?thesis
    using ran_count [of ps] by (auto simp: race_ok_def shut_def claims_ok_def split: if_splits)
qed

lemma run_thread_append: "run_thread (ts @ us) c = run_thread us (run_thread ts c)"
  by (induction ts c rule: run_thread.induct) auto

text \<open>The first caller of an open breaker after the cool-down, up to the slot it takes.\<close>

definition slot_taken :: "CircuitBreaker \<Rightarrow> CircuitBreaker" where
  "slot_taken b = b\<lparr>state_u8 := 2, is_open_fast := False, half_open_probes := 1\<rparr>"

lemma opener_run:
  assumes "breaker_ok b" "enabled (config b)" "state b = Open"
    and "open_duration (config b) \<le> from_millis (elapsed_millis b t - opened_at_millis b)"
  shows "run_thread [t, t, t, t, t, t, t] (Start, b) = (Probing (StoreClaim (elapsed_millis b t)), slot_taken b)"
proof -
  let ?h = "b\<lparr>state_u8 := 2, is_open_fast := False\<rparr>"
  have s: "state_u8 b = 1" "half_open_probes b = 0" "0 < half_open_max_probes (config b)"
    using assms(1,3) by (simp_all add: state_def breaker_ok_def)
  have "run_thread [t, t, t, t, t] (Start, b) = (Probing ReadClock, ?h)"
    using assms(2-4) s(1) by (simp add: check_step_def cas_state_def Let_def)
  moreover have "run_thread [t, t] (Probing ReadClock, ?h) = (Probing (StoreClaim (elapsed_millis b t)), slot_taken b)"
    using s by (simp add: elapsed_millis_def slot_taken_def)
  ultimately show ?thesis
    using run_thread_append [of "[t, t, t, t, t]" "[t, t]" "(Start, b)"] by (simp only: append.simps)
qed

lemma opener_reachable:
  assumes "breaker_ok b" "enabled (config b)" "state b = Open"
    and "open_duration (config b) \<le> from_millis (elapsed_millis b t - opened_at_millis b)"
  shows "reachable {t} ([Start, Start], b) ([Probing (StoreClaim (elapsed_millis b t)), Start], slot_taken b)"
  using reachable_run [OF reachable.start, of 0 "[Start, Start]" "[t, t, t, t, t, t, t]" "{t}" b]
    opener_run [OF assms] by (simp del: run_thread.simps)

text \<open>
  C38: two calls on one slot. Take an open, enabled breaker with a single probe slot, whose last
  probe claim is not later than its opening, and any reading of the clock after the cool-down. Two
  concurrent calls of \<open>check\<close> at that reading can both return \<open>Ok\<close>: the first takes the
  slot, and before it stores its claim the second finds the old claim expired and takes it over.
  So the bound of the previous theorem is reached, and the single probe of a half-open breaker is
  not exclusive.
\<close>

theorem stale_claim_admits_two:
  assumes "breaker_ok b" "enabled (config b)" "state b = Open" "half_open_max_probes (config b) = 1"
    and "open_duration (config b) \<le> from_millis (elapsed_millis b t - opened_at_millis b)"
    and "probe_claimed_at_millis b \<le> opened_at_millis b"
  shows "\<exists>b'. reachable {t} ([Start, Start], b) ([Admitted, Reclaimed], b')"
proof -
  let ?now = "elapsed_millis b t" and ?b2 = "(slot_taken b)\<lparr>probe_claimed_at_millis := elapsed_millis b t\<rparr>"
  have "as_millis (open_duration (config b)) mod 2 ^ 64 \<le> as_millis (open_duration (config b))"
    by (rule mod_less_eq_dividend)
  also have "\<dots> \<le> ?now - opened_at_millis b" using assms(5) by linarith
  finally have stale: "as_millis (open_duration (config b)) mod 2 ^ 64 \<le> ?now - probe_claimed_at_millis b"
    using assms(6) by linarith
  have "run_thread [t, t, t, t, t, t] (Start, slot_taken b) = (Reclaimed, ?b2)"
    using assms(2,4) stale
    by (simp add: check_step_def slot_taken_def state_def elapsed_millis_def)
  then have "reachable {t} ([Start, Start], b) ([Probing (StoreClaim ?now), Reclaimed], ?b2)"
    using reachable_run [OF opener_reachable [OF assms(1-3,5)], of 1 "[t, t, t, t, t, t]"]
    by (simp del: run_thread.simps)
  from reachable_run [OF this, of 0 "[t]"] show ?thesis by auto
qed

lemma tripped_facts:
  "enabled (config tripped)" "state tripped = Open" "elapsed_millis tripped (from_secs 60) = 60000"
  "half_open_max_probes (config tripped) = 1" "probe_claimed_at_millis tripped \<le> opened_at_millis tripped"
  "open_duration (config tripped) \<le> from_millis (elapsed_millis tripped (from_secs 60) - opened_at_millis tripped)"
  "lease_millis tripped = 60000"
  by (simp_all add: tripped_eval client_config_def state_def elapsed_millis_def lease_millis_def)

theorem stale_claim_admits_two_witness:
  "\<exists>b'. reachable {from_secs 60} ([Start, Start], tripped) ([Admitted, Reclaimed], b')"
  by (rule stale_claim_admits_two [OF tripped_ok tripped_facts(1,2,4,6,5)])

theorem concurrent_probe_bound_witness:
  "let ps = [Probing (StoreClaim 60000), Start]
   in reachable {from_secs 60} (replicate 2 Start, tripped) (ps, slot_taken tripped)
      \<and> half_open_probes (slot_taken tripped) = count_pc holds_slot ps
      \<and> count_pc (\<lambda>p. returned p = Some (Inr ())) ps \<le> half_open_max_probes (config (slot_taken tripped)) + 1"
proof -
  have r: "reachable {from_secs 60} (replicate 2 Start, tripped) ([Probing (StoreClaim 60000), Start], slot_taken tripped)"
    using opener_reachable [OF tripped_ok tripped_facts(1,2,6)]
    unfolding tripped_facts(3) by (simp add: numeral_2_eq_2)
  have "from_secs 60 \<in> within_lease 60000 tripped" 
    unfolding within_lease_def mem_Collect_eq tripped_facts(3,7) by simp
  then show ?thesis
    using r concurrent_probe_bound [OF tripped_ok tripped_facts(1,2) r, of 60000]
    by (simp add: count_pc_def)
qed

section \<open>A thread on its own\<close>

definition probe_result :: "instant \<Rightarrow> CircuitBreaker \<Rightarrow> pc" where
  "probe_result t b =
     (case fst (try_half_open_probe t b) of
        Inl e \<Rightarrow> Rejected e
      | Inr _ \<Rightarrow> if half_open_probes b < half_open_max_probes (config b) then Admitted else Reclaimed)"

lemma run_probe:
  "run_thread [t, t2, t3, t4, t5] (Probing ReadClock, b) =
     (probe_result t b, (snd (try_half_open_probe t b))\<lparr>log := log b\<rparr>)"
proof (cases "half_open_probes b < half_open_max_probes (config b)")
  case True
  then show ?thesis by (simp add: probe_result_def probe_cases emit_def)
next
  case False
  then show ?thesis
    by (cases "as_millis (open_duration (config b)) mod 2 ^ 64
          \<le> elapsed_millis b t - probe_claimed_at_millis b")
      (simp_all add: probe_result_def probe_cases emit_def elapsed_millis_def)
qed

lemma probe_emit:
  "fst (try_half_open_probe t (emit e b)) = fst (try_half_open_probe t b)"
  "(snd (try_half_open_probe t (emit e b)))\<lparr>log := l\<rparr> = (snd (try_half_open_probe t b))\<lparr>log := l\<rparr>"
proof -
  consider "half_open_probes b < half_open_max_probes (config b)"
    | "half_open_max_probes (config b) \<le> half_open_probes b"
      "as_millis (open_duration (config b)) mod 2 ^ 64 \<le> elapsed_millis b t - probe_claimed_at_millis b"
    | "half_open_max_probes (config b) \<le> half_open_probes b"
      "elapsed_millis b t - probe_claimed_at_millis b < as_millis (open_duration (config b)) mod 2 ^ 64"
    by linarith
  then have "fst (try_half_open_probe t (emit e b)) = fst (try_half_open_probe t b) \<and>
    (snd (try_half_open_probe t (emit e b)))\<lparr>log := l\<rparr> = (snd (try_half_open_probe t b))\<lparr>log := l\<rparr>"
    by cases (simp_all add: probe_cases emit_def elapsed_millis_def)
  then show "fst (try_half_open_probe t (emit e b)) = fst (try_half_open_probe t b)"
    and "(snd (try_half_open_probe t (emit e b)))\<lparr>log := l\<rparr> = (snd (try_half_open_probe t b))\<lparr>log := l\<rparr>"
    by blast+
qed

lemma probe_result_returned [simp]: "returned (probe_result t b) = Some (fst (try_half_open_probe t b))"
  by (cases "fst (try_half_open_probe t b)") (auto simp: probe_result_def split: unit.splits)

lemma run_done: "returned p \<noteq> None \<Longrightarrow> run_thread ts (p, b) = (p, b)"
proof (induction ts)
  case (Cons t ts)
  then show ?case by (cases p) auto
qed simp

lemma run_rest: "run_thread ts c = (p, b) \<Longrightarrow> returned p \<noteq> None \<Longrightarrow> run_thread (ts @ us) c = (p, b)"
  by (simp add: run_thread_append run_done)

text \<open>
  C18: the atomic steps implement \<open>check\<close>. A thread that runs alone finishes within ten
  steps; it returns what the sequential \<open>check\<close> returns, the error with its retry time
  included, and leaves the breaker that \<open>check\<close> leaves, observer calls aside.
\<close>

theorem lone_thread_is_check:
  "let (p, b') = run_thread [t1, t1, t1, t2, t2, t2, t2, t2, t2, t2] (Start, b);
       (res, bc) = check t1 t2 b
   in returned p = Some res \<and> b' = bc\<lparr>log := log b\<rparr>"
proof (cases "enabled (config b) \<and> state b \<noteq> Closed")
  case False
  then have "run_thread [t1] (Start, b) = (Passed, b)" by (auto simp: check_step_def)
  then show ?thesis
    using False run_rest [of "[t1]" "(Start, b)" Passed b "[t1, t1, t2, t2, t2, t2, t2, t2, t2]"]
    by (auto simp: check_def simp del: run_thread.simps)
next
  case True
  show ?thesis
  proof (cases "state b")
    case HalfOpen
    have "run_thread [t1] (Start, b) = (Probing ReadClock, b)" using HalfOpen True by (simp add: check_step_def)
    then have "run_thread [t1, t1, t1, t2, t2, t2] (Start, b) =
        (probe_result t1 b, (snd (try_half_open_probe t1 b))\<lparr>log := log b\<rparr>)"
      using run_thread_append [of "[t1]" "[t1, t1, t2, t2, t2]" "(Start, b)"] run_probe by (simp only: append.simps)
    from run_rest [OF this, of "[t2, t2, t2, t2]"] show ?thesis
      using True by (simp add: check_of_half_open HalfOpen split_beta del: run_thread.simps)
  next
    case Open
    let ?h = "b\<lparr>state_u8 := 2, is_open_fast := False\<rparr>"
    have u: "state_u8 b = 1" using Open by (simp add: state_def)
    show ?thesis
    proof (cases "open_duration (config b) \<le> from_millis (elapsed_millis b t1 - opened_at_millis b)")
      case le: True
      have "run_thread [t1, t1, t1, t2, t2] (Start, b) = (Probing ReadClock, ?h)"
        using Open True le u by (simp add: check_step_def cas_state_def)
      then have "run_thread [t1, t1, t1, t2, t2, t2, t2, t2, t2, t2] (Start, b) =
          (probe_result t2 ?h, (snd (try_half_open_probe t2 ?h))\<lparr>log := log ?h\<rparr>)"
        using run_thread_append [of "[t1, t1, t1, t2, t2]" "[t2, t2, t2, t2, t2]" "(Start, b)"] run_probe
        by (simp only: append.simps)
      then show ?thesis
        using le True by (simp add: check_of_open Open half_opened_def split_beta Let_def not_less probe_emit
            del: run_thread.simps)
    next
      case less: False
      have "run_thread [t1, t1, t1] (Start, b) =
          (Rejected (BreakerOpen (open_duration (config b) - from_millis (elapsed_millis b t1 - opened_at_millis b))), b)"
        using Open True less by (simp add: check_step_def Let_def)
      from run_rest [OF this, of "[t2, t2, t2, t2, t2, t2, t2]"] show ?thesis
        using less True by (simp add: check_of_open Open Let_def del: run_thread.simps)
    qed
  qed (use True in simp)
qed

end
