(* ===== verification/Retry_Policy.thy ===== *)
theory Retry_Policy
  imports Prelude
begin

text \<open>
  Retry classification of \<open>crates/common/xai-circuit-breaker/src\<close>: HTTP statuses in
  \<open>retry_policy.rs\<close>, gRPC codes in \<open>grpc.rs\<close>. A \<open>tonic::Status\<close> enters
  through its code and whether it carries a source error, the two things the code reads.
\<close>

section \<open>HTTP statuses\<close>

datatype Disposition = Retryable | AuthRefresh | Terminal

record RetryPolicy =
  retryable :: "u16 list"
  auth_refresh :: "u16 list"
  terminal :: "u16 list"
  default_disposition :: Disposition

definition classify :: "RetryPolicy \<Rightarrow> u16 \<Rightarrow> Disposition option" where
  "classify p status =
     (if 200 \<le> status \<and> status < 300 then None
      else if status \<in> set (auth_refresh p) then Some AuthRefresh
      else if status \<in> set (terminal p) then Some Terminal
      else if status \<in> set (retryable p) \<or> (500 \<le> status \<and> status < 600) then Some Retryable
      else Some (default_disposition p))"

definition should_retry :: "RetryPolicy \<Rightarrow> u16 \<Rightarrow> bool" where
  "should_retry p status \<longleftrightarrow> classify p status = Some Retryable"

definition server :: RetryPolicy where
  "server = \<lparr>retryable = [429], auth_refresh = [], terminal = [], default_disposition = Terminal\<rparr>"

definition edge_client :: RetryPolicy where
  "edge_client = \<lparr>retryable = [429], auth_refresh = [], terminal = [525, 526], default_disposition = Terminal\<rparr>"

definition client_storage :: RetryPolicy where
  "client_storage =
     \<lparr>retryable = [], auth_refresh = [401], terminal = [400, 403, 404, 525, 526],
      default_disposition = Retryable\<rparr>"

section \<open>gRPC codes\<close>

datatype Code =
  CodeOk | Cancelled | Unknown | InvalidArgument | DeadlineExceeded | NotFound | AlreadyExists
| PermissionDenied | ResourceExhausted | FailedPrecondition | Aborted | OutOfRange
| Unimplemented | Internal | Unavailable | DataLoss | Unauthenticated

datatype GrpcRetryPolicy = GrpcRetryPolicy (grpc_retryable: "Code list")

definition grpc_DEFAULT :: GrpcRetryPolicy where
  "grpc_DEFAULT = GrpcRetryPolicy [Unavailable, Unknown]"

definition grpc_PERMISSIVE :: GrpcRetryPolicy where
  "grpc_PERMISSIVE = GrpcRetryPolicy [Unavailable, Unknown, Internal, DeadlineExceeded]"

definition grpc_is_retryable :: "GrpcRetryPolicy \<Rightarrow> Code \<Rightarrow> bool" where
  "grpc_is_retryable p code \<longleftrightarrow> code \<in> set (grpc_retryable p)"

definition grpc_classify :: "GrpcRetryPolicy \<Rightarrow> Code \<Rightarrow> Disposition option" where
  "grpc_classify p code =
     (if code = CodeOk then None
      else if grpc_is_retryable p code then Some Retryable else Some Terminal)"

definition grpc_is_retryable_status :: "GrpcRetryPolicy \<Rightarrow> Code \<Rightarrow> bool \<Rightarrow> bool" where
  "grpc_is_retryable_status p code has_source \<longleftrightarrow>
     grpc_is_retryable p code
     \<or> (has_source \<and> code \<in> {Internal, Cancelled, Unknown, Unavailable})"

section \<open>Properties\<close>

text \<open>
  The three HTTP presets. For every status: a success is never classified; the server preset
  retries exactly 429 and the 5xx range and gives everything else up; the edge client does the
  same except that it gives up the origin-TLS codes 525 and 526; the storage client asks for new
  credentials exactly on 401, drops exactly 400, 403, 404, 525 and 526, and retries everything
  else.
\<close>

theorem http_presets:
  "classify server s =
     (if s \<in> {200..<300} then None else if s = 429 \<or> s \<in> {500..<600} then Some Retryable else Some Terminal)
   \<and> classify edge_client s =
     (if s \<in> {525, 526} then Some Terminal else classify server s)
   \<and> classify client_storage s =
     (if s \<in> {200..<300} then None else if s = 401 then Some AuthRefresh
      else if s \<in> {400, 403, 404, 525, 526} then Some Terminal else Some Retryable)"
  by (auto simp: classify_def server_def edge_client_def client_storage_def)

text \<open>
  Connection failures. A status the client built from a connection failure is retried
  under every policy when it is internal, cancelled, unknown or unavailable, while a verdict
  of the peer (no source) is retried only when the policy lists its code; the default policy
  is contained in the permissive one.
\<close>

theorem grpc_retry:
  "grpc_is_retryable_status p c False = grpc_is_retryable p c
   \<and> (grpc_is_retryable_status p c True \<longleftrightarrow>
        grpc_is_retryable p c \<or> c \<in> {Internal, Cancelled, Unknown, Unavailable})
   \<and> (grpc_classify p c = Some Retryable \<longleftrightarrow> c \<noteq> CodeOk \<and> grpc_is_retryable p c)
   \<and> {c. grpc_is_retryable grpc_DEFAULT c} \<subseteq> {c. grpc_is_retryable grpc_PERMISSIVE c}"
  by (auto simp: grpc_is_retryable_status_def grpc_is_retryable_def grpc_classify_def
      grpc_DEFAULT_def grpc_PERMISSIVE_def)

end
