(* ===== verification/Interjection.thy ===== *)
theory Interjection
  imports Rust_Text
begin

text \<open>
  Mid-turn interjections, \<open>crates/common/xai-interjection-core/src\<close>: the shared event
  queue (\<open>events.rs\<close>), the interjection buffer (\<open>buffer.rs\<close>) and the framing of
  a steered query (\<open>format.rs\<close>). The queue's mutex makes each operation atomic, so the
  shared state is the list of queued events. The locale \<open>fifo_queue\<close> is the contract
  readers rely on.
\<close>

section \<open>The event queue\<close>

record 'e EventQueue =
  events :: "'e list"

definition new_queue :: "'e EventQueue" where
  "new_queue = \<lparr>events = []\<rparr>"

definition push_event :: "'e \<Rightarrow> 'e EventQueue \<Rightarrow> 'e EventQueue" where
  "push_event e q = q\<lparr>events := events q @ [e]\<rparr>"

definition push_capped :: "'e \<Rightarrow> usize \<Rightarrow> 'e EventQueue \<Rightarrow> 'e EventQueue" where
  "push_capped e mx q =
     (let es = events q @ [e]
      in if mx < length es then q\<lparr>events := drop (length es - mx) es\<rparr> else q\<lparr>events := es\<rparr>)"

definition queue_len :: "'e EventQueue \<Rightarrow> usize" where
  "queue_len q = length (events q)"

definition queue_is_empty :: "'e EventQueue \<Rightarrow> bool" where
  "queue_is_empty q \<longleftrightarrow> events q = []"

definition drain_matching :: "('e \<Rightarrow> bool) \<Rightarrow> 'e EventQueue \<Rightarrow> 'e list \<times> 'e EventQueue" where
  "drain_matching take_it q =
     (case partition take_it (events q) of (matched, kept) \<Rightarrow> (matched, q\<lparr>events := kept\<rparr>))"

definition drain_all :: "'e EventQueue \<Rightarrow> 'e list \<times> 'e EventQueue" where
  "drain_all q = (events q, q\<lparr>events := []\<rparr>)"

definition restore_front :: "'e list \<Rightarrow> 'e EventQueue \<Rightarrow> 'e EventQueue" where
  "restore_front es q = (if es = [] then q else q\<lparr>events := es @ events q\<rparr>)"

definition clear_queue :: "'e EventQueue \<Rightarrow> 'e EventQueue" where
  "clear_queue q = q\<lparr>events := []\<rparr>"

definition snapshot :: "'e EventQueue \<Rightarrow> 'e list" where
  "snapshot q = events q"

section \<open>The contract of a queue\<close>

locale fifo_queue =
  fixes contents :: "'q \<Rightarrow> 'e list"
    and put :: "'e \<Rightarrow> 'q \<Rightarrow> 'q"
    and take_all :: "'q \<Rightarrow> 'e list \<times> 'q"
    and put_back :: "'e list \<Rightarrow> 'q \<Rightarrow> 'q"
  assumes contents_put: "contents (put e q) = contents q @ [e]"
    and contents_take: "fst (take_all q) = contents q" "contents (snd (take_all q)) = []"
    and contents_put_back: "contents (put_back es q) = es @ contents q"
begin

text \<open>
  A reader drains everything, producers push \<open>late\<close> meanwhile, and the reader is
  aborted after processing its first \<open>k\<close> events and restores the rest.
\<close>

definition drain_cycle :: "nat \<Rightarrow> 'e list \<Rightarrow> 'q \<Rightarrow> 'e list \<times> 'q" where
  "drain_cycle k late q =
     (let (out, q) = take_all q in (take k out, put_back (drop k out) (fold put late q)))"

lemma contents_puts: "contents (fold put es q) = contents q @ es"
  by (induction es arbitrary: q) (simp_all add: contents_put)

lemma drain_cycle_conserves:
  "fst (drain_cycle k late q) @ contents (snd (drain_cycle k late q)) = contents q @ late"
  by (simp add: drain_cycle_def split_beta contents_put_back contents_puts contents_take)

end

interpretation eq: fifo_queue events push_event drain_all restore_front
  by unfold_locales (simp_all add: push_event_def drain_all_def restore_front_def)

datatype 'e queue_op =
  Push 'e
| Drain nat "'e list"
| DrainMatching "'e \<Rightarrow> bool"

fun queue_run :: "'e queue_op list \<Rightarrow> 'e list \<times> 'e EventQueue \<Rightarrow> 'e list \<times> 'e EventQueue" where
  "queue_run [] c = c"
| "queue_run (Push e # ops) (got, q) = queue_run ops (got, push_event e q)"
| "queue_run (Drain k late # ops) (got, q) =
     (let (out, q) = drain_all q
      in queue_run ops (got @ take k out, restore_front (drop k out) (fold push_event late q)))"
| "queue_run (DrainMatching P # ops) (got, q) =
     (let (out, q) = drain_matching P q in queue_run ops (got @ out, q))"

fun pushed :: "'e queue_op list \<Rightarrow> 'e list" where
  "pushed [] = []"
| "pushed (Push e # ops) = e # pushed ops"
| "pushed (Drain k late # ops) = late @ pushed ops"
| "pushed (DrainMatching P # ops) = pushed ops"

fun whole :: "'e queue_op \<Rightarrow> bool" where
  "whole (DrainMatching P) = False"
| "whole _ = True"

lemma queue_run_fifo:
  "list_all whole ops \<Longrightarrow> queue_run ops (got, q) = (got', q') \<Longrightarrow>
     got' @ events q' = got @ events q @ pushed ops"
proof (induction ops "(got, q)" arbitrary: got q rule: queue_run.induct)
  case (3 k late ops got q)
  have "take k (events q) @ drop k (events q) @ late @ pushed ops = events q @ late @ pushed ops"
    by (metis append_assoc append_take_drop_id)
  with 3 show ?case
    by (simp add: drain_all_def eq.contents_put_back eq.contents_puts)
qed (auto simp: eq.contents_put)

lemma mset_filter_split: "mset (filter P xs) + mset (filter (\<lambda>x. \<not> P x) xs) = mset xs"
  by (induction xs) auto

lemma queue_run_conserves:
  "queue_run ops (got, q) = (got', q') \<Longrightarrow>
     mset got' + mset (events q') = mset got + mset (events q) + mset (pushed ops)"
proof (induction ops "(got, q)" arbitrary: got q rule: queue_run.induct)
  case (3 k late ops got q)
  have "mset (take k (events q)) + mset (drop k (events q)) = mset (events q)"
    by (metis append_take_drop_id mset_append)
  with 3 show ?case
    by (simp add: drain_all_def eq.contents_put_back eq.contents_puts)
next
  case (4 P ops got q)
  have "mset (filter P (events q)) + mset (filter (\<lambda>x. \<not> P x) (events q)) = mset (events q)"
    by (rule mset_filter_split)
  with 4 show ?case by (simp add: drain_matching_def o_def)
qed (auto simp: eq.contents_put)

text \<open>
  C12: exactly-once delivery. Over any sequence of pushes, selective drains and drains whose
  reader is aborted part-way while producers keep pushing, every pushed event is either
  delivered once or still queued; and as long as no selective drain is used, deliveries
  followed by the queue are exactly the pushes in their order.
\<close>

theorem event_queue_exactly_once:
  assumes "queue_run ops ([], new_queue) = (got, q)"
  shows "mset got + mset (events q) = mset (pushed ops)
         \<and> (list_all whole ops \<longrightarrow> got @ snapshot q = pushed ops)"
  using queue_run_conserves [OF assms] queue_run_fifo [OF _ assms]
  by (simp add: new_queue_def snapshot_def)

theorem event_queue_exactly_once_witness:
  "let ops = [Push 1, Push 2, Push (3::nat), Drain 1 [4], Push 5, Drain 9 []];
       (got, q) = queue_run ops ([], new_queue)
   in got = [1, 2, 3, 4, 5] \<and> snapshot q = [] \<and> got @ snapshot q = pushed ops"
proof -
  let ?ops = "[Push 1, Push 2, Push (3::nat), Drain 1 [4], Push 5, Drain 9 []]"
  have r: "queue_run ?ops ([], new_queue) = ([1, 2, 3, 4, 5], new_queue)"
    by (simp add: new_queue_def push_event_def drain_all_def restore_front_def)
  show ?thesis
    using event_queue_exactly_once [OF r] r by (simp add: Let_def snapshot_def new_queue_def)
qed

text \<open>
  C37: bounded queue. A capped push never leaves more than \<open>max\<close> events, keeps the most
  recent ones in order and, with a positive cap, always keeps the pushed event; a selective
  drain keeps the order of both the taken and the retained events.
\<close>

theorem push_capped_keeps_recent:
  "let q' = push_capped e mx q
   in queue_len q' = min mx (queue_len q + 1) \<and> suffix (snapshot q') (snapshot q @ [e])
      \<and> (mx = 0 \<or> last (snapshot q') = e)
      \<and> fst (drain_matching P q) = filter P (snapshot q)
      \<and> snapshot (snd (drain_matching P q)) = filter (\<lambda>x. \<not> P x) (snapshot q)"
proof -
  define es where "es = events q @ [e]"
  define n where "n = length es - mx"
  have es: "es \<noteq> []" "last es = e" "length es = Suc (length (events q))" by (simp_all add: es_def)
  have "suffix (drop n es) es" by (rule suffix_drop)
  moreover have "mx = 0 \<or> last (drop n es) = e"
    using es by (cases "mx = 0") (simp_all add: n_def last_drop)
  moreover have "push_capped e mx q = q\<lparr>events := drop n es\<rparr>"
    by (simp add: push_capped_def Let_def n_def flip: es_def)
  ultimately show ?thesis
    by (simp add: queue_len_def snapshot_def drain_matching_def o_def n_def es(3) flip: es_def)
qed

section \<open>Framing\<close>

definition LARGE_PROMPT_THRESHOLD :: usize where "LARGE_PROMPT_THRESHOLD = 25000"
definition INTERJECTION_NOTE :: string where
  "INTERJECTION_NOTE = ''The user sent a message while you were working:''"
definition INTERRUPT_NOTE :: string where
  "INTERRUPT_NOTE = ''The user interrupted the previous turn:''"
definition UNFINISHED_TASKS_REMINDER :: string where
  "UNFINISHED_TASKS_REMINDER = ''Make sure to complete any unfinished tasks from previous turns.''"

abbreviation nl :: string where "nl \<equiv> [CHR 0x0A]"

definition user_query :: "string \<Rightarrow> string" where
  "user_query user_message = ''<user_query>'' @ nl @ user_message @ nl @ ''</user_query>''"

definition frame_user_turn :: "string \<Rightarrow> string \<Rightarrow> string" where
  "frame_user_turn note assembled = note @ nl @ assembled @ nl @ UNFINISHED_TASKS_REMINDER"

definition truncate_end :: "string \<Rightarrow> nat" where
  "truncate_end body =
     (let before = takeWhile (\<lambda>ic. fst ic < LARGE_PROMPT_THRESHOLD) (char_indices body)
      in if before = [] then length body else fst (last before) + length (snd (last before)))"

definition truncate_query :: "string \<Rightarrow> string" where
  "truncate_query body =
     (if length body \<le> LARGE_PROMPT_THRESHOLD then body
      else take (truncate_end body) body @ ''... [truncated]'')"

definition format_steered_query :: "string \<Rightarrow> string \<Rightarrow> string" where
  "format_steered_query note body = frame_user_turn note (user_query (truncate_query body))"

definition format_interjection :: "string \<Rightarrow> string" where
  "format_interjection body = format_steered_query INTERJECTION_NOTE body"

definition format_interrupt :: "string \<Rightarrow> string" where
  "format_interrupt body = format_steered_query INTERRUPT_NOTE body"

record 'a PendingInterjection =
  pending_text :: string
  pending_attachments :: "'a list"

record 'a FormattedInterjection =
  formatted_text :: string
  formatted_attachments :: "'a list"

definition drain_formatted ::
    "(string \<Rightarrow> string) \<Rightarrow> 'a PendingInterjection EventQueue
       \<Rightarrow> 'a FormattedInterjection list \<times> 'a PendingInterjection EventQueue" where
  "drain_formatted sanitize_text buffer =
     (let (entries, buffer) = drain_all buffer
      in (map (\<lambda>entry. \<lparr>formatted_text = format_interjection (sanitize_text (pending_text entry)),
                        formatted_attachments = pending_attachments entry\<rparr>) entries,
          buffer))"

lemma truncate_end_prefix:
  assumes "body \<noteq> []"
  shows "\<exists>cs zs. chars body = cs @ zs \<and> cs \<noteq> [] \<and> truncate_end body = length (concat cs)"
proof -
  let ?b = "takeWhile (\<lambda>ic. fst ic < LARGE_PROMPT_THRESHOLD) (char_indices body)"
  have "?b \<noteq> []" using assms
    by (cases "chars body") (auto simp: char_indices_def LARGE_PROMPT_THRESHOLD_def)
  then have "fst (last ?b) + length (snd (last ?b)) = length (concat (map snd ?b))"
    and "\<exists>zs. chars body = map snd ?b @ zs"
    using takeWhile_indices [of LARGE_PROMPT_THRESHOLD 0 "chars body" ?b] by (auto simp: char_indices_def)
  with \<open>?b \<noteq> []\<close> show ?thesis unfolding truncate_end_def Let_def by fastforce
qed

text \<open>
  Truncation of steered queries. A long interjection is cut after a whole number of
  characters, so no character is split, and what is kept is a prefix of the text.
\<close>

theorem truncate_query_whole_chars:
  "truncate_query body = body \<and> length body \<le> LARGE_PROMPT_THRESHOLD
   \<or> (\<exists>cs zs. chars body = cs @ zs \<and> truncate_query body = concat cs @ ''... [truncated]'')"
proof (cases "length body \<le> LARGE_PROMPT_THRESHOLD")
  case False
  then obtain cs zs where cs: "chars body = cs @ zs" "truncate_end body = length (concat cs)"
    using truncate_end_prefix [of body] by fastforce
  have "body = concat cs @ concat zs" using concat_chars [of body] cs(1) by simp
  then have "take (truncate_end body) body = concat cs" using cs(2) by (metis append_eq_conv_conj)
  then show ?thesis using False cs by (auto simp: truncate_query_def)
qed (simp add: truncate_query_def)

end
