(* ===== verification/Delivery_Identity.thy ===== *)
theory Delivery_Identity
  imports Rust_Text "HOL-Library.Word"
begin

text \<open>
  Envelopes, addresses and identities of \<open>crates/common/xai-message-delivery-core/src\<close>
  (\<open>envelope.rs\<close>, \<open>address.rs\<close>, \<open>identity.rs\<close>). The newtypes around
  \<open>String\<close> are one-constructor datatypes; entropy is a \<open>u128\<close> supplied by the
  host, an argument of every minting function.
\<close>

unbundle bit_operations_syntax

section \<open>Envelopes and operations\<close>

datatype Principal = Human | Agent | Runtime

datatype Operation = Queue | Steer | Interject | InterruptAndSend

record ('g, 'c, 'i) DeliveryEnvelope =
  principal :: Principal
  operation :: Operation
  env_content :: 'c
  env_identity :: 'i
  grant :: 'g

definition from_human :: "Operation \<Rightarrow> 'c \<Rightarrow> 'i \<Rightarrow> 'g \<Rightarrow> ('g, 'c, 'i) DeliveryEnvelope" where
  "from_human op c i g = \<lparr>principal = Human, operation = op, env_content = c, env_identity = i, grant = g\<rparr>"

definition from_agent :: "Operation \<Rightarrow> 'c \<Rightarrow> 'i \<Rightarrow> 'g \<Rightarrow> ('g, 'c, 'i) DeliveryEnvelope" where
  "from_agent op c i g = \<lparr>principal = Agent, operation = op, env_content = c, env_identity = i, grant = g\<rparr>"

definition into_parts :: "('g, 'c, 'i) DeliveryEnvelope \<Rightarrow> Operation \<times> 'c \<times> 'i \<times> 'g" where
  "into_parts e = (operation e, env_content e, env_identity e, grant e)"

datatype OperationSet = OperationSet (op_bits: "8 word")

definition QUEUE :: OperationSet where "QUEUE = OperationSet (push_bit 0 1)"
definition QUEUE_AND_STEER :: OperationSet where
  "QUEUE_AND_STEER = OperationSet (push_bit 0 1 OR push_bit 1 1)"
definition QUEUE_STEER_AND_INTERJECT :: OperationSet where
  "QUEUE_STEER_AND_INTERJECT = OperationSet ((push_bit 0 1 OR push_bit 1 1) OR push_bit 2 1)"

definition op_flag :: "Operation \<Rightarrow> 8 word" where
  "op_flag op = (case op of Queue \<Rightarrow> push_bit 0 1 | Steer \<Rightarrow> push_bit 1 1
     | Interject \<Rightarrow> push_bit 2 1 | InterruptAndSend \<Rightarrow> push_bit 3 1)"

definition contains_op :: "OperationSet \<Rightarrow> Operation \<Rightarrow> bool" where
  "contains_op s op \<longleftrightarrow> op_bits s AND op_flag op \<noteq> 0"

datatype AuthorizedOperation = AuthorizedOperation Operation
datatype UnsupportedOperation = UnsupportedOperation Operation

definition authorize_operation :: "OperationSet \<Rightarrow> Operation \<Rightarrow> UnsupportedOperation + AuthorizedOperation" where
  "authorize_operation allowed requested =
     (if contains_op allowed requested then Inr (AuthorizedOperation requested)
      else Inl (UnsupportedOperation requested))"

section \<open>Addresses\<close>

definition ADDRESS_PREFIX :: string where "ADDRESS_PREFIX = ''aa1.''"

datatype AgentAddress = AgentAddress (address_str: string)

definition mint_address :: "nat \<Rightarrow> AgentAddress" where
  "mint_address entropy = AgentAddress (ADDRESS_PREFIX @ show_hex entropy)"

definition is_presentable :: "string \<Rightarrow> bool" where
  "is_presentable token \<longleftrightarrow>
     token \<noteq> [] \<and> \<not> eq_ignore_ascii_case token ''null'' \<and> \<not> eq_ignore_ascii_case token ''none''
     \<and> \<not> eq_ignore_ascii_case token ''undefined''"

definition parse_address :: "string \<Rightarrow> AgentAddress option" where
  "parse_address token =
     (let token = trim token in if \<not> is_presentable token then None else Some (AgentAddress token))"

definition mint_child_address :: "bool \<Rightarrow> nat \<Rightarrow> AgentAddress option" where
  "mint_child_address workflow entropy = (if workflow then None else Some (mint_address entropy))"

definition advertised_address :: "string option \<Rightarrow> bool \<Rightarrow> string option" where
  "advertised_address stored workflow =
     (if workflow then None
      else case stored of
          Some token \<Rightarrow> (if parse_address token \<noteq> None then Some token else None)
        | None \<Rightarrow> None)"

datatype AddressPresence = Active | Pending | Gone

record AddressCandidate =
  stored_address :: "string option"
  session_id :: string
  owner_match :: bool
  generation_current :: bool
  workflow :: bool
  presence :: AddressPresence

datatype AddressDecision =
  Owned AddressPresence | RawSessionId | Foreign | Stale | WorkflowNotAddressable | Unresolved

definition resolve_address :: "string \<Rightarrow> AddressCandidate option \<Rightarrow> AddressDecision" where
  "resolve_address presented candidate =
     (case candidate of
        None \<Rightarrow> Unresolved
      | Some c \<Rightarrow>
          let presented = trim presented;
              address_match = (stored_address c = Some presented)
          in if session_id c = presented \<and> \<not> address_match then RawSessionId
             else if \<not> address_match then Unresolved
             else if workflow c then WorkflowNotAddressable
             else if \<not> owner_match c then Foreign
             else if \<not> generation_current c \<or> presence c = Gone then Stale
             else Owned (presence c))"

section \<open>Identities\<close>

definition AGENT_PREFIX :: string where "AGENT_PREFIX = ''ag1.''"
definition ATTEMPT_PREFIX :: string where "ATTEMPT_PREFIX = ''at1.''"
definition UUID_TOKEN_LEN :: usize where "UUID_TOKEN_LEN = 36"
definition UUID_HYPHENS :: "usize list" where "UUID_HYPHENS = [8, 13, 18, 23]"
definition UUID_V7_INDEX :: usize where "UUID_V7_INDEX = 14"
definition UUID_VARIANT_INDEX :: usize where "UUID_VARIANT_INDEX = 19"

datatype AgentId = AgentId (agent_str: string)
datatype AttemptId = AttemptId (attempt_str: string)

definition is_uuid_v7 :: "string \<Rightarrow> bool" where
  "is_uuid_v7 token \<longleftrightarrow>
     length token = UUID_TOKEN_LEN
     \<and> list_all (\<lambda>(index, byte). if index \<in> set UUID_HYPHENS then byte = CHR ''-'' else is_lower_hex byte)
         (enumerate 0 token)
     \<and> token ! UUID_V7_INDEX = CHR ''7''
     \<and> token ! UUID_VARIANT_INDEX \<in> set ''89ab''"

definition parse_prefixed :: "string \<Rightarrow> string \<Rightarrow> string option" where
  "parse_prefixed token pfx =
     (let token = trim token
      in case strip_prefix pfx token of
           None \<Rightarrow> None
         | Some rest \<Rightarrow> (if rest = [] \<or> \<not> list_all is_lower_hex rest then None else Some token))"

definition mint_agent :: "nat \<Rightarrow> AgentId" where
  "mint_agent entropy = AgentId (AGENT_PREFIX @ show_hex entropy)"

definition parse_agent :: "string \<Rightarrow> AgentId option" where
  "parse_agent token =
     (let token = trim token
      in if is_uuid_v7 token then Some (AgentId token)
         else map_option AgentId (parse_prefixed token AGENT_PREFIX))"

definition from_uuid_v7 :: "string \<Rightarrow> AgentId option" where
  "from_uuid_v7 token = (if is_uuid_v7 token then Some (AgentId token) else None)"

definition mint_attempt :: "nat \<Rightarrow> AttemptId" where
  "mint_attempt entropy = AttemptId (ATTEMPT_PREFIX @ show_hex entropy)"

definition parse_attempt :: "string \<Rightarrow> AttemptId option" where
  "parse_attempt token = map_option AttemptId (parse_prefixed token ATTEMPT_PREFIX)"

datatype IdentityAction =
  Start AgentId AttemptId | Resume AgentId AttemptId | Fork AgentId AttemptId

definition next_identity :: "AgentId option \<Rightarrow> bool \<Rightarrow> nat \<Rightarrow> nat \<Rightarrow> IdentityAction" where
  "next_identity previous fork agent_entropy attempt_entropy =
     (let attempt = mint_attempt attempt_entropy
      in case previous of
           None \<Rightarrow> Start (mint_agent agent_entropy) attempt
         | Some agent \<Rightarrow>
             if fork then Fork (mint_agent agent_entropy) attempt else Resume agent attempt)"

section \<open>Lemmas\<close>

lemma minted_trim:
  assumes "list_all token_char pfx"
  shows "trim (pfx @ show_hex n) = pfx @ show_hex n"
proof (rule trim_token)
  have "list_all token_char (show_hex n)"
    using show_hex_lower(1) [of n] token_hex by (auto simp: list_all_iff)
  with assms show "list_all token_char (pfx @ show_hex n)" by simp
qed

lemma prefix_tokens [simp]:
  "list_all token_char ADDRESS_PREFIX" "list_all token_char AGENT_PREFIX" "list_all token_char ATTEMPT_PREFIX"
  by (simp_all add: ADDRESS_PREFIX_def AGENT_PREFIX_def ATTEMPT_PREFIX_def token_char_def is_cont_def
      is_whitespace_def ws_chars_def)

lemma parse_prefixed_minted:
  "list_all token_char pfx \<Longrightarrow> parse_prefixed (pfx @ show_hex n) pfx = Some (pfx @ show_hex n)"
  by (simp add: parse_prefixed_def minted_trim strip_prefix_def Let_def)

lemma address_presentable:
  "is_presentable (ADDRESS_PREFIX @ r)" "is_presentable (AGENT_PREFIX @ r)" "is_presentable (ATTEMPT_PREFIX @ r)"
  by (simp_all add: is_presentable_def ADDRESS_PREFIX_def AGENT_PREFIX_def ATTEMPT_PREFIX_def
      eq_ignore_ascii_case_def to_ascii_lowercase_def to_ascii_lower_def)

lemma parse_prefixed_idem: "parse_prefixed t pfx = Some a \<Longrightarrow> parse_prefixed a pfx = Some a"
  by (auto simp: parse_prefixed_def Let_def split: option.splits if_splits)

lemma parse_prefixed_prefix: "parse_prefixed t pfx = Some a \<Longrightarrow> prefix pfx a"
  by (auto simp: parse_prefixed_def Let_def strip_prefix_def split: option.splits if_splits)

lemma uuid_v7_no_dot: "is_uuid_v7 t \<Longrightarrow> t ! 3 \<noteq> CHR ''.''"
proof -
  assume u: "is_uuid_v7 t"
  then have "(3, t ! 3) \<in> set (enumerate 0 t)"
    by (auto simp: is_uuid_v7_def UUID_TOKEN_LEN_def in_set_enumerate_eq)
  with u have "is_lower_hex (t ! 3)"
    by (auto simp: is_uuid_v7_def list_all_iff UUID_HYPHENS_def)
  then show ?thesis by (auto simp: is_lower_hex_def)
qed

lemma minted_not_uuid: "\<not> is_uuid_v7 (AGENT_PREFIX @ r)" "\<not> is_uuid_v7 (ATTEMPT_PREFIX @ r)"
  using uuid_v7_no_dot by (fastforce simp: AGENT_PREFIX_def ATTEMPT_PREFIX_def)+

section \<open>Properties\<close>

text \<open>
  C34: minted tokens. For every entropy: what each minting function produces is accepted back
  unchanged by its parser, and distinct entropies give distinct tokens. The parsers of agent and
  attempt ids refuse the tokens minted for the other two kinds. The address parser does not tell
  kinds apart: it accepts a minted agent or attempt id unchanged as an address, so a token's kind
  is decided by resolving it against the stored address and not by parsing it.
\<close>

theorem mint_parse_roundtrip:
  "parse_agent (agent_str (mint_agent n)) = Some (mint_agent n)
   \<and> parse_attempt (attempt_str (mint_attempt n)) = Some (mint_attempt n)
   \<and> parse_address (address_str (mint_address n)) = Some (mint_address n)
   \<and> (mint_agent n = mint_agent m \<longleftrightarrow> n = m) \<and> (mint_attempt n = mint_attempt m \<longleftrightarrow> n = m)
   \<and> (mint_address n = mint_address m \<longleftrightarrow> n = m)
   \<and> parse_agent (attempt_str (mint_attempt n)) = None
   \<and> parse_attempt (agent_str (mint_agent n)) = None
   \<and> parse_agent (address_str (mint_address n)) = None
   \<and> parse_attempt (address_str (mint_address n)) = None
   \<and> map_option address_str (parse_address (agent_str (mint_agent n))) = Some (agent_str (mint_agent n))
   \<and> map_option address_str (parse_address (attempt_str (mint_attempt n))) = Some (attempt_str (mint_attempt n))"
proof -
  have "parse_agent (agent_str (mint_agent n)) = Some (mint_agent n)"
    by (simp add: parse_agent_def mint_agent_def minted_trim minted_not_uuid parse_prefixed_minted)
  moreover have "parse_address (address_str (mint_address n)) = Some (mint_address n)"
    by (simp add: parse_address_def mint_address_def minted_trim address_presentable)
  moreover have "\<not> is_uuid_v7 (ADDRESS_PREFIX @ r)" for r
    using uuid_v7_no_dot by (fastforce simp: ADDRESS_PREFIX_def)
  moreover have "parse_prefixed (ADDRESS_PREFIX @ show_hex n) AGENT_PREFIX = None"
    "parse_prefixed (ADDRESS_PREFIX @ show_hex n) ATTEMPT_PREFIX = None"
    "parse_prefixed (AGENT_PREFIX @ show_hex n) ATTEMPT_PREFIX = None"
    "parse_prefixed (ATTEMPT_PREFIX @ show_hex n) AGENT_PREFIX = None"
    by (simp_all add: parse_prefixed_def minted_trim Let_def)
      (simp_all add: strip_prefix_def AGENT_PREFIX_def ATTEMPT_PREFIX_def ADDRESS_PREFIX_def)
  ultimately show ?thesis
    by (simp add: parse_agent_def parse_attempt_def mint_agent_def mint_attempt_def mint_address_def
        minted_trim minted_not_uuid parse_prefixed_minted Let_def parse_address_def address_presentable)
qed

text \<open>
  Presented tokens. A token accepted by any of the three parsers is stored trimmed and is
  accepted again unchanged, so the identity survives being written out and read back; a child
  of a workflow is never given or shown an address.
\<close>

theorem parse_idempotent:
  "(parse_agent t = Some a \<longrightarrow> parse_agent (agent_str a) = Some a)
   \<and> (parse_attempt t = Some b \<longrightarrow> parse_attempt (attempt_str b) = Some b)
   \<and> (parse_address t = Some c \<longrightarrow> parse_address (address_str c) = Some c \<and> address_str c = trim t)
   \<and> mint_child_address True n = None \<and> advertised_address s True = None"
proof -
  have tr: "parse_prefixed x p = Some y \<Longrightarrow> trim y = y" for x p y
    by (auto simp: parse_prefixed_def Let_def split: option.splits if_splits)
  have 1: "parse_agent t = Some a \<Longrightarrow> parse_agent (agent_str a) = Some a"
    using tr parse_prefixed_idem by (fastforce simp: parse_agent_def Let_def split: if_splits)
  have 2: "parse_attempt t = Some b \<Longrightarrow> parse_attempt (attempt_str b) = Some b"
    using parse_prefixed_idem by (fastforce simp: parse_attempt_def)
  have 3: "parse_address t = Some c \<Longrightarrow> parse_address (address_str c) = Some c \<and> address_str c = trim t"
    by (auto simp: parse_address_def Let_def split: if_splits)
  show ?thesis
    unfolding mint_child_address_def advertised_address_def if_True
    by (intro conjI impI refl) (erule 1 2 3 [THEN conjunct1] 3 [THEN conjunct2])+
qed

theorem parse_idempotent_witness:
  "parse_agent (agent_str (mint_agent 255)) = Some (mint_agent 255)
   \<and> parse_attempt (attempt_str (mint_attempt 7)) = Some (mint_attempt 7)
   \<and> parse_address (address_str (mint_address 7)) = Some (mint_address 7)"
proof -
  have "parse_agent (AGENT_PREFIX @ show_hex 255) = Some (mint_agent 255)"
    "parse_attempt (ATTEMPT_PREFIX @ show_hex 7) = Some (mint_attempt 7)"
    "parse_address (ADDRESS_PREFIX @ show_hex 7) = Some (mint_address 7)"
    by (simp_all add: parse_agent_def parse_attempt_def parse_address_def mint_agent_def
        mint_attempt_def mint_address_def minted_trim minted_not_uuid parse_prefixed_minted
        address_presentable)
  then show ?thesis using parse_idempotent by blast
qed

text \<open>
  C35: address resolution. A presented token is owned exactly when it is, trimmed, the stored
  address of a live, current, non-workflow child of the caller; a raw session id is reported
  as such only when it is not also the stored address; and a matching address is never
  reported as unresolved.
\<close>

theorem resolve_address_sound:
  "(resolve_address t (Some c) = Owned p \<longleftrightarrow>
      stored_address c = Some (trim t) \<and> \<not> workflow c \<and> owner_match c \<and> generation_current c
      \<and> presence c = p \<and> p \<noteq> Gone)
   \<and> (resolve_address t (Some c) = RawSessionId \<longleftrightarrow>
      session_id c = trim t \<and> stored_address c \<noteq> Some (trim t))
   \<and> (resolve_address t (Some c) = Unresolved \<longleftrightarrow>
      session_id c \<noteq> trim t \<and> stored_address c \<noteq> Some (trim t))
   \<and> resolve_address t None = Unresolved"
  by (auto simp: resolve_address_def Let_def)

text \<open>
  Authorization. The three grant levels authorize exactly their operations, in increasing
  order, and none of them an interrupt; a refusal carries the operation that was requested.
\<close>

theorem authorize_levels:
  "(authorize_operation QUEUE op = Inr (AuthorizedOperation op) \<longleftrightarrow> op = Queue)
   \<and> (authorize_operation QUEUE_AND_STEER op = Inr (AuthorizedOperation op) \<longleftrightarrow> op \<in> {Queue, Steer})
   \<and> (authorize_operation QUEUE_STEER_AND_INTERJECT op = Inr (AuthorizedOperation op) \<longleftrightarrow>
        op \<noteq> InterruptAndSend)
   \<and> (\<forall>s. authorize_operation s op \<in> {Inl (UnsupportedOperation op), Inr (AuthorizedOperation op)})
   \<and> into_parts (from_agent op content ident g) = (op, content, ident, g)
   \<and> principal (from_agent op content ident g) = Agent"
  by (cases op)
    (simp_all add: authorize_operation_def contains_op_def QUEUE_def QUEUE_AND_STEER_def
      QUEUE_STEER_AND_INTERJECT_def op_flag_def into_parts_def from_agent_def)

end
