(* ===== verification/Delivery_Lifecycle.thy ===== *)
theory Delivery_Lifecycle
  imports Prelude
begin

text \<open>
  Turn-bound ownership of messages, \<open>crates/common/xai-message-delivery-core/src/lifecycle.rs\<close>.
  The type parameters of the source are type variables. \<open>commit\<close>, the caller's closure,
  is an argument of \<open>finish_delivery\<close>; every failure is the left side of a sum.
\<close>

section \<open>Messages, slots, terminal causes\<close>

record ('p, 'e) TurnBinding =
  prompt_id :: 'p
  epoch :: 'e

record ('i, 's, 'c) DeliveryMessage =
  identity :: 'i
  source :: 's
  content :: 'c

record ('i, 's, 'c, 'k, 'p, 'e) OwnedDelivery =
  binding :: "('p, 'e) TurnBinding"
  message :: "('i, 's, 'c) DeliveryMessage"
  completion :: 'k

datatype ('i, 's, 'c, 'k, 'p, 'e) DeliverySlot =
  Pending (owned: "('i, 's, 'c, 'k, 'p, 'e) OwnedDelivery")
| Projecting (owned: "('i, 's, 'c, 'k, 'p, 'e) OwnedDelivery")
| Delivered (owned: "('i, 's, 'c, 'k, 'p, 'e) OwnedDelivery")

datatype TerminalCause = Completion | SoftCancel | Rewind | HardTeardown | ActorDrop

definition falls_back :: "TerminalCause \<Rightarrow> bool" where
  "falls_back c \<longleftrightarrow> c \<in> {Completion, SoftCancel, Rewind}"

datatype ('p, 'e) TerminalTarget = Turn "('p, 'e) TurnBinding" | All

record ('i, 's, 'c, 'k, 'p, 'e) TerminalTransition =
  fallbacks :: "('i, 's, 'c, 'k, 'p, 'e) OwnedDelivery list"
  completions :: "('i, 's, 'c, 'k, 'p, 'e) OwnedDelivery list"

record ('i, 's, 'c, 'k, 'p, 'e) MessageDeliveryLifecycle =
  slots :: "('i, 's, 'c, 'k, 'p, 'e) DeliverySlot list"

definition new_lifecycle :: "('i, 's, 'c, 'k, 'p, 'e) MessageDeliveryLifecycle" where
  "new_lifecycle = \<lparr>slots = []\<rparr>"

section \<open>Operations\<close>

definition contains_identity :: "'i \<Rightarrow> ('i, 's, 'c, 'k, 'p, 'e) MessageDeliveryLifecycle \<Rightarrow> bool" where
  "contains_identity i l \<longleftrightarrow> list_ex (\<lambda>slot. identity (message (owned slot)) = i) (slots l)"

definition admit_pending ::
    "('p, 'e) TurnBinding \<Rightarrow> ('i, 's, 'c) DeliveryMessage \<Rightarrow> 'k
       \<Rightarrow> ('i, 's, 'c, 'k, 'p, 'e) MessageDeliveryLifecycle
       \<Rightarrow> (('i, 's, 'c) DeliveryMessage + unit) \<times> ('i, 's, 'c, 'k, 'p, 'e) MessageDeliveryLifecycle" where
  "admit_pending b m k l =
     (if list_ex (\<lambda>slot. identity (message (owned slot)) = identity m) (slots l) then (Inl m, l)
      else (Inr (), l\<lparr>slots := slots l @ [Pending \<lparr>binding = b, message = m, completion = k\<rparr>]\<rparr>))"

fun pending_message ::
    "('p, 'e) TurnBinding \<Rightarrow> ('i, 's, 'c, 'k, 'p, 'e) DeliverySlot \<Rightarrow> ('i, 's, 'c) DeliveryMessage option" where
  "pending_message b (Pending d) = (if binding d = b then Some (message d) else None)"
| "pending_message b _ = None"

definition pending_messages ::
    "('p, 'e) TurnBinding \<Rightarrow> ('i, 's, 'c, 'k, 'p, 'e) MessageDeliveryLifecycle \<Rightarrow> ('i, 's, 'c) DeliveryMessage list" where
  "pending_messages b l = List.map_filter (pending_message b) (slots l)"

fun project_slot ::
    "('p, 'e) TurnBinding \<Rightarrow> ('i, 's, 'c, 'k, 'p, 'e) DeliverySlot \<Rightarrow> ('i, 's, 'c, 'k, 'p, 'e) DeliverySlot" where
  "project_slot b (Pending d) = (if binding d = b then Projecting d else Pending d)"
| "project_slot b slot = slot"

definition begin_delivery ::
    "('p, 'e) TurnBinding \<Rightarrow> ('i, 's, 'c, 'k, 'p, 'e) MessageDeliveryLifecycle
       \<Rightarrow> ('i, 's, 'c) DeliveryMessage list \<times> ('i, 's, 'c, 'k, 'p, 'e) MessageDeliveryLifecycle" where
  "begin_delivery b l =
     (let messages = pending_messages b l
      in if messages = [] then (messages, l)
         else (messages, l\<lparr>slots := map (project_slot b) (slots l)\<rparr>))"

fun projecting_message ::
    "('p, 'e) TurnBinding \<Rightarrow> ('i, 's, 'c, 'k, 'p, 'e) DeliverySlot \<Rightarrow> ('i, 's, 'c) DeliveryMessage option" where
  "projecting_message b (Projecting d) = (if binding d = b then Some (message d) else None)"
| "projecting_message b _ = None"

fun deliver_slot ::
    "('p, 'e) TurnBinding \<Rightarrow> ('i, 's, 'c, 'k, 'p, 'e) DeliverySlot \<Rightarrow> ('i, 's, 'c, 'k, 'p, 'e) DeliverySlot" where
  "deliver_slot b (Projecting d) = (if binding d = b then Delivered d else Projecting d)"
| "deliver_slot b slot = slot"

definition finish_delivery ::
    "('p, 'e) TurnBinding \<Rightarrow> (('i, 's, 'c) DeliveryMessage list \<Rightarrow> 'err + unit)
       \<Rightarrow> ('i, 's, 'c, 'k, 'p, 'e) MessageDeliveryLifecycle
       \<Rightarrow> ('err + ('i, 's, 'c) DeliveryMessage list) \<times> ('i, 's, 'c, 'k, 'p, 'e) MessageDeliveryLifecycle" where
  "finish_delivery b commit l =
     (let messages = List.map_filter (projecting_message b) (slots l)
      in if messages = [] then (Inr messages, l)
         else case commit messages of
             Inl err \<Rightarrow> (Inl err, l)
           | Inr _ \<Rightarrow> (Inr messages, l\<lparr>slots := map (deliver_slot b) (slots l)\<rparr>))"

fun targets :: "('p, 'e) TerminalTarget \<Rightarrow> ('i, 's, 'c, 'k, 'p, 'e) DeliverySlot \<Rightarrow> bool" where
  "targets (Turn b) slot = (binding (owned slot) = b)"
| "targets All slot = True"

fun transition_slots ::
    "('p, 'e) TerminalTarget \<Rightarrow> TerminalCause \<Rightarrow> ('i, 's, 'c, 'k, 'p, 'e) DeliverySlot list
       \<Rightarrow> ('i, 's, 'c, 'k, 'p, 'e) DeliverySlot list \<times> ('i, 's, 'c, 'k, 'p, 'e) TerminalTransition" where
  "transition_slots tgt cause [] = ([], \<lparr>fallbacks = [], completions = []\<rparr>)"
| "transition_slots tgt cause (slot # rest) =
     (let (kept, tr) = transition_slots tgt cause rest
      in if \<not> targets tgt slot then (slot # kept, tr)
         else case slot of
             Pending d \<Rightarrow>
               (if falls_back cause then (kept, tr\<lparr>fallbacks := d # fallbacks tr\<rparr>)
                else (kept, tr\<lparr>completions := d # completions tr\<rparr>))
           | Projecting d \<Rightarrow> (kept, tr\<lparr>completions := d # completions tr\<rparr>)
           | Delivered d \<Rightarrow> (kept, tr\<lparr>completions := d # completions tr\<rparr>))"

definition transition ::
    "('p, 'e) TerminalTarget \<Rightarrow> TerminalCause \<Rightarrow> ('i, 's, 'c, 'k, 'p, 'e) MessageDeliveryLifecycle
       \<Rightarrow> ('i, 's, 'c, 'k, 'p, 'e) TerminalTransition \<times> ('i, 's, 'c, 'k, 'p, 'e) MessageDeliveryLifecycle" where
  "transition tgt cause l =
     (case transition_slots tgt cause (slots l) of (kept, tr) \<Rightarrow> (tr, l\<lparr>slots := kept\<rparr>))"

section \<open>Facts about the slot lists\<close>

lemma owned_project [simp]: "owned (project_slot b s) = owned s"
  by (cases s) auto

lemma owned_deliver [simp]: "owned (deliver_slot b s) = owned s"
  by (cases s) auto

lemma map_owned_project [simp]: "map (owned \<circ> project_slot b) ss = map owned ss"
  "map (\<lambda>s. owned (project_slot b s)) ss = map owned ss"
  by (auto simp: o_def)

lemma map_owned_deliver [simp]: "map (owned \<circ> deliver_slot b) ss = map owned ss"
  by (auto simp: o_def)

lemma image_mset_deliver [simp]:
  "image_mset owned (image_mset (deliver_slot b) M) = image_mset owned M"
  by (simp add: multiset.map_comp o_def)

lemma owned_begin: "map owned (slots (snd (begin_delivery b l))) = map owned (slots l)"
  by (simp add: begin_delivery_def Let_def)

lemma owned_finish: "map owned (slots (snd (finish_delivery b commit l))) = map owned (slots l)"
  by (simp add: finish_delivery_def Let_def split: sum.split)

lemma transition_slots_spec:
  "transition_slots tgt cause ss =
     (filter (\<lambda>s. \<not> targets tgt s) ss,
      \<lparr>fallbacks = map owned (filter (\<lambda>s. targets tgt s \<and> is_Pending s \<and> falls_back cause) ss),
       completions = map owned (filter (\<lambda>s. targets tgt s \<and> \<not> (is_Pending s \<and> falls_back cause)) ss)\<rparr>)"
  by (induction ss) (auto split: DeliverySlot.splits)

lemma mset_transition_slots:
  "transition_slots tgt cause ss = (kept, tr) \<Longrightarrow>
     mset (map owned kept) + mset (fallbacks tr) + mset (completions tr) = mset (map owned ss)"
proof (induction ss arbitrary: kept tr)
  case (Cons s ss)
  obtain kept' tr' where r: "transition_slots tgt cause ss = (kept', tr')" by fastforce
  show ?case using Cons.IH [OF r] Cons.prems r by (auto split: if_splits DeliverySlot.splits)
qed simp

definition undelivered ::
    "('i, 's, 'c, 'k, 'p, 'e) DeliverySlot list \<Rightarrow> ('i, 's, 'c) DeliveryMessage list" where
  "undelivered ss = map (message \<circ> owned) (filter (\<lambda>s. \<not> is_Delivered s) ss)"

lemma undelivered_simps [simp]:
  "undelivered [] = []"
  "undelivered (s # ss) = (if is_Delivered s then [] else [message (owned s)]) @ undelivered ss"
  "undelivered (ss @ ts) = undelivered ss @ undelivered ts"
  by (simp_all add: undelivered_def)

lemma undelivered_project: "undelivered (map (project_slot b) ss) = undelivered ss"
proof (induction ss)
  case (Cons s ss)
  then show ?case by (cases s) auto
qed simp

lemma undelivered_deliver:
  "mset (List.map_filter (projecting_message b) ss) + mset (undelivered (map (deliver_slot b) ss)) =
     mset (undelivered ss)"
proof (induction ss)
  case (Cons s ss)
  then show ?case by (cases s) (auto simp: List.map_filter_def)
qed (simp add: List.map_filter_def)

lemma undelivered_transition:
  "transition_slots tgt cause ss = (kept, tr) \<Longrightarrow>
     mset (map message (fallbacks tr)) + mset (undelivered kept) \<subseteq># mset (undelivered ss)"
proof (induction ss arbitrary: kept tr)
  case (Cons s ss)
  obtain kept' tr' where r: "transition_slots tgt cause ss = (kept', tr')" by fastforce
  have "A \<subseteq># B \<Longrightarrow> A \<subseteq># add_mset x B" for A B :: "('a, 'b, 'c) DeliveryMessage multiset" and x
    by (metis add_mset_add_single mset_subset_eq_add_left subset_mset.order_trans)
  then show ?case using Cons.IH [OF r] Cons.prems r
    by (auto split: if_splits DeliverySlot.splits)
qed simp

section \<open>Runs of a session\<close>

text \<open>
  \<open>session\<close> adds to the lifecycle what has happened so far: the deliveries admitted, the
  messages committed to the conversation, and the deliveries handed back by transitions.
\<close>

record ('i, 's, 'c, 'k, 'p, 'e) session =
  life :: "('i, 's, 'c, 'k, 'p, 'e) MessageDeliveryLifecycle"
  admitted :: "('i, 's, 'c, 'k, 'p, 'e) OwnedDelivery list"
  committed :: "('i, 's, 'c) DeliveryMessage list"
  fell_back :: "('i, 's, 'c, 'k, 'p, 'e) OwnedDelivery list"
  completed :: "('i, 's, 'c, 'k, 'p, 'e) OwnedDelivery list"

datatype ('i, 's, 'c, 'k, 'p, 'e) life_op =
  Admit "('p, 'e) TurnBinding" "('i, 's, 'c) DeliveryMessage" 'k
| Begin "('p, 'e) TurnBinding"
| Finish "('p, 'e) TurnBinding" "('i, 's, 'c) DeliveryMessage list \<Rightarrow> bool"
| Transition "('p, 'e) TerminalTarget" TerminalCause

definition commit_of :: "('m \<Rightarrow> bool) \<Rightarrow> 'm \<Rightarrow> unit + unit" where
  "commit_of ok ms = (if ok ms then Inr () else Inl ())"

fun life_step :: "('i, 's, 'c, 'k, 'p, 'e) life_op \<Rightarrow> ('i, 's, 'c, 'k, 'p, 'e) session \<Rightarrow> ('i, 's, 'c, 'k, 'p, 'e) session" where
  "life_step (Admit b m k) r =
     (case admit_pending b m k (life r) of
        (Inl _, l) \<Rightarrow> r\<lparr>life := l\<rparr>
      | (Inr _, l) \<Rightarrow> r\<lparr>life := l, admitted := admitted r @ [\<lparr>binding = b, message = m, completion = k\<rparr>]\<rparr>)"
| "life_step (Begin b) r = r\<lparr>life := snd (begin_delivery b (life r))\<rparr>"
| "life_step (Finish b ok) r =
     (case finish_delivery b (commit_of ok) (life r) of
        (Inl _, l) \<Rightarrow> r\<lparr>life := l\<rparr>
      | (Inr ms, l) \<Rightarrow> r\<lparr>life := l, committed := committed r @ ms\<rparr>)"
| "life_step (Transition tgt cause) r =
     (case transition tgt cause (life r) of (tr, l) \<Rightarrow>
        r\<lparr>life := l, fell_back := fell_back r @ fallbacks tr, completed := completed r @ completions tr\<rparr>)"

definition new_session :: "('i, 's, 'c, 'k, 'p, 'e) session" where
  "new_session = \<lparr>life = new_lifecycle, admitted = [], committed = [], fell_back = [], completed = []\<rparr>"

definition identities :: "('i, 's, 'c, 'k, 'p, 'e) DeliverySlot list \<Rightarrow> 'i list" where
  "identities ss = map (identity \<circ> message) (map owned ss)"

definition session_ok :: "('i, 's, 'c, 'k, 'p, 'e) session \<Rightarrow> bool" where
  "session_ok r \<longleftrightarrow>
     distinct (identities (slots (life r)))
     \<and> mset (map owned (slots (life r))) + mset (fell_back r) + mset (completed r) = mset (admitted r)
     \<and> mset (committed r) + mset (map message (fell_back r)) + mset (undelivered (slots (life r)))
         \<subseteq># mset (map message (admitted r))"

lemma session_ok_admit: "session_ok r \<Longrightarrow> session_ok (life_step (Admit b m k) r)"
  by (auto simp: session_ok_def admit_pending_def identities_def list_ex_iff add.assoc)

lemma session_ok_begin: "session_ok r \<Longrightarrow> session_ok (life_step (Begin b) r)"
proof -
  have "undelivered (slots (snd (begin_delivery b l))) = undelivered (slots l)"
    for l :: "('a, 'b, 'c, 'd, 'e, 'f) MessageDeliveryLifecycle"
    by (simp add: begin_delivery_def Let_def undelivered_project)
  then show "session_ok r \<Longrightarrow> session_ok (life_step (Begin b) r)"
    by (simp add: session_ok_def identities_def owned_begin)
qed

lemma session_ok_finish:
  assumes "session_ok r" shows "session_ok (life_step (Finish b ok) r)"
proof -
  let ?ss = "slots (life r)"
  let ?ms = "List.map_filter (projecting_message b) ?ss"
  have "mset (committed r) + mset ?ms + mset (map message (fell_back r))
        + mset (undelivered (map (deliver_slot b) ?ss)) \<subseteq># mset (map message (admitted r))"
    using assms undelivered_deliver [of b ?ss] by (simp add: session_ok_def ac_simps)
  with assms show ?thesis
    by (auto simp: session_ok_def identities_def finish_delivery_def Let_def commit_of_def ac_simps o_def)
qed

lemma session_ok_transition:
  assumes "session_ok r" shows "session_ok (life_step (Transition tgt cause) r)"
proof -
  obtain kept tr where t: "transition_slots tgt cause (slots (life r)) = (kept, tr)" by fastforce
  have "kept = filter (\<lambda>s. \<not> targets tgt s) (slots (life r))"
    using t by (simp add: transition_slots_spec)
  then have "distinct (identities kept)"
    using assms by (simp add: session_ok_def identities_def distinct_map_filter)
  moreover have "mset (map owned kept) + mset (fell_back r @ fallbacks tr) + mset (completed r @ completions tr)
      = mset (admitted r)"
    using assms mset_transition_slots [OF t, symmetric] by (simp add: session_ok_def ac_simps)
  moreover have "mset (committed r) + mset (map message (fell_back r @ fallbacks tr)) + mset (undelivered kept)
      \<subseteq># mset (map message (admitted r))"
  proof -
    have "mset (committed r) + mset (map message (fell_back r @ fallbacks tr)) + mset (undelivered kept)
      = mset (committed r) + mset (map message (fell_back r))
        + (mset (map message (fallbacks tr)) + mset (undelivered kept))"
      by (simp add: ac_simps)
    also have "\<dots> \<subseteq># mset (committed r) + mset (map message (fell_back r)) + mset (undelivered (slots (life r)))"
      using undelivered_transition [OF t] by (intro subset_mset.add_left_mono)
    also have "\<dots> \<subseteq># mset (map message (admitted r))" using assms by (simp add: session_ok_def)
    finally show ?thesis .
  qed
  ultimately show ?thesis by (simp add: t transition_def session_ok_def)
qed

lemma session_ok_step: "session_ok r \<Longrightarrow> session_ok (life_step e r)"
  by (cases e) (simp_all only: session_ok_admit session_ok_begin session_ok_finish session_ok_transition)

interpretation dl: op_system life_step session_ok
  by unfold_locales (rule session_ok_step)

lemma session_ok_new: "session_ok new_session"
  by (simp add: session_ok_def new_session_def new_lifecycle_def identities_def)

section \<open>Properties\<close>

text \<open>
  C4: nothing is lost and nothing is delivered twice. In any history of a session, whatever
  the bindings, commit failures and terminal causes: the deliveries admitted are exactly the
  ones still owned together with the ones handed back as fallbacks or completions; a message
  is committed or falls back at most once per admission, never both; and no two owned
  deliveries share an identity.
\<close>

theorem delivery_exactly_once:
  "let r = fold life_step es new_session
   in mset (admitted r) = mset (map owned (slots (life r))) + mset (fell_back r) + mset (completed r)
      \<and> mset (committed r) + mset (map message (fell_back r)) \<subseteq># mset (map message (admitted r))
      \<and> distinct (map (identity \<circ> message \<circ> owned) (slots (life r)))"
proof -
  have "session_ok (fold life_step es new_session)" by (rule dl.run_inv) (rule session_ok_new)
  then show ?thesis
    by (auto simp: session_ok_def Let_def identities_def o_assoc
        intro: subset_mset.order_trans [OF mset_subset_eq_add_left])
qed

lemma map_filter_project:
  "List.map_filter (projecting_message b) (map (project_slot b) ss) = [] \<longleftrightarrow>
     List.map_filter (pending_message b) ss = [] \<and> List.map_filter (projecting_message b) ss = []"
proof (induction ss)
  case (Cons s ss)
  then show ?case by (cases s) (auto simp: List.map_filter_def)
qed (simp add: List.map_filter_def)

lemma map_filter_delivered [simp]:
  "List.map_filter (projecting_message b) (map (deliver_slot b) ss) = []"
proof (induction ss)
  case (Cons s ss)
  then show ?case by (cases s) (auto simp: List.map_filter_def)
qed (simp add: List.map_filter_def)

lemma map_filter_projecting:
  "List.map_filter (projecting_message b) ss = [] \<Longrightarrow>
     List.map_filter (projecting_message b) (map (project_slot b) ss) = List.map_filter (pending_message b) ss"
proof (induction ss)
  case (Cons s ss)
  then show ?case by (cases s) (auto simp: List.map_filter_def split: if_splits)
qed (simp add: List.map_filter_def)

text \<open>
  C19: projection of a turn. Beginning delivery hands out the pending messages of that turn in
  admission order and nothing of other turns; if the commit then fails, the error is returned
  and the state is kept so that a later attempt commits the same messages; once a commit
  succeeds they are returned and a repeated \<open>finish_delivery\<close> commits nothing again.
\<close>

theorem begin_then_finish:
  assumes "List.map_filter (projecting_message b) (slots l) = []"
    and "begin_delivery b l = (ms, l1)"
  shows "ms = map (message \<circ> owned) (filter (\<lambda>s. is_Pending s \<and> binding (owned s) = b) (slots l))
         \<and> (\<forall>commit err. ms \<noteq> [] \<and> commit ms = Inl err \<longrightarrow> finish_delivery b commit l1 = (Inl err, l1))
         \<and> (\<forall>commit. commit ms = Inr () \<longrightarrow>
              (\<exists>l2. finish_delivery b commit l1 = (Inr ms, l2)
                 \<and> (\<forall>commit'. finish_delivery b commit' l2 = (Inr [], l2))))"
proof -
  have ms: "ms = List.map_filter (pending_message b) (slots l)"
    using assms(2) by (simp add: begin_delivery_def pending_messages_def Let_def split: if_splits)
  have l1: "List.map_filter (projecting_message b) (slots l1) = ms"
    using assms by (auto simp: begin_delivery_def pending_messages_def Let_def ms map_filter_projecting
        split: if_splits)
  have "List.map_filter (pending_message b) ss =
      map (message \<circ> owned) (filter (\<lambda>s. is_Pending s \<and> binding (owned s) = b) ss)"
    for ss :: "('a, 'b, 'c, 'd, 'e, 'f) DeliverySlot list"
  proof (induction ss)
    case (Cons s ss)
    then show ?case by (cases s) (auto simp: List.map_filter_def)
  qed (simp add: List.map_filter_def)
  then show ?thesis
    using l1 by (auto simp: finish_delivery_def Let_def ms)
qed

theorem begin_then_finish_witness:
  "let b = \<lparr>prompt_id = (1::nat), epoch = (0::nat)\<rparr>; m = \<lparr>identity = (7::nat), source = (), content = ''hi''\<rparr>;
       l = snd (admit_pending b m () new_lifecycle)
   in fst (begin_delivery b l) = [m]
      \<and> fst (finish_delivery b (\<lambda>_. Inl ''disk'') (snd (begin_delivery b l))) = Inl ''disk''
      \<and> fst (finish_delivery b (\<lambda>_. Inr () :: string + unit) (snd (begin_delivery b l))) = Inr [m]"
proof -
  let ?b = "\<lparr>prompt_id = (1::nat), epoch = (0::nat)\<rparr>"
  let ?m = "\<lparr>identity = (7::nat), source = (), content = ''hi''\<rparr>"
  let ?l = "snd (admit_pending ?b ?m () new_lifecycle)"
  have p: "List.map_filter (projecting_message ?b) (slots ?l) = []"
    and q: "filter (\<lambda>s. is_Pending s \<and> binding (owned s) = ?b) (slots ?l) = slots ?l"
      "map (message \<circ> owned) (slots ?l) = [?m]"
    by (simp_all add: admit_pending_def new_lifecycle_def List.map_filter_def)
  obtain ms l1 where b: "begin_delivery ?b ?l = (ms, l1)" by (cases "begin_delivery ?b ?l")
  have err: "\<forall>commit (err :: string). ms \<noteq> [] \<and> commit ms = Inl err \<longrightarrow> finish_delivery ?b commit l1 = (Inl err, l1)"
    and ok: "\<forall>commit. (commit ms :: string + unit) = Inr () \<longrightarrow> (\<exists>l2. finish_delivery ?b commit l1 = (Inr ms, l2))"
    and ms: "ms = [?m]"
    using begin_then_finish [OF p b] q by auto
  have "fst (finish_delivery ?b (\<lambda>_. Inr () :: string + unit) l1) = Inr [?m]"
    using ok ms by (metis fst_conv)
  moreover have "fst (finish_delivery ?b (\<lambda>_. Inl ''disk'') l1) = Inl ''disk''"
    using err ms by simp
  ultimately show ?thesis using b ms by (simp add: Let_def)
qed

text \<open>
  C20: terminal transitions. Ending a turn removes exactly the deliveries bound to it and
  leaves every other delivery in place and in order; only deliveries never projected fall
  back, and only for causes that keep the conversation alive; tearing everything down leaves
  nothing owned.
\<close>

theorem transition_partition:
  "let (tr, l') = transition tgt cause l
   in slots l' = filter (\<lambda>s. \<not> targets tgt s) (slots l)
      \<and> fallbacks tr = (if cause \<in> {HardTeardown, ActorDrop} then []
                        else map owned (filter (\<lambda>s. targets tgt s \<and> is_Pending s) (slots l)))
      \<and> set (completions tr) =
          owned ` {s \<in> set (slots l). targets tgt s \<and> (if is_Pending s then cause \<in> {HardTeardown, ActorDrop} else True)}
      \<and> slots (snd (transition All cause l)) = []"
proof -
  have "falls_back cause \<longleftrightarrow> cause \<notin> {HardTeardown, ActorDrop}"
    by (cases cause) (auto simp: falls_back_def)
  then show ?thesis by (auto simp: transition_def transition_slots_spec Let_def)
qed

end
