(* ===== verification/Prompt_Queue.thy ===== *)
theory Prompt_Queue
  imports Rust_Text
begin

text \<open>
  The merge rules of \<open>crates/codegen/xai-prompt-queue/src\<close>: queue rows
  (\<open>types.rs\<close>) and which queued follow-ups are combined into one turn
  (\<open>combine.rs\<close>). JSON objects are maps from keys to values.
\<close>

section \<open>Queue rows\<close>

definition COMBINED_DISPLAY_TEXTS_META :: string where
  "COMBINED_DISPLAY_TEXTS_META = ''combinedDisplayTexts''"

record QueueEntryMeta =
  qm_id :: string
  qm_version :: u64
  qm_owner :: "string option"
  qm_last_editor :: "string option"
  qm_kind :: string
  qm_text :: string
  qm_combined_texts :: "string list option"

record QueueEntryWire =
  qw_id :: string
  qw_version :: u64
  qw_owner :: "string option"
  qw_last_editor :: "string option"
  qw_kind :: string
  qw_text :: string
  qw_combined_texts :: "string list option"
  qw_position :: usize

record QueueChanged =
  qc_session_id :: string
  qc_entries :: "QueueEntryWire list"
  qc_running_prompt_id :: "string option"
  qc_running_text :: "string option"
  qc_running_kind :: "string option"
  qc_running_combined_texts :: "string list option"

section \<open>Combining\<close>

definition TEXT_SEPARATOR :: string where "TEXT_SEPARATOR = [CHR 0x0A, CHR 0x0A]"

record CombineGate =
  gate_id :: string
  is_plain_prompt :: bool
  is_synthetic :: bool
  is_expanded_skill :: bool
  is_bash :: bool
  has_images :: bool
  gate_text :: string

definition can_merge_front :: "CombineGate \<Rightarrow> bool" where
  "can_merge_front g \<longleftrightarrow>
     is_plain_prompt g \<and> \<not> is_synthetic g \<and> \<not> is_expanded_skill g \<and> \<not> is_bash g \<and> gate_text g \<noteq> []"

definition can_merge_follower :: "CombineGate \<Rightarrow> string list \<Rightarrow> bool" where
  "can_merge_follower g skip_ids \<longleftrightarrow>
     can_merge_front g \<and> \<not> has_images g \<and> gate_id g \<notin> set skip_ids"

fun follower_loop :: "CombineGate list \<Rightarrow> string list \<Rightarrow> usize \<Rightarrow> usize" where
  "follower_loop [] skip_ids n = n"
| "follower_loop (next # iter) skip_ids n =
     (if \<not> can_merge_follower next skip_ids then n else follower_loop iter skip_ids (n + 1))"

definition combine_prefix_len :: "CombineGate list \<Rightarrow> string list \<Rightarrow> usize" where
  "combine_prefix_len items skip_ids =
     (case items of
        [] \<Rightarrow> 0
      | front # iter \<Rightarrow> if \<not> can_merge_front front then 1 else follower_loop iter skip_ids 1)"

definition join_texts :: "string list \<Rightarrow> string" where
  "join_texts texts = join TEXT_SEPARATOR (filter (\<lambda>t. t \<noteq> []) texts)"

definition is_combined :: "string list \<Rightarrow> bool" where
  "is_combined segs \<longleftrightarrow> 2 \<le> length segs"

datatype json = JString string | JArray "json list"

definition stamp_combined_display_texts :: "(string \<rightharpoonup> json) \<Rightarrow> string list \<Rightarrow> (string \<rightharpoonup> json)" where
  "stamp_combined_display_texts meta segs =
     (if \<not> is_combined segs then meta
      else meta(COMBINED_DISPLAY_TEXTS_META \<mapsto> JArray (map JString segs)))"

section \<open>Properties\<close>

lemma follower_loop_spec:
  "follower_loop gs skip n = n + length (takeWhile (\<lambda>g. can_merge_follower g skip) gs)"
  by (induction gs arbitrary: n) auto

definition mergeable_run :: "CombineGate list \<Rightarrow> string list \<Rightarrow> bool" where
  "mergeable_run gs skip \<longleftrightarrow>
     (case gs of [] \<Rightarrow> False | f # fs \<Rightarrow> can_merge_front f \<and> list_all (\<lambda>g. can_merge_follower g skip) fs)"

text \<open>
  C33: the combined prefix is the longest legal one. The promoted run always takes the front
  row and never skips over a row; when it takes more than one row, all of them may merge;
  and no longer prefix may merge.
\<close>

theorem combine_prefix_maximal:
  assumes "items \<noteq> []"
  shows "let n = combine_prefix_len items skip
         in 1 \<le> n \<and> n \<le> length items
            \<and> (n = 1 \<or> mergeable_run (take n items) skip)
            \<and> (\<forall>m. n < m \<and> m \<le> length items \<longrightarrow> \<not> mergeable_run (take m items) skip)"
proof -
  obtain f fs where items: "items = f # fs" using assms by (cases items) auto
  let ?P = "\<lambda>g. can_merge_follower g skip"
  show ?thesis
  proof (cases "can_merge_front f")
    case True
    let ?k = "length (takeWhile ?P fs)"
    have n: "combine_prefix_len (f # fs) skip = Suc ?k"
      using True by (simp add: combine_prefix_len_def follower_loop_spec)
    have "list_all ?P (take ?k fs)"
      by (metis list_all_iff set_takeWhileD takeWhile_eq_take)
    moreover have "\<not> list_all ?P (take m fs)" if "?k < m" "m \<le> length fs" for m
    proof -
      have "?k < length fs" using that by simp
      then have "\<not> ?P (fs ! ?k)" by (rule nth_length_takeWhile)
      moreover have "fs ! ?k \<in> set (take m fs)"
        using that by (auto simp: in_set_conv_nth intro!: exI [of _ ?k])
      ultimately show ?thesis by (auto simp: list_all_iff)
    qed
    ultimately show ?thesis
      using True length_takeWhile_le [of ?P fs]
      by (auto simp: n items mergeable_run_def take_Cons Let_def split: nat.splits)
  next
    case False
    then have n: "combine_prefix_len (f # fs) skip = 1" by (simp add: combine_prefix_len_def)
    show ?thesis using False by (auto simp: n items mergeable_run_def take_Cons' Let_def)
  qed
qed

definition gate :: "string \<Rightarrow> bool \<Rightarrow> CombineGate" where
  "gate i img = \<lparr>gate_id = i, is_plain_prompt = True, is_synthetic = False, is_expanded_skill = False,
                 is_bash = False, has_images = img, gate_text = ''x''\<rparr>"

theorem combine_prefix_maximal_witness:
  "combine_prefix_len [gate ''a'' True, gate ''b'' False, gate ''c'' True] [] = 2
   \<and> mergeable_run [gate ''a'' True, gate ''b'' False] []"
proof -
  let ?gs = "[gate ''a'' True, gate ''b'' False, gate ''c'' True]"
  have n: "combine_prefix_len ?gs [] = 2"
    by (simp add: combine_prefix_len_def can_merge_front_def can_merge_follower_def gate_def)
  show ?thesis
    using combine_prefix_maximal [of ?gs "[]"] n by (simp add: Let_def numeral_2_eq_2)
qed

text \<open>
  The joined body. No text is dropped: every non-empty follow-up occurs in the joined
  body, which contains nothing but the texts and separators; a single follow-up is sent
  unchanged, and only runs of two or more are stamped with their display texts.
\<close>

theorem join_texts_complete:
  "(\<forall>t. t \<in> set ts \<and> t \<noteq> [] \<longrightarrow> sublist t (join_texts ts))
   \<and> length (join_texts ts) + 2 * of_bool (filter (\<lambda>t. t \<noteq> []) ts \<noteq> []) =
       sum_list (map length ts) + 2 * length (filter (\<lambda>t. t \<noteq> []) ts)
   \<and> join_texts [t] = t
   \<and> (stamp_combined_display_texts meta ts = meta
        \<or> 2 \<le> length ts
          \<and> stamp_combined_display_texts meta ts COMBINED_DISPLAY_TEXTS_META = Some (JArray (map JString ts)))"
proof -
  have len: "length (join TEXT_SEPARATOR xs) + 2 * of_bool (xs \<noteq> []) = sum_list (map length xs) + 2 * length xs"
    for xs :: "string list"
    by (induction xs) (auto simp: join_Cons TEXT_SEPARATOR_def)
  have "sum_list (map length (filter (\<lambda>t. t \<noteq> []) ts)) = sum_list (map length ts)"
    by (induction ts) auto
  then have "length (join_texts ts) + 2 * of_bool (filter (\<lambda>t. t \<noteq> []) ts \<noteq> []) =
       sum_list (map length ts) + 2 * length (filter (\<lambda>t. t \<noteq> []) ts)"
    using len [of "filter (\<lambda>t. t \<noteq> []) ts"] by (simp add: join_texts_def)
  moreover have "t \<in> set ts \<Longrightarrow> t \<noteq> [] \<Longrightarrow> sublist t (join_texts ts)" for t
    unfolding join_texts_def by (rule sublist_join) simp
  ultimately show ?thesis
    by (auto simp: join_texts_def stamp_combined_display_texts_def is_combined_def join_Cons)
qed

theorem join_texts_complete_witness:
  "sublist ''fix tests'' (join_texts [''do it'', '''', ''fix tests''])
   \<and> join_texts [''do it'', '''', ''fix tests''] = ''do it'' @ TEXT_SEPARATOR @ ''fix tests''"
  using join_texts_complete [of "[''do it'', '''', ''fix tests'']" undefined Map.empty]
  by (simp add: join_texts_def join_Cons)

end
