(* ===== verification/Conversation.thy ===== *)
theory Conversation
  imports Rust_Text
begin

text \<open>
  The conversation model of \<open>crates/codegen/xai-grok-sampling-types/src/conversation.rs\<close>:
  items, their constructors and readers, the length policy of a response, image stripping,
  the streaming-reasoning fallback and the relocation of a conversation to another working
  directory. \<open>Arc<str>\<close> is a \<^typ>\<open>string\<close>. Of the Responses-API structs (a
  third-party crate) the records hold the fields the source reads. Whether a text is valid
  JSON (\<open>serde_json\<close>) is the argument \<open>json_ok\<close>.
\<close>

section \<open>Items\<close>

datatype SyntheticReason =
  Human | Primary | CompactionMeta | SystemReminder | LengthContinue | ProjectInstructions
| AutoContinue | AutoRecovery | Interjection | AgentMessage | TaskCompleted | SubagentCompleted
| NotificationDrain | GoalSummary | GoalClassifierNudge | SchedulerFired | StopHookFeedback
| WorkingDirectorySwitch | ParentHumanMessage | SessionPrefix | DirectBash | GoalSetup | Unknown

definition is_human :: "SyntheticReason \<Rightarrow> bool" where "is_human r \<longleftrightarrow> r = Human"
definition is_primary :: "SyntheticReason \<Rightarrow> bool" where "is_primary r \<longleftrightarrow> r = Primary"

fun starts_prompt_turn :: "SyntheticReason \<Rightarrow> bool" where
  "starts_prompt_turn Human = True"
| "starts_prompt_turn AgentMessage = True"
| "starts_prompt_turn ParentHumanMessage = True"
| "starts_prompt_turn DirectBash = True"
| "starts_prompt_turn GoalSetup = True"
| "starts_prompt_turn Unknown = True"
| "starts_prompt_turn TaskCompleted = True"
| "starts_prompt_turn SubagentCompleted = True"
| "starts_prompt_turn NotificationDrain = True"
| "starts_prompt_turn GoalClassifierNudge = True"
| "starts_prompt_turn SchedulerFired = True"
| "starts_prompt_turn Primary = False"
| "starts_prompt_turn SessionPrefix = False"
| "starts_prompt_turn CompactionMeta = False"
| "starts_prompt_turn SystemReminder = False"
| "starts_prompt_turn LengthContinue = False"
| "starts_prompt_turn ProjectInstructions = False"
| "starts_prompt_turn AutoContinue = False"
| "starts_prompt_turn AutoRecovery = False"
| "starts_prompt_turn Interjection = False"
| "starts_prompt_turn GoalSummary = False"
| "starts_prompt_turn StopHookFeedback = False"
| "starts_prompt_turn WorkingDirectorySwitch = False"

datatype PriorTurnInterrupt = MidTurnAbort | PermissionRejected | PermissionCancelled | InterruptUnknown

datatype ReasoningEffort = NoEffort | Minimal | Low | Medium | High | Xhigh | Max

datatype ContentPart = Text string | Image string

record SystemItem =
  s_content :: string
  s_synthetic_reason :: SyntheticReason

record UserItem =
  u_content :: "ContentPart list"
  u_synthetic_reason :: SyntheticReason
  u_cwd_generation :: "u64 option"
  u_prior_turn_interrupt :: "PriorTurnInterrupt option"
  u_prompt_index :: "usize option"

record ToolCall =
  tc_id :: string
  tc_name :: string
  tc_arguments :: string

record AssistantItem =
  a_content :: string
  a_tool_calls :: "ToolCall list"
  a_model_id :: "string option"
  a_model_fingerprint :: "string option"
  a_reasoning_effort :: "ReasoningEffort option"

record ToolResultItem =
  t_tool_call_id :: string
  t_content :: string
  t_images :: "ContentPart list"

datatype WebSearchAction = Search string | OpenPage "string option" | Find string string

datatype BackendToolKind =
  WebSearch string WebSearchAction
| XSearch string string string
| CodeInterpreter string "string option"

record BackendToolCallItem = b_kind :: BackendToolKind

record ReasoningItem =
  r_id :: string
  r_summary :: "string list"
  r_content :: "string list option"
  r_encrypted_content :: "string option"

datatype ConversationItem =
  System SystemItem
| User UserItem
| Assistant AssistantItem
| ToolResult ToolResultItem
| BackendToolCall BackendToolCallItem
| Reasoning ReasoningItem

datatype Role = RoleSystem | RoleUser | RoleAssistant | RoleTool

section \<open>Text helpers\<close>

definition truncate_bytes :: "string \<Rightarrow> nat \<Rightarrow> string" where
  "truncate_bytes s max_bytes =
     (if length s \<le> max_bytes then s else take (floor_boundary s max_bytes) s)"

definition sanitize_tool_arguments :: "(string \<Rightarrow> bool) \<Rightarrow> string \<Rightarrow> string" where
  "sanitize_tool_arguments json_ok arguments = (if \<not> json_ok arguments then ''{}'' else arguments)"

definition reasoning_item_text :: "ReasoningItem \<Rightarrow> string" where
  "reasoning_item_text r =
     join [CHR 0x0A] (r_summary r @ (case r_content r of Some content \<Rightarrow> content | None \<Rightarrow> []))"

definition backend_id :: "BackendToolCallItem \<Rightarrow> string" where
  "backend_id b = (case b_kind b of WebSearch i _ \<Rightarrow> i | XSearch i _ _ \<Rightarrow> i | CodeInterpreter i _ \<Rightarrow> i)"

definition text_summary :: "BackendToolCallItem \<Rightarrow> string" where
  "text_summary b =
     (case b_kind b of
        WebSearch _ action \<Rightarrow>
          ''[backend web_search] '' @
          (case action of
             Search query \<Rightarrow> ''search: '' @ query
           | OpenPage url \<Rightarrow> ''open: '' @ (case url of Some u \<Rightarrow> u | None \<Rightarrow> ''?'')
           | Find pattern url \<Rightarrow> ''find '' @ [CHR 0x22] @ pattern @ [CHR 0x22] @ '' in '' @ url)
      | XSearch _ name input \<Rightarrow> ''[backend x_search] '' @ name @ ''('' @ input @ '')''
      | CodeInterpreter _ code \<Rightarrow>
          ''[backend code_interpreter] '' @
          (case code of
             Some c \<Rightarrow> if 100 < length c then truncate_bytes c 100 @ ''...'' else c
           | None \<Rightarrow> []))"

section \<open>Constructors\<close>

definition user_tagged :: "SyntheticReason \<Rightarrow> string \<Rightarrow> ConversationItem" where
  "user_tagged reason content =
     User \<lparr>u_content = [Text content], u_synthetic_reason = reason, u_cwd_generation = None,
           u_prior_turn_interrupt = None, u_prompt_index = None\<rparr>"

definition system :: "string \<Rightarrow> ConversationItem" where
  "system content = System \<lparr>s_content = content, s_synthetic_reason = Primary\<rparr>"
definition user :: "string \<Rightarrow> ConversationItem" where
  "user content = user_tagged Human content"
definition user_with_parts :: "ContentPart list \<Rightarrow> ConversationItem" where
  "user_with_parts parts =
     User \<lparr>u_content = parts, u_synthetic_reason = Human, u_cwd_generation = None,
           u_prior_turn_interrupt = None, u_prompt_index = None\<rparr>"
definition user_meta :: "string \<Rightarrow> ConversationItem" where
  "user_meta content = user_tagged CompactionMeta content"
definition system_reminder :: "string \<Rightarrow> ConversationItem" where
  "system_reminder content = user_tagged SystemReminder content"
definition length_continue_reminder :: "string \<Rightarrow> ConversationItem" where
  "length_continue_reminder content = user_tagged LengthContinue content"
definition project_instructions :: "string \<Rightarrow> ConversationItem" where
  "project_instructions content = user_tagged ProjectInstructions content"
definition working_directory_switch :: "string \<Rightarrow> u64 \<Rightarrow> ConversationItem" where
  "working_directory_switch content generation =
     User \<lparr>u_content = [Text content], u_synthetic_reason = WorkingDirectorySwitch,
           u_cwd_generation = Some generation, u_prior_turn_interrupt = None, u_prompt_index = None\<rparr>"
definition agent_message :: "string \<Rightarrow> ConversationItem" where
  "agent_message content = user_tagged AgentMessage content"
definition auto_continue :: "string \<Rightarrow> ConversationItem" where
  "auto_continue content = user_tagged AutoContinue content"
definition auto_recovery :: "string \<Rightarrow> ConversationItem" where
  "auto_recovery content = user_tagged AutoRecovery content"
definition interjection :: "string \<Rightarrow> ConversationItem" where
  "interjection content = user_tagged Interjection content"
definition task_completed :: "string \<Rightarrow> ConversationItem" where
  "task_completed content = user_tagged TaskCompleted content"
definition subagent_completed :: "string \<Rightarrow> ConversationItem" where
  "subagent_completed content = user_tagged SubagentCompleted content"
definition notification_drain :: "string \<Rightarrow> ConversationItem" where
  "notification_drain content = user_tagged NotificationDrain content"
definition goal_summary :: "string \<Rightarrow> ConversationItem" where
  "goal_summary content = user_tagged GoalSummary content"
definition goal_classifier_nudge :: "string \<Rightarrow> ConversationItem" where
  "goal_classifier_nudge content = user_tagged GoalClassifierNudge content"
definition scheduler_fired :: "string \<Rightarrow> ConversationItem" where
  "scheduler_fired content = user_tagged SchedulerFired content"
definition stop_hook_feedback :: "string \<Rightarrow> ConversationItem" where
  "stop_hook_feedback content = user_tagged StopHookFeedback content"

definition assistant :: "string \<Rightarrow> ConversationItem" where
  "assistant content =
     Assistant \<lparr>a_content = content, a_tool_calls = [], a_model_id = None, a_model_fingerprint = None,
                a_reasoning_effort = None\<rparr>"
definition assistant_with_model :: "string \<Rightarrow> string \<Rightarrow> ConversationItem" where
  "assistant_with_model content model_id =
     Assistant \<lparr>a_content = content, a_tool_calls = [], a_model_id = Some model_id,
                a_model_fingerprint = None, a_reasoning_effort = None\<rparr>"
definition assistant_tool_calls :: "ToolCall list \<Rightarrow> ConversationItem" where
  "assistant_tool_calls calls =
     Assistant \<lparr>a_content = [], a_tool_calls = calls, a_model_id = None, a_model_fingerprint = None,
                a_reasoning_effort = None\<rparr>"
definition tool_result :: "string \<Rightarrow> string \<Rightarrow> ConversationItem" where
  "tool_result tool_call_id content =
     ToolResult \<lparr>t_tool_call_id = tool_call_id, t_content = content, t_images = []\<rparr>"
definition tool_result_with_images :: "string \<Rightarrow> string \<Rightarrow> ContentPart list \<Rightarrow> ConversationItem" where
  "tool_result_with_images tool_call_id content images =
     ToolResult \<lparr>t_tool_call_id = tool_call_id, t_content = content, t_images = images\<rparr>"

section \<open>Readers and setters\<close>

fun role :: "ConversationItem \<Rightarrow> Role" where
  "role (System _) = RoleSystem"
| "role (User _) = RoleUser"
| "role (Assistant _) = RoleAssistant"
| "role (ToolResult _) = RoleTool"
| "role (BackendToolCall _) = RoleAssistant"
| "role (Reasoning _) = RoleAssistant"

fun synthetic_reason :: "ConversationItem \<Rightarrow> SyntheticReason option" where
  "synthetic_reason (User u) = Some (u_synthetic_reason u)"
| "synthetic_reason (System s) = Some (s_synthetic_reason s)"
| "synthetic_reason _ = None"

fun is_human_user_turn :: "ConversationItem \<Rightarrow> bool" where
  "is_human_user_turn (User u) = is_human (u_synthetic_reason u)"
| "is_human_user_turn _ = False"

fun is_primary_system_turn :: "ConversationItem \<Rightarrow> bool" where
  "is_primary_system_turn (System s) = is_primary (s_synthetic_reason s)"
| "is_primary_system_turn _ = False"

fun working_directory_switch_generation :: "ConversationItem \<Rightarrow> u64 option" where
  "working_directory_switch_generation (User u) =
     (if u_synthetic_reason u = WorkingDirectorySwitch then u_cwd_generation u else None)"
| "working_directory_switch_generation _ = None"

fun part_text :: "ContentPart \<Rightarrow> string option" where
  "part_text (Text t) = Some t"
| "part_text (Image _) = None"

fun text_content :: "ConversationItem \<Rightarrow> string" where
  "text_content (System s) = s_content s"
| "text_content (User u) = join [CHR 0x0A] (List.map_filter part_text (u_content u))"
| "text_content (Assistant a) = a_content a"
| "text_content (ToolResult t) = t_content t"
| "text_content (BackendToolCall b) = text_summary b"
| "text_content (Reasoning r) = reasoning_item_text r"

fun add_image :: "string \<Rightarrow> ConversationItem \<Rightarrow> ConversationItem" where
  "add_image url (User u) = User (u\<lparr>u_content := u_content u @ [Image url]\<rparr>)"
| "add_image url item = item"

fun with_model_id :: "string \<Rightarrow> ConversationItem \<Rightarrow> ConversationItem" where
  "with_model_id model_id (Assistant a) = Assistant (a\<lparr>a_model_id := Some model_id\<rparr>)"
| "with_model_id model_id item = item"

fun set_prior_turn_interrupt :: "PriorTurnInterrupt \<Rightarrow> ConversationItem \<Rightarrow> ConversationItem" where
  "set_prior_turn_interrupt interrupt (User u) = User (u\<lparr>u_prior_turn_interrupt := Some interrupt\<rparr>)"
| "set_prior_turn_interrupt interrupt item = item"

fun set_prompt_index :: "usize \<Rightarrow> ConversationItem \<Rightarrow> ConversationItem" where
  "set_prompt_index i (User u) = User (u\<lparr>u_prompt_index := Some i\<rparr>)"
| "set_prompt_index i item = item"

definition add_tool_call :: "ToolCall \<Rightarrow> AssistantItem \<Rightarrow> AssistantItem" where
  "add_tool_call call a = a\<lparr>a_tool_calls := a_tool_calls a @ [call]\<rparr>"

end
