(* ===== verification/Conversation_Ops.thy ===== *)
theory Conversation_Ops
  imports Conversation
begin

text \<open>
  Operations on whole responses and conversations from
  \<open>crates/codegen/xai-grok-sampling-types/src/conversation.rs\<close>: the response helpers and
  the length policy, image stripping, the streaming-reasoning fallback and the relocation of
  a forked session.
\<close>

section \<open>Responses\<close>

datatype StopReason = Stop | Length | ToolCalls | ContentFilter

datatype FinishReason = FinishStop | FinishLength | FinishToolCalls | FinishContentFilter | FinishFunctionCall

fun stop_reason_of :: "FinishReason \<Rightarrow> StopReason" where
  "stop_reason_of FinishStop = Stop"
| "stop_reason_of FinishLength = Length"
| "stop_reason_of FinishToolCalls = ToolCalls"
| "stop_reason_of FinishFunctionCall = ToolCalls"
| "stop_reason_of FinishContentFilter = ContentFilter"

record TokenUsage =
  prompt_tokens :: u32
  completion_tokens :: u32
  total_tokens :: u32
  reasoning_tokens :: u32
  cached_prompt_tokens :: u32
  cache_creation_prompt_tokens :: u32

record ConversationResponse =
  resp_items :: "ConversationItem list"
  resp_stop_reason :: "StopReason option"
  resp_usage :: "TokenUsage option"
  resp_cost_usd_ticks :: "int option"
  resp_message_chunks_emitted :: u64

definition reported_cost_ticks :: "int option \<Rightarrow> int option" where
  "reported_cost_ticks raw = (case raw of Some t \<Rightarrow> if 0 < t then Some t else None | None \<Rightarrow> None)"

fun as_assistant :: "ConversationItem \<Rightarrow> AssistantItem option" where
  "as_assistant (Assistant a) = Some a"
| "as_assistant _ = None"

fun as_reasoning :: "ConversationItem \<Rightarrow> ReasoningItem option" where
  "as_reasoning (Reasoning r) = Some r"
| "as_reasoning _ = None"

fun find_map :: "('a \<Rightarrow> 'b option) \<Rightarrow> 'a list \<Rightarrow> 'b option" where
  "find_map f [] = None"
| "find_map f (x # xs) = (case f x of Some y \<Rightarrow> Some y | None \<Rightarrow> find_map f xs)"

definition response_assistant :: "ConversationResponse \<Rightarrow> AssistantItem option" where
  "response_assistant r = find_map as_assistant (rev (resp_items r))"

definition assistant_text :: "ConversationResponse \<Rightarrow> string" where
  "assistant_text r = (case response_assistant r of Some a \<Rightarrow> a_content a | None \<Rightarrow> [])"

definition reasoning_items :: "ConversationResponse \<Rightarrow> ReasoningItem list" where
  "reasoning_items r = List.map_filter as_reasoning (resp_items r)"

fun is_backend_tool :: "ConversationItem \<Rightarrow> bool" where
  "is_backend_tool (BackendToolCall _) = True"
| "is_backend_tool _ = False"

definition backend_tool_items :: "ConversationResponse \<Rightarrow> ConversationItem list" where
  "backend_tool_items r = filter is_backend_tool (resp_items r)"

datatype EmptyReason = ReasoningOnly | NoVisibleContent

definition empty_reason :: "ConversationResponse \<Rightarrow> EmptyReason option" where
  "empty_reason r =
     (case response_assistant r of
        None \<Rightarrow> Some NoVisibleContent
      | Some a \<Rightarrow>
          if a_content a \<noteq> [] \<or> a_tool_calls a \<noteq> [] then None
          else if list_ex (\<lambda>x. r_summary x \<noteq> [] \<or> r_content x \<noteq> None \<or> r_encrypted_content x \<noteq> None)
                    (reasoning_items r)
          then Some ReasoningOnly else Some NoVisibleContent)"

definition response_is_empty :: "ConversationResponse \<Rightarrow> bool" where
  "response_is_empty r \<longleftrightarrow> empty_reason r \<noteq> None"

definition response_tool_calls :: "ConversationResponse \<Rightarrow> ToolCall list" where
  "response_tool_calls r = (case response_assistant r of Some a \<Rightarrow> a_tool_calls a | None \<Rightarrow> [])"

definition fallback_text :: "ConversationResponse \<Rightarrow> string option" where
  "fallback_text r =
     (if 0 < resp_message_chunks_emitted r then None
      else let t = assistant_text r in if t = [] then None else Some t)"

datatype LengthPolicy = Fail | CompleteToolCalls | CompletePartial

datatype LengthVerdict = Pass | Salvage | SalvageToolCalls | FailVerdict

definition verdict :: "(string \<Rightarrow> bool) \<Rightarrow> LengthPolicy \<Rightarrow> ConversationResponse \<Rightarrow> LengthVerdict" where
  "verdict json_ok policy r =
     (if resp_stop_reason r \<noteq> Some Length then Pass
      else if response_tool_calls r \<noteq> [] then
        let complete = list_all (\<lambda>tc. trim (tc_arguments tc) = [] \<or> json_ok (tc_arguments tc))
                         (response_tool_calls r)
        in if policy = Fail \<or> \<not> complete then FailVerdict else SalvageToolCalls
      else if policy = CompletePartial \<and> empty_reason r = None then Salvage
      else FailVerdict)"

text \<open>
  C21: the verdict on a response that may have hit the length limit. It passes exactly when it
  was not truncated. A truncated response with tool calls is salvaged with its calls exactly when
  the policy is not \<open>Fail\<close> and every call has blank or complete arguments; a truncated response
  without tool calls is salvaged exactly under \<open>CompletePartial\<close> and when it has visible text;
  every other truncated response fails, an empty one under every policy.
\<close>

theorem length_verdict_sound:
  "(verdict json_ok p r = Pass \<longleftrightarrow> resp_stop_reason r \<noteq> Some Length)
   \<and> (verdict json_ok p r = SalvageToolCalls \<longleftrightarrow>
        resp_stop_reason r = Some Length \<and> p \<noteq> Fail \<and> response_tool_calls r \<noteq> []
        \<and> {tc \<in> set (response_tool_calls r). trim (tc_arguments tc) \<noteq> [] \<and> \<not> json_ok (tc_arguments tc)} = {})
   \<and> (verdict json_ok p r = Salvage \<longleftrightarrow>
        resp_stop_reason r = Some Length \<and> p = CompletePartial \<and> response_tool_calls r = []
        \<and> assistant_text r \<noteq> [])
   \<and> (verdict json_ok p (r\<lparr>resp_items := [], resp_stop_reason := Some Length\<rparr>) = FailVerdict)"
proof -
  have "response_tool_calls r = [] \<Longrightarrow> empty_reason r = None \<longleftrightarrow> assistant_text r \<noteq> []"
    by (auto simp: empty_reason_def assistant_text_def response_tool_calls_def split: option.splits)
  then show ?thesis
    by (auto simp: verdict_def Let_def list_all_iff response_tool_calls_def [of "resp_items_update _ _"]
        response_assistant_def [of "resp_items_update _ _"] empty_reason_def [of "resp_items_update _ _"]
        response_tool_calls_def [of "resp_stop_reason_update _ _"]
        response_assistant_def [of "resp_stop_reason_update _ _"] empty_reason_def [of "resp_stop_reason_update _ _"])
qed

section \<open>Stripping images\<close>

definition IMAGE_STRIP_PLACEHOLDER :: string where
  "IMAGE_STRIP_PLACEHOLDER =
     ''[image removed '' @ [CHR 0xE2, CHR 0x80, CHR 0x94] @
     '' the server could not process it; its contents are unavailable. Ask the user to re-attach the image if it is still needed.]''"

fun strip_user_parts :: "(string \<Rightarrow> bool) \<Rightarrow> ContentPart list \<Rightarrow> ContentPart list \<times> string list" where
  "strip_user_parts f [] = ([], [])"
| "strip_user_parts f (p # ps) =
     (case strip_user_parts f ps of (qs, urls) \<Rightarrow>
        case p of
          Image url \<Rightarrow> if f url then (Text IMAGE_STRIP_PLACEHOLDER # qs, url # urls) else (p # qs, urls)
        | Text t \<Rightarrow> (p # qs, urls))"

fun strip_result_parts :: "(string \<Rightarrow> bool) \<Rightarrow> ContentPart list \<Rightarrow> ContentPart list \<times> string list" where
  "strip_result_parts f [] = ([], [])"
| "strip_result_parts f (p # ps) =
     (case strip_result_parts f ps of (qs, urls) \<Rightarrow>
        case p of
          Image url \<Rightarrow> if f url then (qs, url # urls) else (p # qs, urls)
        | Text t \<Rightarrow> (p # qs, urls))"

fun strip_item :: "(string \<Rightarrow> bool) \<Rightarrow> ConversationItem \<Rightarrow> ConversationItem \<times> string list" where
  "strip_item f (User u) =
     (case strip_user_parts f (u_content u) of (ps, urls) \<Rightarrow> (User (u\<lparr>u_content := ps\<rparr>), urls))"
| "strip_item f (ToolResult t) =
     (case strip_result_parts f (t_images t) of (ps, urls) \<Rightarrow> (ToolResult (t\<lparr>t_images := ps\<rparr>), urls))"
| "strip_item f item = (item, [])"

fun strip_images_where :: "(string \<Rightarrow> bool) \<Rightarrow> ConversationItem list \<Rightarrow> ConversationItem list \<times> string list" where
  "strip_images_where f [] = ([], [])"
| "strip_images_where f (item # items) =
     (case strip_item f item of (item', urls) \<Rightarrow>
        case strip_images_where f items of (items', urls') \<Rightarrow> (item' # items', urls @ urls'))"

definition strip_images :: "ConversationItem list \<Rightarrow> ConversationItem list \<times> string list" where
  "strip_images items = strip_images_where (\<lambda>_. True) items"

definition strip_images_by_url :: "ConversationItem list \<Rightarrow> string list \<Rightarrow> ConversationItem list \<times> usize" where
  "strip_images_by_url items urls =
     (case strip_images_where (\<lambda>url. url \<in> set urls) items of (items', stripped) \<Rightarrow> (items', length stripped))"

fun part_image :: "ContentPart \<Rightarrow> string option" where
  "part_image (Image url) = Some url"
| "part_image (Text _) = None"

fun item_images :: "ConversationItem \<Rightarrow> string list" where
  "item_images (User u) = List.map_filter part_image (u_content u)"
| "item_images (ToolResult t) = List.map_filter part_image (t_images t)"
| "item_images _ = []"

definition images :: "ConversationItem list \<Rightarrow> string list" where
  "images items = concat (map item_images items)"

lemma strip_user_parts_images:
  "strip_user_parts f ps = (qs, urls) \<Longrightarrow>
     urls = filter f (List.map_filter part_image ps)
     \<and> List.map_filter part_image qs = filter (\<lambda>u. \<not> f u) (List.map_filter part_image ps)
     \<and> length qs = length ps"
  by (induction ps arbitrary: qs urls)
    (auto simp: List.map_filter_def split: prod.splits ContentPart.splits if_splits)

lemma strip_result_parts_images:
  "strip_result_parts f ps = (qs, urls) \<Longrightarrow>
     urls = filter f (List.map_filter part_image ps)
     \<and> List.map_filter part_image qs = filter (\<lambda>u. \<not> f u) (List.map_filter part_image ps)"
  by (induction ps arbitrary: qs urls)
    (auto simp: List.map_filter_def split: prod.splits ContentPart.splits if_splits)

lemma strip_item_images:
  "strip_item f item = (item', urls) \<Longrightarrow>
     urls = filter f (item_images item) \<and> item_images item' = filter (\<lambda>u. \<not> f u) (item_images item)
     \<and> role item' = role item"
  by (cases item) (auto dest: strip_user_parts_images strip_result_parts_images split: prod.splits)

lemma strip_where_images:
  "strip_images_where f items = (items', urls) \<Longrightarrow>
     urls = filter f (images items) \<and> images items' = filter (\<lambda>u. \<not> f u) (images items)
     \<and> map role items' = map role items"
proof (induction items arbitrary: items' urls)
  case (Cons item items)
  obtain item1 urls1 where i: "strip_item f item = (item1, urls1)" by fastforce
  obtain items2 urls2 where r: "strip_images_where f items = (items2, urls2)" by fastforce
  show ?case using strip_item_images [OF i] Cons.IH [OF r] Cons.prems i r by (auto simp: images_def)
qed (simp add: images_def)

text \<open>
  What stripping does to one item: in a user message each matching image becomes the placeholder
  text, in a tool result each matching image is dropped, and no other field changes.
\<close>

definition without_images :: "(string \<Rightarrow> bool) \<Rightarrow> ConversationItem \<Rightarrow> ConversationItem" where
  "without_images f item =
     (let hit = (\<lambda>p. \<exists>url. p = Image url \<and> f url)
      in case item of
           User u \<Rightarrow> User (u\<lparr>u_content := map (\<lambda>p. if hit p then Text IMAGE_STRIP_PLACEHOLDER else p) (u_content u)\<rparr>)
         | ToolResult t \<Rightarrow> ToolResult (t\<lparr>t_images := filter (\<lambda>p. \<not> hit p) (t_images t)\<rparr>)
         | _ \<Rightarrow> item)"

lemma strip_user_parts_map:
  "fst (strip_user_parts f ps) = map (\<lambda>p. if \<exists>url. p = Image url \<and> f url then Text IMAGE_STRIP_PLACEHOLDER else p) ps"
  by (induction ps) (auto split: prod.splits ContentPart.splits)

lemma strip_result_parts_filter:
  "fst (strip_result_parts f ps) = filter (\<lambda>p. \<not> (\<exists>url. p = Image url \<and> f url)) ps"
  by (induction ps) (auto split: prod.splits ContentPart.splits)

lemma strip_item_without: "fst (strip_item f item) = without_images f item"
  by (cases item)
    (simp_all add: without_images_def Let_def strip_user_parts_map strip_result_parts_filter split_beta)

lemma strip_where_without: "fst (strip_images_where f items) = map (without_images f) items"
  by (induction items) (simp_all add: split_beta strip_item_without)

text \<open>
  C22: stripping images. Removing the images of a conversation that match a predicate reports
  exactly the matching URLs in order; in a user message each matching image is replaced in place
  by the placeholder text, in a tool result it is dropped, and every other part, text, identifier
  and item is unchanged; the images left are the others in order. Stripping everything leaves no
  image, and stripping by URL counts the images with a listed URL.
\<close>

theorem strip_images_exact:
  "let (items', urls) = strip_images_where f items
   in urls = filter f (images items) \<and> images items' = filter (\<lambda>u. \<not> f u) (images items)
      \<and> items' = map (without_images f) items
      \<and> map role items' = map role items \<and> images (fst (strip_images items)) = []
      \<and> strip_images_by_url items us =
          (map (without_images (\<lambda>u. u \<in> set us)) items, length (filter (\<lambda>u. u \<in> set us) (images items)))"
proof -
  obtain a b where s: "strip_images_where f items = (a, b)" by fastforce
  obtain c d where t: "strip_images_where (\<lambda>_. True) items = (c, d)" by fastforce
  obtain e g where u: "strip_images_where (\<lambda>url. url \<in> set us) items = (e, g)" by fastforce
  show ?thesis
    using strip_where_images [OF s] strip_where_images [OF t] strip_where_images [OF u] s t u
      strip_where_without [of f items] strip_where_without [of "\<lambda>url. url \<in> set us" items]
    by (simp add: strip_images_def strip_images_by_url_def)
qed

section \<open>The streaming-reasoning fallback\<close>

definition synthesized_reasoning_item :: "string \<Rightarrow> ReasoningItem" where
  "synthesized_reasoning_item t =
     \<lparr>r_id = [], r_summary = [t], r_content = None, r_encrypted_content = None\<rparr>"

fun has_summary_text :: "ConversationItem \<Rightarrow> bool" where
  "has_summary_text (Reasoning r) = list_ex (\<lambda>t. t \<noteq> []) (r_summary r)"
| "has_summary_text _ = False"

fun push_first_reasoning :: "string \<Rightarrow> ConversationItem list \<Rightarrow> ConversationItem list option" where
  "push_first_reasoning t [] = None"
| "push_first_reasoning t (Reasoning r # items) = Some (Reasoning (r\<lparr>r_summary := r_summary r @ [t]\<rparr>) # items)"
| "push_first_reasoning t (item # items) = map_option (Cons item) (push_first_reasoning t items)"

definition inject_streaming_reasoning_fallback :: "ConversationItem list \<Rightarrow> string \<Rightarrow> ConversationItem list" where
  "inject_streaming_reasoning_fallback items t =
     (if t = [] then items
      else if list_ex has_summary_text items then items
      else case push_first_reasoning t items of
          Some items' \<Rightarrow> items'
        | None \<Rightarrow>
            let pos = (case rposition (\<lambda>i. as_assistant i \<noteq> None) items of Some p \<Rightarrow> p | None \<Rightarrow> length items)
            in take pos items @ [Reasoning (synthesized_reasoning_item t)] @ drop pos items)"

lemma push_first_reasoning_None:
  "push_first_reasoning t items = None \<longleftrightarrow> list_all (\<lambda>i. as_reasoning i = None) items"
  by (induction t items rule: push_first_reasoning.induct) auto

lemma find_map_append:
  "find_map f (xs @ ys) = (case find_map f xs of Some z \<Rightarrow> Some z | None \<Rightarrow> find_map f ys)"
  by (induction xs) (auto split: option.splits)

lemma push_first_reasoning_Some:
  "push_first_reasoning t items = Some items' \<Longrightarrow> t \<noteq> [] \<Longrightarrow>
     list_ex has_summary_text items'
     \<and> filter (\<lambda>i. as_reasoning i = None) items' = filter (\<lambda>i. as_reasoning i = None) items"
  by (induction t items arbitrary: items' rule: push_first_reasoning.induct) auto

lemma trailing_assistant_filter:
  "find_map as_assistant (rev (filter (\<lambda>i. as_reasoning i = None) items)) = find_map as_assistant (rev items)"
proof (induction items)
  case (Cons item items)
  then show ?case by (cases item) (simp_all add: find_map_append split: option.splits)
qed simp

lemma fallback_settles:
  assumes "t \<noteq> []"
  shows "let items' = inject_streaming_reasoning_fallback items t
         in list_ex has_summary_text items'
            \<and> filter (\<lambda>i. as_reasoning i = None) items' = filter (\<lambda>i. as_reasoning i = None) items
            \<and> find_map as_assistant (rev items') = find_map as_assistant (rev items)
            \<and> inject_streaming_reasoning_fallback items' t' = items'"
proof -
  let ?F = "filter (\<lambda>i. as_reasoning i = None)"
  define items' where "items' = inject_streaming_reasoning_fallback items t"
  have "list_ex has_summary_text items' \<and> ?F items' = ?F items"
  proof (cases "list_ex has_summary_text items")
    case False
    show ?thesis
    proof (cases "push_first_reasoning t items")
      case None
      define pos where "pos = (case rposition (\<lambda>i. as_assistant i \<noteq> None) items of Some p \<Rightarrow> p | None \<Rightarrow> length items)"
      have "items' = take pos items @ [Reasoning (synthesized_reasoning_item t)] @ drop pos items"
        using assms False None
        by (simp add: items'_def inject_streaming_reasoning_fallback_def pos_def Let_def)
      moreover have "?F (take pos items) @ ?F (drop pos items) = ?F items"
        by (metis append_take_drop_id filter_append)
      ultimately show ?thesis using assms by (simp add: synthesized_reasoning_item_def)
    next
      case (Some x)
      then show ?thesis
        using assms False push_first_reasoning_Some [OF Some]
        by (simp add: items'_def inject_streaming_reasoning_fallback_def)
    qed
  qed (simp add: items'_def inject_streaming_reasoning_fallback_def)
  moreover from this have "find_map as_assistant (rev items') = find_map as_assistant (rev items)"
    by (metis trailing_assistant_filter)
  ultimately show ?thesis
    by (simp add: Let_def inject_streaming_reasoning_fallback_def [of items'] flip: items'_def)
qed

lemma push_first_reasoning_split:
  "list_all (\<lambda>i. as_reasoning i = None) pre \<Longrightarrow>
     push_first_reasoning t (pre @ Reasoning r # post) =
       Some (pre @ Reasoning (r\<lparr>r_summary := r_summary r @ [t]\<rparr>) # post)"
proof (induction pre)
  case (Cons i pre)
  then show ?case by (cases i) simp_all
qed simp

lemma has_summary_reasoning: "has_summary_text i \<Longrightarrow> as_reasoning i \<noteq> None"
  by (cases i) simp_all

lemma no_reasoning_no_text:
  "list_all (\<lambda>i. as_reasoning i = None) items \<Longrightarrow> \<not> list_ex has_summary_text items"
  using has_summary_reasoning by (fastforce simp: list_all_iff list_ex_iff)

lemma last_assistant_position:
  "list_all (\<lambda>i. as_assistant i = None) post \<Longrightarrow>
     rposition (\<lambda>i. as_assistant i \<noteq> None) (pre @ Assistant a # post) = Some (length pre)"
  by (simp add: rposition_append rposition_None list_all_iff split: option.splits)

text \<open>
  C26: the reasoning fallback, for a non-empty streamed text. If some reasoning item has summary
  text, nothing changes. Otherwise the streamed text itself is added, once: to the summary of the
  first reasoning item if there is one; else as a new reasoning item right before the last
  assistant message, or at the end if there is none. Nothing else changes, and a second injection
  of any text changes nothing. Reasoning that carries text only in its \<open>content\<close> does not count
  as having text.
\<close>

theorem reasoning_fallback_once:
  assumes "t \<noteq> []"
  shows "(list_ex has_summary_text items \<longrightarrow> inject_streaming_reasoning_fallback items t = items)
    \<and> (\<forall>pre r post. items = pre @ Reasoning r # post \<and> list_all (\<lambda>i. as_reasoning i = None) pre
          \<and> \<not> list_ex has_summary_text items \<longrightarrow>
          inject_streaming_reasoning_fallback items t =
            pre @ Reasoning (r\<lparr>r_summary := r_summary r @ [t]\<rparr>) # post)
    \<and> (\<forall>pre a post. items = pre @ Assistant a # post \<and> list_all (\<lambda>i. as_reasoning i = None) items
          \<and> list_all (\<lambda>i. as_assistant i = None) post \<longrightarrow>
          inject_streaming_reasoning_fallback items t =
            pre @ Reasoning (synthesized_reasoning_item t) # Assistant a # post)
    \<and> (list_all (\<lambda>i. as_reasoning i = None \<and> as_assistant i = None) items \<longrightarrow>
          inject_streaming_reasoning_fallback items t = items @ [Reasoning (synthesized_reasoning_item t)])
    \<and> (let items' = inject_streaming_reasoning_fallback items t
       in list_ex has_summary_text items'
          \<and> filter (\<lambda>i. as_reasoning i = None) items' = filter (\<lambda>i. as_reasoning i = None) items
          \<and> find_map as_assistant (rev items') = find_map as_assistant (rev items)
          \<and> inject_streaming_reasoning_fallback items' t' = items')"
proof (intro conjI allI impI)
  show "list_ex has_summary_text items \<Longrightarrow> inject_streaming_reasoning_fallback items t = items"
    by (simp add: inject_streaming_reasoning_fallback_def)
next
  fix pre r post
  assume "items = pre @ Reasoning r # post \<and> list_all (\<lambda>i. as_reasoning i = None) pre
    \<and> \<not> list_ex has_summary_text items"
  then show "inject_streaming_reasoning_fallback items t = pre @ Reasoning (r\<lparr>r_summary := r_summary r @ [t]\<rparr>) # post"
    using assms push_first_reasoning_split [of pre t r post]
    by (auto simp: inject_streaming_reasoning_fallback_def)
next
  fix pre a post
  assume i: "items = pre @ Assistant a # post \<and> list_all (\<lambda>i. as_reasoning i = None) items
    \<and> list_all (\<lambda>i. as_assistant i = None) post"
  then have items: "list_all (\<lambda>i. as_reasoning i = None) items" by blast
  have "push_first_reasoning t items = None" unfolding push_first_reasoning_None by (rule items)
  moreover have "rposition (\<lambda>i. as_assistant i \<noteq> None) items = Some (length pre)"
    using i last_assistant_position [of post pre a] by simp
  ultimately have "inject_streaming_reasoning_fallback items t =
      take (length pre) items @ [Reasoning (synthesized_reasoning_item t)] @ drop (length pre) items"
    using assms no_reasoning_no_text [OF items] by (simp add: inject_streaming_reasoning_fallback_def Let_def)
  then show "inject_streaming_reasoning_fallback items t =
      pre @ Reasoning (synthesized_reasoning_item t) # Assistant a # post"
    using i by simp
next
  assume i: "list_all (\<lambda>i. as_reasoning i = None \<and> as_assistant i = None) items"
  then have "list_all (\<lambda>i. as_reasoning i = None) items" "rposition (\<lambda>i. as_assistant i \<noteq> None) items = None"
    by (auto simp: list_all_iff rposition_None)
  then show "inject_streaming_reasoning_fallback items t = items @ [Reasoning (synthesized_reasoning_item t)]"
    using assms no_reasoning_no_text [of items] push_first_reasoning_None [of t items]
    by (simp add: inject_streaming_reasoning_fallback_def)
next
  show "let items' = inject_streaming_reasoning_fallback items t
        in list_ex has_summary_text items'
          \<and> filter (\<lambda>i. as_reasoning i = None) items' = filter (\<lambda>i. as_reasoning i = None) items
          \<and> find_map as_assistant (rev items') = find_map as_assistant (rev items)
          \<and> inject_streaming_reasoning_fallback items' t' = items'"
    by (rule fallback_settles [OF assms])
qed

theorem reasoning_fallback_once_witness:
  "inject_streaming_reasoning_fallback [user ''hi'', assistant ''done''] ''think'' =
     [user ''hi'', Reasoning (synthesized_reasoning_item ''think''), assistant ''done'']
   \<and> inject_streaming_reasoning_fallback
       (inject_streaming_reasoning_fallback [user ''hi'', assistant ''done''] ''think'') ''think'' =
     inject_streaming_reasoning_fallback [user ''hi'', assistant ''done''] ''think''"
proof -
  have "inject_streaming_reasoning_fallback [user ''hi'', assistant ''done''] ''think'' =
     [user ''hi'', Reasoning (synthesized_reasoning_item ''think''), assistant ''done'']"
    by (simp add: inject_streaming_reasoning_fallback_def user_def user_tagged_def assistant_def)
  then show ?thesis
    using reasoning_fallback_once [of "''think''" "[user ''hi'', assistant ''done'']"] by (simp add: Let_def)
qed

section \<open>Relocating a conversation\<close>

definition relocate :: "string \<Rightarrow> string \<Rightarrow> string \<Rightarrow> string" where
  "relocate source_cwd target_cwd t =
     (if contains_sub source_cwd t then replace_sub source_cwd target_cwd t else t)"

fun relocate_part :: "string \<Rightarrow> string \<Rightarrow> ContentPart \<Rightarrow> ContentPart" where
  "relocate_part src tgt (Text t) = Text (relocate src tgt t)"
| "relocate_part src tgt (Image u) = Image u"

fun relocate_item :: "string \<Rightarrow> string \<Rightarrow> ConversationItem \<Rightarrow> ConversationItem" where
  "relocate_item src tgt (System s) = System (s\<lparr>s_content := relocate src tgt (s_content s)\<rparr>)"
| "relocate_item src tgt (User u) = User (u\<lparr>u_content := map (relocate_part src tgt) (u_content u)\<rparr>)"
| "relocate_item src tgt (Assistant a) =
     Assistant (a\<lparr>a_content := relocate src tgt (a_content a),
                  a_tool_calls := map (\<lambda>tc. tc\<lparr>tc_arguments := relocate src tgt (tc_arguments tc)\<rparr>) (a_tool_calls a)\<rparr>)"
| "relocate_item src tgt (ToolResult t) = ToolResult (t\<lparr>t_content := relocate src tgt (t_content t)\<rparr>)"
| "relocate_item src tgt (BackendToolCall b) = BackendToolCall b"
| "relocate_item src tgt (Reasoning r) =
     Reasoning (r\<lparr>r_summary := map (relocate src tgt) (r_summary r),
                  r_content := map_option (map (relocate src tgt)) (r_content r)\<rparr>)"

definition transform_conversation_cwd :: "ConversationItem list \<Rightarrow> string \<Rightarrow> string \<Rightarrow> ConversationItem list" where
  "transform_conversation_cwd items source_cwd target_cwd = map (relocate_item source_cwd target_cwd) items"

end
