(* ===== verification/Conversation_Truncate.thy ===== *)
theory Conversation_Truncate
  imports Conversation
begin

text \<open>
  Rewinding a conversation to a prompt turn: \<open>conversation_truncate_for_prompt\<close> and its
  three strategies in \<open>crates/codegen/xai-grok-sampling-types/src/conversation.rs\<close>. Each
  loop returns the number of leading items to keep.
\<close>

section \<open>The loops of the source\<close>

fun item_prompt_index :: "ConversationItem \<Rightarrow> usize option" where
  "item_prompt_index (User u) = u_prompt_index u"
| "item_prompt_index _ = None"

fun first_marker :: "ConversationItem list \<Rightarrow> usize option" where
  "first_marker [] = None"
| "first_marker (item # items) =
     (case item_prompt_index item of Some i \<Rightarrow> Some i | None \<Rightarrow> first_marker items)"

fun markers_only_loop :: "nat \<Rightarrow> ConversationItem list \<Rightarrow> usize \<Rightarrow> nat" where
  "markers_only_loop i [] target = i"
| "markers_only_loop i (item # items) target =
     (case item_prompt_index item of
        Some idx \<Rightarrow> if target \<le> idx then i else markers_only_loop (i + 1) items target
      | None \<Rightarrow> markers_only_loop (i + 1) items target)"

definition conversation_truncate_markers_only :: "ConversationItem list \<Rightarrow> usize \<Rightarrow> nat" where
  "conversation_truncate_markers_only conversation target = markers_only_loop 0 conversation target"

text \<open>
  The effective turn index of an unmarked user item: the first human item is the preamble;
  later human items and synthetic turn starters take the next index.
\<close>

definition legacy_index :: "SyntheticReason \<Rightarrow> bool \<Rightarrow> usize \<Rightarrow> bool \<times> usize option" where
  "legacy_index reason seen_preamble nxt =
     (if reason = Human \<and> \<not> seen_preamble then (True, None)
      else if reason = Human then (seen_preamble, Some nxt)
      else if starts_prompt_turn reason then (seen_preamble, Some nxt)
      else (seen_preamble, None))"

fun legacy_loop :: "nat \<Rightarrow> ConversationItem list \<Rightarrow> usize \<Rightarrow> bool \<Rightarrow> usize \<Rightarrow> nat" where
  "legacy_loop i [] nxt seen target = i"
| "legacy_loop i (User u # items) nxt seen target =
     (case legacy_index (u_synthetic_reason u) seen nxt of
        (seen', Some idx) \<Rightarrow> if target \<le> idx then i else legacy_loop (i + 1) items (idx + 1) seen' target
      | (seen', None) \<Rightarrow> legacy_loop (i + 1) items nxt seen' target)"
| "legacy_loop i (item # items) nxt seen target = legacy_loop (i + 1) items nxt seen target"

definition conversation_truncate_legacy :: "ConversationItem list \<Rightarrow> usize \<Rightarrow> nat" where
  "conversation_truncate_legacy conversation target = legacy_loop 0 conversation 0 False target"

fun count_loop :: "ConversationItem list \<Rightarrow> usize \<Rightarrow> bool \<Rightarrow> usize" where
  "count_loop [] turns seen = turns"
| "count_loop (User u # items) turns seen =
     (if u_prompt_index u \<noteq> None then turns
      else if u_synthetic_reason u = Human \<and> \<not> seen then count_loop items turns True
      else if u_synthetic_reason u = Human then count_loop items (turns + 1) seen
      else if starts_prompt_turn (u_synthetic_reason u) then count_loop items (turns + 1) seen
      else count_loop items turns seen)"
| "count_loop (item # items) turns seen = count_loop items turns seen"

definition count_legacy_turns_until_marker :: "ConversationItem list \<Rightarrow> usize" where
  "count_legacy_turns_until_marker conversation = count_loop conversation 0 False"

fun progressive_loop :: "nat \<Rightarrow> ConversationItem list \<Rightarrow> usize \<Rightarrow> bool \<Rightarrow> bool \<Rightarrow> usize \<Rightarrow> nat" where
  "progressive_loop i [] nxt seen marker target = i"
| "progressive_loop i (User u # items) nxt seen marker target =
     (case u_prompt_index u of
        Some idx \<Rightarrow>
          if target \<le> idx then i else progressive_loop (i + 1) items nxt seen True target
      | None \<Rightarrow>
          if marker then progressive_loop (i + 1) items nxt seen marker target
          else case legacy_index (u_synthetic_reason u) seen nxt of
              (seen', Some idx) \<Rightarrow>
                if target \<le> idx then i else progressive_loop (i + 1) items (idx + 1) seen' marker target
            | (seen', None) \<Rightarrow> progressive_loop (i + 1) items nxt seen' marker target)"
| "progressive_loop i (item # items) nxt seen marker target =
     progressive_loop (i + 1) items nxt seen marker target"

definition conversation_truncate_progressive :: "ConversationItem list \<Rightarrow> usize \<Rightarrow> nat" where
  "conversation_truncate_progressive conversation target = progressive_loop 0 conversation 0 False False target"

definition conversation_truncate_for_prompt :: "ConversationItem list \<Rightarrow> usize \<Rightarrow> nat" where
  "conversation_truncate_for_prompt conversation target =
     (case first_marker conversation of
        None \<Rightarrow> conversation_truncate_legacy conversation target
      | Some first_marker_idx \<Rightarrow>
          if count_legacy_turns_until_marker conversation \<noteq> first_marker_idx
          then conversation_truncate_markers_only conversation target
          else conversation_truncate_progressive conversation target)"

section \<open>Turn numbering as a specification\<close>

text \<open>
  \<open>numbering\<close> gives each item the turn it starts, if any; cutting at the first item whose
  turn is at least the target is what all three loops compute.
\<close>

fun first_at_least :: "usize option list \<Rightarrow> usize \<Rightarrow> nat" where
  "first_at_least [] target = 0"
| "first_at_least (x # xs) target =
     (case x of Some idx \<Rightarrow> if target \<le> idx then 0 else Suc (first_at_least xs target)
      | None \<Rightarrow> Suc (first_at_least xs target))"

fun legacy_numbering :: "ConversationItem list \<Rightarrow> usize \<Rightarrow> bool \<Rightarrow> usize option list" where
  "legacy_numbering [] nxt seen = []"
| "legacy_numbering (User u # items) nxt seen =
     (case legacy_index (u_synthetic_reason u) seen nxt of
        (seen', Some idx) \<Rightarrow> Some idx # legacy_numbering items (idx + 1) seen'
      | (seen', None) \<Rightarrow> None # legacy_numbering items nxt seen')"
| "legacy_numbering (item # items) nxt seen = None # legacy_numbering items nxt seen"

fun progressive_numbering :: "ConversationItem list \<Rightarrow> usize \<Rightarrow> bool \<Rightarrow> bool \<Rightarrow> usize option list" where
  "progressive_numbering [] nxt seen marker = []"
| "progressive_numbering (User u # items) nxt seen marker =
     (case u_prompt_index u of
        Some idx \<Rightarrow> Some idx # progressive_numbering items nxt seen True
      | None \<Rightarrow>
          if marker then None # progressive_numbering items nxt seen marker
          else case legacy_index (u_synthetic_reason u) seen nxt of
              (seen', Some idx) \<Rightarrow> Some idx # progressive_numbering items (idx + 1) seen' marker
            | (seen', None) \<Rightarrow> None # progressive_numbering items nxt seen' marker)"
| "progressive_numbering (item # items) nxt seen marker = None # progressive_numbering items nxt seen marker"

definition numbering :: "ConversationItem list \<Rightarrow> usize option list" where
  "numbering conversation =
     (case first_marker conversation of
        None \<Rightarrow> legacy_numbering conversation 0 False
      | Some m \<Rightarrow>
          if count_legacy_turns_until_marker conversation \<noteq> m then map item_prompt_index conversation
          else progressive_numbering conversation 0 False False)"

lemma markers_only_loop_spec:
  "markers_only_loop i c target = i + first_at_least (map item_prompt_index c) target"
  by (induction i c target rule: markers_only_loop.induct) (auto split: option.splits)

lemma legacy_loop_spec:
  "legacy_loop i c nxt seen target = i + first_at_least (legacy_numbering c nxt seen) target"
  by (induction i c nxt seen target rule: legacy_loop.induct) (auto split: prod.splits option.splits)

lemma progressive_loop_spec:
  "progressive_loop i c nxt seen marker target =
     i + first_at_least (progressive_numbering c nxt seen marker) target"
  by (induction i c nxt seen marker target rule: progressive_loop.induct)
    (auto split: prod.splits option.splits)

lemma truncate_numbering:
  "conversation_truncate_for_prompt c target = first_at_least (numbering c) target"
  by (simp add: conversation_truncate_for_prompt_def numbering_def conversation_truncate_legacy_def
      conversation_truncate_markers_only_def conversation_truncate_progressive_def
      markers_only_loop_spec legacy_loop_spec progressive_loop_spec split: option.splits)

lemma length_legacy [simp]: "length (legacy_numbering c nxt seen) = length c"
  by (induction c nxt seen rule: legacy_numbering.induct) (auto split: prod.splits option.splits)

lemma length_progressive [simp]: "length (progressive_numbering c nxt seen marker) = length c"
  by (induction c nxt seen marker rule: progressive_numbering.induct) (auto split: prod.splits option.splits)

lemma length_numbering [simp]: "length (numbering c) = length c"
  by (simp add: numbering_def split: option.splits)

lemma first_at_least_le: "first_at_least xs target \<le> length xs"
  by (induction xs) (auto split: option.splits)

lemma first_at_least_mono: "a \<le> b \<Longrightarrow> first_at_least xs a \<le> first_at_least xs b"
  by (induction xs) (auto split: option.splits)

lemma first_at_least_kept: "Some k \<in> set (take (first_at_least xs target) xs) \<Longrightarrow> k < target"
  by (induction xs) (auto split: option.splits if_splits)

lemma first_at_least_cut:
  "first_at_least xs target < length xs \<Longrightarrow> \<exists>k. xs ! first_at_least xs target = Some k \<and> target \<le> k"
  by (induction xs) (auto split: option.splits if_splits)

lemma numbered_are_users:
  "i < length c \<Longrightarrow> legacy_numbering c nxt seen ! i = Some k \<Longrightarrow> role (c ! i) = RoleUser"
  "i < length c \<Longrightarrow> progressive_numbering c nxt seen marker ! i = Some k \<Longrightarrow> role (c ! i) = RoleUser"
proof (induction c arbitrary: i nxt seen marker)
  case (Cons item c)
  { case 1 then show ?case using Cons.IH(1) by (cases item; cases i) (auto split: prod.splits option.splits) }
  { case 2 then show ?case using Cons.IH(2) by (cases item; cases i) (auto split: prod.splits option.splits if_splits) }
qed simp_all

lemma numbering_user: "i < length c \<Longrightarrow> numbering c ! i = Some k \<Longrightarrow> role (c ! i) = RoleUser"
  using numbered_are_users [of i c]
  by (cases "c ! i") (auto simp: numbering_def split: option.splits if_splits)

text \<open>
  C9: rewinding to a prompt turn. The number of items kept never exceeds the conversation and
  grows with the target; no kept item starts a turn at or after the target; and the first
  dropped item, if any, is a user message that starts such a turn, so a cut never falls
  inside a turn.
\<close>

theorem truncate_cuts_at_turn:
  assumes "conversation_truncate_for_prompt c target = n"
  shows "n \<le> length c \<and> n \<le> conversation_truncate_for_prompt c (target + d)
         \<and> (\<forall>i k. i < n \<and> numbering c ! i = Some k \<longrightarrow> k < target)
         \<and> (n < length c \<longrightarrow> role (c ! n) = RoleUser \<and> (\<exists>k. numbering c ! n = Some k \<and> target \<le> k))"
proof -
  have n: "n = first_at_least (numbering c) target" using assms by (simp add: truncate_numbering)
  have le: "n \<le> length c" using first_at_least_le [of "numbering c" target] by (simp add: n)
  have "k < target" if "i < n" "numbering c ! i = Some k" for i k
  proof -
    have "Some k \<in> set (take n (numbering c))"
      using that le by (auto simp: in_set_conv_nth intro!: exI [of _ i])
    then show ?thesis unfolding n by (rule first_at_least_kept)
  qed
  moreover have "\<exists>k. numbering c ! n = Some k \<and> target \<le> k" if "n < length c"
    using first_at_least_cut [of "numbering c" target] that by (simp add: n)
  ultimately show ?thesis
    using le numbering_user first_at_least_mono [of target "target + d" "numbering c"]
    by (auto simp: truncate_numbering n)
qed

theorem truncate_cuts_at_turn_witness:
  "let c = [system ''p'', user ''<user_info>'', user ''one'', assistant ''a'', user ''two'', assistant ''b'']
   in conversation_truncate_for_prompt c 1 = 4 \<and> role (c ! 4) = RoleUser \<and> numbering c ! 2 = Some 0"
proof -
  let ?c = "[system ''p'', user ''<user_info>'', user ''one'', assistant ''a'', user ''two'', assistant ''b'']"
  have n: "conversation_truncate_for_prompt ?c 1 = 4" and m: "numbering ?c ! 2 = Some 0"
    by (simp_all add: conversation_truncate_for_prompt_def conversation_truncate_legacy_def numbering_def
        system_def user_def user_tagged_def assistant_def legacy_index_def)
  show ?thesis using truncate_cuts_at_turn [OF n, of 0] n m by (simp add: Let_def)
qed

definition turn_starts :: "usize option list \<Rightarrow> nat" where
  "turn_starts xs = length (filter (\<lambda>x. x \<noteq> None) xs)"

lemma legacy_numbering_count:
  "nxt \<le> target \<Longrightarrow>
     nxt + turn_starts (take (first_at_least (legacy_numbering c nxt seen) target) (legacy_numbering c nxt seen))
       = min target (nxt + turn_starts (legacy_numbering c nxt seen))"
proof (induction c nxt seen rule: legacy_numbering.induct)
  case (2 u items nxt seen)
  then show ?case
    by (auto simp: turn_starts_def legacy_index_def split: if_splits)
qed (auto simp: turn_starts_def)

text \<open>
  C27: histories without recorded indices. Before indices were recorded, turns were numbered
  by position: the kept prefix then contains exactly \<open>target\<close> turn starts, or all of them
  when there are fewer.
\<close>

theorem legacy_keeps_target_turns:
  assumes "first_marker c = None"
  shows "turn_starts (take (conversation_truncate_for_prompt c target) (numbering c)) =
           min target (turn_starts (numbering c))"
  using assms legacy_numbering_count [of 0 target c False]
  by (simp add: truncate_numbering) (simp add: numbering_def)

theorem legacy_keeps_target_turns_witness:
  "let c = [user ''<user_info>'', user ''one'', user ''two'', user ''three'']
   in turn_starts (take (conversation_truncate_for_prompt c 2) (numbering c)) = 2"
proof -
  let ?c = "[user ''<user_info>'', user ''one'', user ''two'', user ''three'']"
  have "first_marker ?c = None" by (simp add: user_def user_tagged_def)
  from legacy_keeps_target_turns [OF this, of 2] show ?thesis
    by (simp add: Let_def numbering_def user_def user_tagged_def legacy_index_def turn_starts_def)
qed

end
