(* ===== verification/Item_Estimate.thy ===== *)
theory Item_Estimate
  imports Conversation_Ops Token_Estimation
begin

text \<open>
  Token estimates of conversation items, \<open>crates/codegen/xai-chat-state/src/actor/state.rs\<close>:
  bytes over four, a constant per image. The JSON printer of tool parameters is third-party
  code and is the argument \<open>json_to_string\<close>.
\<close>

fun estimate_system_message_tokens :: "ConversationItem \<Rightarrow> u64" where
  "estimate_system_message_tokens (System s) = estimate_tokens (s_content s)"
| "estimate_system_message_tokens _ = 0"

record 'json ToolSpec =
  ts_name :: string
  ts_description :: "string option"
  ts_parameters :: 'json

definition estimate_tool_tokens :: "('json \<Rightarrow> string) \<Rightarrow> string \<Rightarrow> string option \<Rightarrow> 'json \<Rightarrow> u64" where
  "estimate_tool_tokens json_to_string name description parameters =
     (let desc_len = (case description of None \<Rightarrow> 0 | Some d \<Rightarrow> length d);
          params_len = length (json_to_string parameters)
      in (length name + desc_len + params_len) div BYTES_PER_TOKEN)"

definition estimate_tool_specs_tokens :: "('json \<Rightarrow> string) \<Rightarrow> 'json ToolSpec list \<Rightarrow> u64" where
  "estimate_tool_specs_tokens json_to_string tools =
     sum_list (map (\<lambda>t. estimate_tool_tokens json_to_string (ts_name t) (ts_description t) (ts_parameters t)) tools)"

fun part_totals :: "ContentPart list \<Rightarrow> nat \<times> u64 \<Rightarrow> nat \<times> u64" where
  "part_totals [] acc = acc"
| "part_totals (Text t # ps) (bytes, image_count) = part_totals ps (bytes + length t, image_count)"
| "part_totals (Image url # ps) (bytes, image_count) = part_totals ps (bytes, image_count + 1)"

fun estimate_item_tokens :: "ConversationItem \<Rightarrow> u64" where
  "estimate_item_tokens (System s) = estimate_tokens (s_content s)"
| "estimate_item_tokens (User u) =
     (case part_totals (u_content u) (0, 0) of (bytes, image_count) \<Rightarrow>
        bytes div BYTES_PER_TOKEN + estimate_image_tokens image_count)"
| "estimate_item_tokens (Assistant a) =
     (length (a_content a) + sum_list (map (\<lambda>tc. length (tc_arguments tc)) (a_tool_calls a)))
       div BYTES_PER_TOKEN"
| "estimate_item_tokens (ToolResult tr) = estimate_tokens (t_content tr)"
| "estimate_item_tokens (BackendToolCall b) = estimate_tokens (text_summary b)"
| "estimate_item_tokens (Reasoning r) =
     max (length (reasoning_item_text r))
         ((case r_encrypted_content r of Some e \<Rightarrow> length e | None \<Rightarrow> 0) * 3 div 4)
       div BYTES_PER_TOKEN"

definition estimate_conversation_tokens :: "ConversationItem list \<Rightarrow> u64" where
  "estimate_conversation_tokens items = sum_list (map estimate_item_tokens items)"

definition count_item_tokens :: "ConversationItem \<Rightarrow> u32" where
  "count_item_tokens item =
     (if estimate_item_tokens item \<le> U32_MAX then estimate_item_tokens item else U32_MAX)"

fun is_system :: "ConversationItem \<Rightarrow> bool" where
  "is_system (System _) = True"
| "is_system _ = False"

definition estimate_messages_tokens :: "ConversationItem list \<Rightarrow> u64" where
  "estimate_messages_tokens items = sum_list (map estimate_item_tokens (filter (\<lambda>i. \<not> is_system i) items))"

lemma estimate_conversation_simps [simp]:
  "estimate_conversation_tokens [] = 0"
  "estimate_conversation_tokens (x # xs) = estimate_item_tokens x + estimate_conversation_tokens xs"
  "estimate_conversation_tokens (xs @ ys) = estimate_conversation_tokens xs + estimate_conversation_tokens ys"
  by (simp_all add: estimate_conversation_tokens_def)

lemma part_totals_eq:
  "part_totals ps (b, n) =
     (b + sum_list (map length (List.map_filter part_text ps)), n + length (filter (\<lambda>p. part_text p = None) ps))"
proof (induction ps arbitrary: b n)
  case (Cons p ps)
  then show ?case by (cases p) (simp_all add: List.map_filter_simps)
qed (simp add: List.map_filter_simps)

lemma estimate_split_system:
  "estimate_conversation_tokens items =
     sum_list (map estimate_system_message_tokens items) + estimate_messages_tokens items"
proof (induction items)
  case (Cons i items)
  then show ?case by (cases i) (simp_all add: estimate_messages_tokens_def)
qed (simp add: estimate_messages_tokens_def)

end
