(* ===== verification/Conversation_Repair.thy ===== *)
theory Conversation_Repair
  imports Conversation
begin

text \<open>
  Repair of the tool-call protocol in a conversation,
  \<open>crates/codegen/xai-grok-sampling-types/src/conversation.rs\<close>: synthetic results for
  unanswered tool calls, the read-only test, and removal of duplicate results. The source
  works by indices into one vector; so do the definitions, and each is proved equal to a
  reference definition by recursion on the conversation.
\<close>

section \<open>The source's index loops\<close>

datatype DanglingToolCallReason = UserCancelled | HarnessHalted string

fun synthetic_dangling_result_text :: "string \<Rightarrow> DanglingToolCallReason \<Rightarrow> string" where
  "synthetic_dangling_result_text name UserCancelled =
     ''Tool execution was cancelled by the user (tool `'' @ name @ ''` was not executed).''"
| "synthetic_dangling_result_text name (HarnessHalted cls) =
     ''Tool execution was halted by the harness ('' @ cls @ ''); the tool `'' @ name @ ''` was not executed.''"

fun as_tool_result :: "ConversationItem \<Rightarrow> ToolResultItem option" where
  "as_tool_result (ToolResult t) = Some t"
| "as_tool_result _ = None"

fun is_tool_result :: "ConversationItem \<Rightarrow> bool" where
  "is_tool_result (ToolResult _) = True"
| "is_tool_result _ = False"

lemma as_tool_result_None [simp]: "as_tool_result i = None \<longleftrightarrow> \<not> is_tool_result i"
  by (cases i) auto

fun calls_of :: "ConversationItem \<Rightarrow> ToolCall list" where
  "calls_of (Assistant a) = a_tool_calls a"
| "calls_of _ = []"

function answered_scan :: "ConversationItem list \<Rightarrow> nat \<Rightarrow> string set \<Rightarrow> string set \<times> nat" where
  "answered_scan c j answered =
     (if j < length c
      then case as_tool_result (c ! j) of
          Some tr \<Rightarrow> answered_scan c (j + 1) (insert (t_tool_call_id tr) answered)
        | None \<Rightarrow> (answered, j)
      else (answered, j))"
  by pat_completeness auto
termination by (relation "measure (\<lambda>(c, j, _). length c - j)") auto

declare answered_scan.simps [simp del]

definition synthetic_results ::
    "ToolCall list \<Rightarrow> string set \<Rightarrow> DanglingToolCallReason \<Rightarrow> ConversationItem list" where
  "synthetic_results calls answered reason =
     map (\<lambda>tc. tool_result (tc_id tc) (synthetic_dangling_result_text (tc_name tc) reason))
       (filter (\<lambda>tc. tc_id tc \<notin> answered) calls)"

lemma answered_scan_eq:
  "answered_scan c j ans =
     (ans \<union> {t_tool_call_id t |t. ToolResult t \<in> set (takeWhile is_tool_result (drop j c))},
      j + length (takeWhile is_tool_result (drop j c)))"
proof (induction c j ans rule: answered_scan.induct)
  case (1 c j ans)
  show ?case
  proof (cases "j < length c")
    case True
    then have d: "drop j c = c ! j # drop (Suc j) c" by (rule drop_Suc_nth)
    show ?thesis
    proof (cases "c ! j")
      case (ToolResult t)
      then show ?thesis
        using 1 True by (subst answered_scan.simps) (auto simp: d)
    qed (use True in \<open>simp_all add: answered_scan.simps d\<close>)
  qed (simp add: answered_scan.simps)
qed

function repair_scan ::
    "ConversationItem list \<Rightarrow> DanglingToolCallReason \<Rightarrow> nat \<Rightarrow> (nat \<times> ConversationItem list) list
       \<Rightarrow> (nat \<times> ConversationItem list) list" where
  "repair_scan c reason i repairs =
     (if i < length c
      then if calls_of (c ! i) \<noteq> []
           then let (answered, j) = answered_scan c (i + 1) {};
                    synthetic = synthetic_results (calls_of (c ! i)) answered reason
                in repair_scan c reason j
                     (if synthetic \<noteq> [] then repairs @ [(j, synthetic)] else repairs)
           else repair_scan c reason (i + 1) repairs
      else repairs)"
  by pat_completeness auto
termination
  by (relation "measure (\<lambda>(c, _, i, _). length c - i)") (auto simp: answered_scan_eq)

declare repair_scan.simps [simp del]

definition splice_at :: "nat \<Rightarrow> 'a list \<Rightarrow> 'a list \<Rightarrow> 'a list" where
  "splice_at p s c = take p c @ s @ drop p c"

definition repair_dangling_tool_calls ::
    "ConversationItem list \<Rightarrow> DanglingToolCallReason \<Rightarrow> ConversationItem list \<times> usize" where
  "repair_dangling_tool_calls c reason =
     (let repairs = repair_scan c reason 0 []
      in (fold (\<lambda>(insert_at, synthetic). splice_at insert_at synthetic) (rev repairs) c,
          sum_list (map (\<lambda>(_, s). length s) repairs)))"

function has_dangling_scan :: "ConversationItem list \<Rightarrow> nat \<Rightarrow> bool" where
  "has_dangling_scan c i =
     (if i < length c
      then if calls_of (c ! i) \<noteq> []
           then let (answered, j) = answered_scan c (i + 1) {}
                in if list_ex (\<lambda>tc. tc_id tc \<notin> answered) (calls_of (c ! i)) then True
                   else has_dangling_scan c j
           else has_dangling_scan c (i + 1)
      else False)"
  by pat_completeness auto
termination
  by (relation "measure (\<lambda>(c, i). length c - i)") (auto simp: answered_scan_eq)

declare has_dangling_scan.simps [simp del]

definition has_dangling_tool_calls :: "ConversationItem list \<Rightarrow> bool" where
  "has_dangling_tool_calls c = has_dangling_scan c 0"

function run_end :: "ConversationItem list \<Rightarrow> nat \<Rightarrow> nat" where
  "run_end c e = (if e < length c \<and> is_tool_result (c ! e) then run_end c (e + 1) else e)"
  by pat_completeness auto
termination by (relation "measure (\<lambda>(c, e). length c - e)") auto

declare run_end.simps [simp del]

fun dup_step ::
    "nat \<times> ConversationItem \<Rightarrow> (string \<rightharpoonup> nat) \<times> nat list \<Rightarrow> (string \<rightharpoonup> nat) \<times> nat list" where
  "dup_step (idx, item) (seen, to_remove) =
     (case as_tool_result item of
        Some tr \<Rightarrow>
          (seen(t_tool_call_id tr \<mapsto> idx),
           case seen (t_tool_call_id tr) of Some prev \<Rightarrow> to_remove @ [prev] | None \<Rightarrow> to_remove)
      | None \<Rightarrow> (seen, to_remove))"

definition remove_at :: "nat \<Rightarrow> 'a list \<Rightarrow> 'a list" where
  "remove_at idx c = take idx c @ drop (Suc idx) c"

definition dup_indices :: "ConversationItem list \<Rightarrow> nat \<Rightarrow> nat \<Rightarrow> nat list" where
  "dup_indices c start e = snd (fold dup_step (drop start (take e (enumerate 0 c))) (Map.empty, []))"

definition remove_all_at :: "nat list \<Rightarrow> 'a list \<Rightarrow> 'a list" where
  "remove_all_at to_remove c = fold remove_at (rev (sort to_remove)) c"

lemma ran_upd: "ran (m(k \<mapsto> v)) \<subseteq> insert v (ran m)"
  by (auto simp: ran_def)

lemma dup_fold_set:
  "set (snd (fold dup_step xs (seen, rem))) \<subseteq> set rem \<union> ran seen \<union> fst ` set xs"
proof (induction xs arbitrary: seen rem)
  case (Cons x xs)
  obtain idx item where x: "x = (idx, item)" by (cases x)
  show ?case
  proof (cases "as_tool_result item")
    case (Some tr)
    let ?i = "t_tool_call_id tr"
    let ?rem = "case seen ?i of Some prev \<Rightarrow> rem @ [prev] | None \<Rightarrow> rem"
    have "set ?rem \<subseteq> set rem \<union> ran seen" by (auto simp: ran_def split: option.splits)
    moreover have "set (snd (fold dup_step xs (seen(?i \<mapsto> idx), ?rem))) \<subseteq>
        set ?rem \<union> ran (seen(?i \<mapsto> idx)) \<union> fst ` set xs" by (rule Cons.IH)
    ultimately show ?thesis using ran_upd [of seen ?i idx] by (auto simp: x Some simp del: fun_upd_apply)
  next
    case None
    then show ?thesis using Cons.IH [of seen rem] by (auto simp: x simp del: as_tool_result_None)
  qed
qed simp

lemma dup_indices_less: "set (dup_indices c start e) \<subseteq> {..< length c}"
proof -
  have "set (dup_indices c start e) \<subseteq> fst ` set (drop start (take e (enumerate 0 c)))"
    using dup_fold_set [of "drop start (take e (enumerate 0 c))" Map.empty "[]"]
    by (simp add: dup_indices_def)
  also have "\<dots> \<subseteq> fst ` set (enumerate 0 c)"
    by (intro image_mono) (meson in_set_dropD in_set_takeD subsetI)
  finally show ?thesis by (auto simp: in_set_enumerate_eq)
qed

lemma length_remove_at: "length (remove_at k c) = (if k < length c then length c - 1 else length c)"
  by (auto simp: remove_at_def)

lemma length_remove_all_le: "length (fold remove_at ks c) \<le> length c"
proof (induction ks arbitrary: c)
  case (Cons k ks)
  have "length (remove_at k c) \<le> length c" by (simp add: length_remove_at)
  then show ?case using Cons [of "remove_at k c"] by simp
qed simp

lemma length_remove_all_less:
  assumes "rem \<noteq> []" "set rem \<subseteq> {..< length c}"
  shows "length (remove_all_at rem c) < length c"
proof -
  obtain k ks where k: "rev (sort rem) = k # ks"
    using assms(1) by (metis list.exhaust rev_is_Nil_conv set_empty set_sort)
  then have "k \<in> set rem" by (metis list.set_intros(1) set_rev set_sort)
  then have "length (remove_at k c) < length c" using assms(2) by (auto simp: length_remove_at)
  then show ?thesis
    using length_remove_all_le [of ks "remove_at k c"] by (simp add: remove_all_at_def k)
qed

lemma run_end_eq: "run_end c e = e + length (takeWhile is_tool_result (drop e c))"
proof (induction c e rule: run_end.induct)
  case (1 c e)
  then show ?case
    by (cases "e < length c") (auto simp: run_end.simps [of c e] drop_Suc_nth)
qed

function dedup_loop :: "ConversationItem list \<Rightarrow> nat \<Rightarrow> usize \<Rightarrow> ConversationItem list \<times> usize" where
  "dedup_loop c i total_removed =
     (if i < length c
      then if calls_of (c ! i) \<noteq> []
           then let start = i + 1; e = run_end c start;
                    to_remove = (if start < e then dup_indices c start e else [])
                in if to_remove \<noteq> []
                   then dedup_loop (remove_all_at to_remove c) i (total_removed + length to_remove)
                   else dedup_loop c e total_removed
           else dedup_loop c (i + 1) total_removed
      else (c, total_removed))"
  by pat_completeness auto
termination
proof (relation "measures [\<lambda>(c, i, _). length c, \<lambda>(c, i, _). length c - i]", goal_cases)
  case (2 c i n start e rem)
  then have "length (remove_all_at rem c) < length c"
    using dup_indices_less [of c start e] by (intro length_remove_all_less) (auto split: if_splits)
  then show ?case by simp
qed (auto simp: run_end_eq)

declare dedup_loop.simps [simp del]

definition dedup_duplicate_tool_results :: "ConversationItem list \<Rightarrow> ConversationItem list \<times> usize" where
  "dedup_duplicate_tool_results c = dedup_loop c 0 0"

section \<open>Reference definitions\<close>

definition answered_by :: "ConversationItem list \<Rightarrow> string set" where
  "answered_by rs = {t_tool_call_id t |t. ToolResult t \<in> set rs}"

function repair_ref :: "DanglingToolCallReason \<Rightarrow> ConversationItem list \<Rightarrow> ConversationItem list" where
  "repair_ref reason [] = []"
| "repair_ref reason (item # rest) =
     (if calls_of item = [] then item # repair_ref reason rest
      else let rs = takeWhile is_tool_result rest
           in item # rs @ synthetic_results (calls_of item) (answered_by rs) reason
                @ repair_ref reason (dropWhile is_tool_result rest))"
  by pat_completeness auto
termination
  by (relation "measure (\<lambda>(_, c). length c)") (auto simp: le_imp_less_Suc length_dropWhile_le)

function has_dangling_ref :: "ConversationItem list \<Rightarrow> bool" where
  "has_dangling_ref [] = False"
| "has_dangling_ref (item # rest) =
     (if calls_of item = [] then has_dangling_ref rest
      else list_ex (\<lambda>tc. tc_id tc \<notin> answered_by (takeWhile is_tool_result rest)) (calls_of item)
           \<or> has_dangling_ref (dropWhile is_tool_result rest))"
  by pat_completeness auto
termination
  by (relation "measure length") (auto simp: le_imp_less_Suc length_dropWhile_le)

fun result_id :: "ConversationItem \<Rightarrow> string" where
  "result_id (ToolResult t) = t_tool_call_id t"
| "result_id _ = []"

fun keep_last :: "ConversationItem list \<Rightarrow> ConversationItem list" where
  "keep_last [] = []"
| "keep_last (r # rs) = (if result_id r \<in> set (map result_id rs) then keep_last rs else r # keep_last rs)"

function dedup_ref :: "ConversationItem list \<Rightarrow> ConversationItem list" where
  "dedup_ref [] = []"
| "dedup_ref (item # rest) =
     (if calls_of item = [] then item # dedup_ref rest
      else item # keep_last (takeWhile is_tool_result rest) @ dedup_ref (dropWhile is_tool_result rest))"
  by pat_completeness auto
termination
  by (relation "measure length") (auto simp: le_imp_less_Suc length_dropWhile_le)

section \<open>The index loops compute the reference\<close>

lemma drop_run: "drop (i + length (takeWhile P (drop i c))) c = dropWhile P (drop i c)"
  by (metis add.commute drop_drop dropWhile_eq_drop)

lemma take_run: "take (i + length (takeWhile P (drop i c))) c = take i c @ takeWhile P (drop i c)"
  by (metis add.commute append_take_drop_id same_append_eq takeWhile_eq_take take_add)

lemma answered_by_scan: "answered_scan c j {} =
    (answered_by (takeWhile is_tool_result (drop j c)), j + length (takeWhile is_tool_result (drop j c)))"
  by (simp add: answered_scan_eq answered_by_def)

lemma repair_scan_step:
  assumes "i < length c" "calls_of (c ! i) \<noteq> []"
  shows "repair_scan c reason i reps =
    (let rs = takeWhile is_tool_result (drop (Suc i) c); j = Suc i + length rs;
         syn = synthetic_results (calls_of (c ! i)) (answered_by rs) reason
     in repair_scan c reason j (if syn \<noteq> [] then reps @ [(j, syn)] else reps))"
  using assms by (subst repair_scan.simps) (simp add: answered_by_scan Let_def)

lemma repair_scan_skip:
  "i < length c \<Longrightarrow> calls_of (c ! i) = [] \<Longrightarrow> repair_scan c reason i reps = repair_scan c reason (Suc i) reps"
  by (subst repair_scan.simps) simp

lemma repair_scan_end: "length c \<le> i \<Longrightarrow> repair_scan c reason i reps = reps"
  by (subst repair_scan.simps) simp

lemma repair_scan_acc: "repair_scan c reason i reps = reps @ repair_scan c reason i []"
proof (induction "length c - i" arbitrary: i reps rule: less_induct)
  case less
  consider "length c \<le> i" | "i < length c" "calls_of (c ! i) = []" | "i < length c" "calls_of (c ! i) \<noteq> []"
    by linarith
  then show ?case
  proof cases
    case 2
    then show ?thesis using less [of "Suc i" reps] less [of "Suc i" "[]"] by (simp add: repair_scan_skip)
  next
    case 3
    let ?rs = "takeWhile is_tool_result (drop (Suc i) c)"
    let ?j = "Suc i + length ?rs"
    let ?syn = "synthetic_results (calls_of (c ! i)) (answered_by ?rs) reason"
    have "length c - ?j < length c - i" using 3(1) by simp
    then have f: "repair_scan c reason ?j r = r @ repair_scan c reason ?j []" for r by (rule less)
    show ?thesis
      unfolding repair_scan_step [OF 3] Let_def
      using f [of reps] f [of "reps @ [(?j, ?syn)]"] f [of "[(?j, ?syn)]"] by (cases "?syn = []") simp_all
  qed (simp add: repair_scan_end)
qed

definition apply_repairs :: "(nat \<times> 'a list) list \<Rightarrow> 'a list \<Rightarrow> 'a list" where
  "apply_repairs reps c = foldr (\<lambda>(p, s). splice_at p s) reps c"

lemma splice_at_take: "p \<le> length c \<Longrightarrow> splice_at p s (take p c @ d) = take p c @ s @ d"
  by (simp add: splice_at_def)

lemma repair_scan_ref:
  "i \<le> length c \<Longrightarrow>
     apply_repairs (repair_scan c reason i []) c = take i c @ repair_ref reason (drop i c)"
proof (induction "length c - i" arbitrary: i rule: less_induct)
  case less
  consider "length c = i" | "i < length c" "calls_of (c ! i) = []" | "i < length c" "calls_of (c ! i) \<noteq> []"
    using less.prems by linarith
  then show ?case
  proof cases
    case 1
    then show ?thesis by (simp add: repair_scan_end apply_repairs_def)
  next
    case 2
    then show ?thesis
      using less.hyps [of "Suc i"]
      by (simp add: repair_scan_skip drop_Suc_nth take_Suc_conv_app_nth)
  next
    case 3
    let ?rs = "takeWhile is_tool_result (drop (Suc i) c)"
    let ?j = "Suc i + length ?rs"
    let ?syn = "synthetic_results (calls_of (c ! i)) (answered_by ?rs) reason"
    have j: "?j \<le> length c" using 3(1) length_takeWhile_le [of is_tool_result "drop (Suc i) c"] by simp
    have tk: "take ?j c = take i c @ c ! i # ?rs"
      using 3(1) take_run [of "Suc i" is_tool_result c] by (simp add: take_Suc_conv_app_nth)
    have IH: "apply_repairs (repair_scan c reason ?j []) c = take ?j c @ repair_ref reason (drop ?j c)"
      using less.hyps [of ?j] 3(1) j by simp
    have "apply_repairs (repair_scan c reason i []) c =
        (if ?syn \<noteq> [] then splice_at ?j ?syn else (\<lambda>x. x)) (take ?j c @ repair_ref reason (drop ?j c))"
      unfolding repair_scan_step [OF 3] Let_def IH [symmetric]
      by (subst repair_scan_acc) (simp add: apply_repairs_def)
    also have "\<dots> = take ?j c @ ?syn @ repair_ref reason (drop ?j c)"
      using splice_at_take [OF j] by simp
    also have "\<dots> = take i c @ repair_ref reason (drop i c)"
      using 3 drop_run [of "Suc i" is_tool_result c] tk by (simp add: drop_Suc_nth Let_def)
    finally show ?thesis .
  qed
qed

lemma repair_eq_ref: "fst (repair_dangling_tool_calls c reason) = repair_ref reason c"
proof -
  have "fold (\<lambda>(p, s). splice_at p s) (rev reps) c = apply_repairs reps c" for reps
    by (simp add: apply_repairs_def foldr_conv_fold)
  then show ?thesis
    using repair_scan_ref [of 0 c reason] by (simp add: repair_dangling_tool_calls_def Let_def)
qed

lemma length_apply_repairs:
  "length (apply_repairs reps c) = length c + sum_list (map (\<lambda>(_, s). length s) reps)"
  by (induction reps) (auto simp: apply_repairs_def splice_at_def split: prod.splits)

lemma repair_count: "length c + snd (repair_dangling_tool_calls c reason) = length (repair_ref reason c)"
proof -
  have "length (apply_repairs (repair_scan c reason 0 []) c) = length (repair_ref reason c)"
    using repair_scan_ref [of 0 c reason] by simp
  then show ?thesis by (simp add: length_apply_repairs repair_dangling_tool_calls_def Let_def)
qed

lemma has_dangling_scan_ref: "has_dangling_scan c i = has_dangling_ref (drop i c)"
proof (induction c i rule: has_dangling_scan.induct)
  case (1 c i)
  show ?case
  proof (cases "i < length c")
    case True
    then have d: "drop i c = c ! i # drop (Suc i) c" by (rule drop_Suc_nth)
    show ?thesis
      using 1 True drop_run [of "Suc i" is_tool_result c]
      by (subst has_dangling_scan.simps) (auto simp: d answered_by_scan)
  qed (simp add: has_dangling_scan.simps)
qed

lemma has_dangling_eq_ref: "has_dangling_tool_calls c = has_dangling_ref c"
  by (simp add: has_dangling_tool_calls_def has_dangling_scan_ref)

section \<open>Deduplication computes the reference\<close>

lemma nths_prefix: "{..< length xs} \<subseteq> A \<Longrightarrow> nths (xs @ ys) A = xs @ nths ys {j. j + length xs \<in> A}"
  by (simp add: nths_append nths_all subset_iff)

lemma foldr_remove_at:
  assumes "sorted ks" "distinct ks" "set ks \<subseteq> {..< length c}"
  shows "foldr remove_at ks c = nths c (- set ks)"
  using assms
proof (induction ks)
  case (Cons k ks)
  let ?u = "take k c" and ?v = "drop (Suc k) c" and ?x = "c ! k"
  have k: "k < length c" and gt: "\<forall>j \<in> set ks. k < j"
    using Cons.prems by (auto simp: order.strict_iff_order)
  have c: "c = ?u @ ?x # ?v" using id_take_nth_drop [OF k] .
  have lu: "length ?u = k" using k by simp
  let ?w = "nths ?v {j. j + Suc k \<notin> set ks}"
  have "{..< length (?u @ [?x])} \<subseteq> - set ks" using gt lu by auto
  from nths_prefix [OF this, of ?v] have "nths c (- set ks) = (?u @ [?x]) @ ?w"
    using lu by (simp flip: c)
  moreover have "foldr remove_at ks c = nths c (- set ks)" using Cons by simp
  ultimately have "foldr remove_at (k # ks) c = remove_at k ((?u @ [?x]) @ ?w)" by simp
  then have "foldr remove_at (k # ks) c = ?u @ ?w" using lu by (simp add: remove_at_def)
  moreover have "nths c (- set (k # ks)) = ?u @ nths (?x # ?v) {j. j + k \<in> - set (k # ks)}"
  proof -
    have "{..< length ?u} \<subseteq> - set (k # ks)" using gt lu by auto
    from nths_prefix [OF this, of "?x # ?v"] show ?thesis using lu by (simp flip: c)
  qed
  moreover have "nths (?x # ?v) {j. j + k \<in> - set (k # ks)} = ?w"
    by (auto simp: nths_Cons intro!: arg_cong [of _ _ "nths ?v"])
  ultimately show ?case by simp
qed (simp add: nths_all)

lemma remove_all_at_nths:
  "distinct rem \<Longrightarrow> set rem \<subseteq> {..< length c} \<Longrightarrow> remove_all_at rem c = nths c (- set rem)"
  using foldr_remove_at [of "sort rem" c] by (simp add: remove_all_at_def foldr_conv_fold)

definition later_dup :: "'a list \<Rightarrow> nat \<Rightarrow> bool" where
  "later_dup ids k \<longleftrightarrow> k < length ids \<and> ids ! k \<in> set (drop (Suc k) ids)"

lemma later_dup_Cons: "later_dup (x # xs) k = (case k of 0 \<Rightarrow> x \<in> set xs | Suc j \<Rightarrow> later_dup xs j)"
  by (cases k) (auto simp: later_dup_def)

lemma keep_last_nths: "keep_last rs = nths rs {k. \<not> later_dup (map result_id rs) k}"
  by (induction rs) (auto simp: nths_Cons later_dup_Cons)

lemma later_dup_snoc:
  "later_dup (xs @ [x]) k \<longleftrightarrow> later_dup xs k \<or> k < length xs \<and> xs ! k = x"
  by (auto simp: later_dup_def nth_append less_Suc_eq)

text \<open>What the scan knows after a prefix: the last index of each id, and the superseded ones.\<close>

definition dup_inv :: "nat \<Rightarrow> string list \<Rightarrow> (string \<rightharpoonup> nat) \<times> nat list \<Rightarrow> bool" where
  "dup_inv s ids st \<longleftrightarrow>
     (\<forall>x. fst st x = None \<longleftrightarrow> x \<notin> set ids)
     \<and> (\<forall>x p. fst st x = Some p \<longrightarrow>
          (\<exists>k. p = s + k \<and> k < length ids \<and> ids ! k = x \<and> \<not> later_dup ids k))
     \<and> set (snd st) = (\<lambda>k. s + k) ` {k. later_dup ids k} \<and> distinct (snd st)"

lemma not_later_dup_unique:
  "\<not> later_dup ids k \<Longrightarrow> \<not> later_dup ids m \<Longrightarrow> k < length ids \<Longrightarrow> m < length ids \<Longrightarrow> ids ! k = ids ! m \<Longrightarrow> k = m"
proof (induction k m rule: linorder_wlog)
  case (le k m)
  show ?case
  proof (rule ccontr)
    assume "k \<noteq> m"
    then have "k < m" using le by simp
    then have "ids ! m \<in> set (drop (Suc k) ids)"
      using le by (auto simp: in_set_conv_nth intro!: exI [of _ "m - Suc k"])
    then show False using le by (simp add: later_dup_def)
  qed
qed auto

lemma dup_inv_step:
  assumes "dup_inv s ids st"
  shows "dup_inv s (ids @ [t_tool_call_id t]) (dup_step (s + length ids, ToolResult t) st)"
proof -
  obtain seen rem where st: "st = (seen, rem)" by (cases st)
  let ?x = "t_tool_call_id t"
  have none: "\<And>y. seen y = None \<longleftrightarrow> y \<notin> set ids"
    and some: "\<And>y p. seen y = Some p \<Longrightarrow> \<exists>k. p = s + k \<and> k < length ids \<and> ids ! k = y \<and> \<not> later_dup ids k"
    and rem: "set rem = (\<lambda>k. s + k) ` {k. later_dup ids k}" and dist: "distinct rem"
    using assms by (auto simp: dup_inv_def st)
  have seen': "\<forall>y p. (seen(?x \<mapsto> s + length ids)) y = Some p \<longrightarrow>
      (\<exists>k. p = s + k \<and> k < length (ids @ [?x]) \<and> (ids @ [?x]) ! k = y \<and> \<not> later_dup (ids @ [?x]) k)"
  proof (intro allI impI)
    fix y p assume y: "(seen(?x \<mapsto> s + length ids)) y = Some p"
    show "\<exists>k. p = s + k \<and> k < length (ids @ [?x]) \<and> (ids @ [?x]) ! k = y \<and> \<not> later_dup (ids @ [?x]) k"
    proof (cases "y = ?x")
      case True
      then show ?thesis using y by (intro exI [of _ "length ids"]) (simp add: later_dup_def)
    next
      case False
      then obtain k where "p = s + k" "k < length ids" "ids ! k = y" "\<not> later_dup ids k"
        using some [of y p] y by auto
      then show ?thesis using False by (intro exI [of _ k]) (simp add: nth_append later_dup_snoc)
    qed
  qed
  show ?thesis
  proof (cases "seen ?x")
    case None
    then have "?x \<notin> set ids" by (simp add: none)
    then have "later_dup (ids @ [?x]) k \<longleftrightarrow> later_dup ids k" for k
      by (auto simp: later_dup_snoc dest: nth_mem)
    moreover have "dup_step (s + length ids, ToolResult t) st = (seen(?x \<mapsto> s + length ids), rem)"
      by (simp add: st None)
    ultimately show ?thesis using seen' none rem dist by (simp add: dup_inv_def)
  next
    case (Some p)
    then obtain k where k: "p = s + k" "k < length ids" "ids ! k = ?x" "\<not> later_dup ids k"
      using some by blast
    have "later_dup (ids @ [?x]) m \<longleftrightarrow> later_dup ids m \<or> m = k" for m
      using k not_later_dup_unique [OF _ k(4), of m] by (auto simp: later_dup_snoc)
    moreover have "p \<notin> set rem" using k by (auto simp: rem)
    moreover have "?x \<in> set ids" using k by (metis nth_mem)
    ultimately show ?thesis using Some seen' none rem dist k by (auto simp: dup_inv_def st)
  qed
qed

lemma dup_inv_run:
  "list_all is_tool_result rs \<Longrightarrow>
     dup_inv s (map result_id rs) (fold dup_step (enumerate s rs) (Map.empty, []))"
proof (induction rs rule: rev_induct)
  case Nil
  then show ?case by (simp add: dup_inv_def later_dup_def)
next
  case (snoc r rs)
  then obtain t where r: "r = ToolResult t" by (cases r) auto
  then show ?case
    using snoc dup_inv_step [of s "map result_id rs" _ t] by (simp add: enumerate_append_eq)
qed

lemma drop_take_enumerate: "drop n (take m (enumerate 0 c)) = enumerate n (drop n (take m c))"
proof -
  have "drop n (take m (enumerate 0 c)) = zip (drop n (take m [0..<length c])) (drop n (take m c))"
    by (simp add: enumerate_eq_zip take_zip drop_zip)
  also have "drop n (take m [0..<length c]) = [n..<n + length (drop n (take m c))]"
    by (cases "n \<le> min m (length c)") (auto simp: min_def not_le split: if_splits)
  finally show ?thesis by (simp add: enumerate_eq_zip)
qed

lemma remove_dups:
  assumes "i < length c"
  defines "rs \<equiv> takeWhile is_tool_result (drop (Suc i) c)"
  defines "e \<equiv> Suc i + length rs"
  shows "remove_all_at (dup_indices c (Suc i) e) c =
           take (Suc i) c @ keep_last rs @ dropWhile is_tool_result (drop (Suc i) c)"
    and "set (dup_indices c (Suc i) e) = (\<lambda>k. Suc i + k) ` {k. later_dup (map result_id rs) k}"
    and "distinct (dup_indices c (Suc i) e)"
proof -
  let ?u = "take (Suc i) c" and ?v = "dropWhile is_tool_result (drop (Suc i) c)"
  let ?rem = "dup_indices c (Suc i) e"
  have c: "c = ?u @ rs @ ?v" unfolding rs_def by simp
  have lu: "length ?u = Suc i" using assms(1) by simp
  have "take e c = ?u @ rs" unfolding e_def rs_def by (rule take_run)
  then have "drop (Suc i) (take e c) = rs" using lu by simp
  then have "?rem = snd (fold dup_step (enumerate (Suc i) rs) (Map.empty, []))"
    by (simp add: dup_indices_def drop_take_enumerate)
  moreover have "list_all is_tool_result rs"
    unfolding rs_def by (auto simp: list_all_iff dest: set_takeWhileD)
  ultimately have inv: "set ?rem = (\<lambda>k. Suc i + k) ` {k. later_dup (map result_id rs) k}" "distinct ?rem"
    using dup_inv_run [of rs "Suc i"] by (simp_all add: dup_inv_def)
  then show "set ?rem = (\<lambda>k. Suc i + k) ` {k. later_dup (map result_id rs) k}" "distinct ?rem" .
  have "remove_all_at ?rem c = nths c (- set ?rem)"
    by (rule remove_all_at_nths [OF inv(2) dup_indices_less])
  also have "\<dots> = ?u @ nths (rs @ ?v) {j. j + Suc i \<in> - set ?rem}"
  proof -
    have "{..< length ?u} \<subseteq> - set ?rem" using lu by (auto simp: inv(1))
    from nths_prefix [OF this, of "rs @ ?v"] show ?thesis using lu by (simp flip: c)
  qed
  also have "nths (rs @ ?v) {j. j + Suc i \<in> - set ?rem} = keep_last rs @ ?v"
  proof -
    have "j + Suc i \<in> set ?rem \<longleftrightarrow> later_dup (map result_id rs) j" for j
      by (auto simp: inv(1) add.commute)
    moreover have "\<not> later_dup (map result_id rs) (j + length rs)" for j by (simp add: later_dup_def)
    ultimately show ?thesis by (simp add: nths_append keep_last_nths nths_all)
  qed
  finally show "remove_all_at ?rem c = ?u @ keep_last rs @ ?v" .
qed

lemma set_ids_keep_last: "result_id ` set (keep_last rs) = result_id ` set rs"
  by (induction rs) auto

lemma distinct_keep_last: "distinct (map result_id (keep_last rs))"
  using set_ids_keep_last by (induction rs) (auto simp: image_iff)

lemma keep_last_id: "distinct (map result_id rs) \<Longrightarrow> keep_last rs = rs"
  by (induction rs) auto

lemma keep_last_all: "list_all P rs \<Longrightarrow> list_all P (keep_last rs)"
  by (induction rs) auto

lemma takeWhile_all_append:
  "list_all P xs \<Longrightarrow> takeWhile P (xs @ dropWhile P ys) = xs"
  "list_all P xs \<Longrightarrow> dropWhile P (xs @ dropWhile P ys) = dropWhile P ys"
proof -
  have "takeWhile P (dropWhile P ys) = []" by (induction ys) auto
  then show "list_all P xs \<Longrightarrow> takeWhile P (xs @ dropWhile P ys) = xs" by (induction xs) simp_all
  show "list_all P xs \<Longrightarrow> dropWhile P (xs @ dropWhile P ys) = dropWhile P ys" by (induction xs) simp_all
qed

lemma run_all_results: "list_all is_tool_result (takeWhile is_tool_result c)"
  by (auto simp: list_all_iff dest: set_takeWhileD)

lemma length_remove_all:
  assumes "distinct rem" "set rem \<subseteq> {..< length c}"
  shows "length (remove_all_at rem c) + length rem = length c"
proof -
  have "{i. i < length c \<and> i \<in> - set rem} = {..< length c} - set rem" by auto
  then have "length (remove_all_at rem c) = length c - card (set rem)"
    using assms by (simp add: remove_all_at_nths length_nths card_Diff_subset)
  moreover have "length rem \<le> length c"
    using card_mono [OF _ assms(2)] assms(1) by (simp add: distinct_card)
  ultimately show ?thesis using assms(1) by (simp add: distinct_card)
qed

lemma dedup_loop_ref:
  assumes "i \<le> length c"
  shows "fst (dedup_loop c i n) = take i c @ dedup_ref (drop i c)
         \<and> snd (dedup_loop c i n) + length (fst (dedup_loop c i n)) = n + length c"
  using assms
proof (induction c i n rule: dedup_loop.induct)
  case (1 c i n)
  let ?rs = "takeWhile is_tool_result (drop (Suc i) c)" and ?v = "dropWhile is_tool_result (drop (Suc i) c)"
  let ?e = "run_end c (i + 1)"
  let ?rem = "if i + 1 < ?e then dup_indices c (i + 1) ?e else []"
  consider "i = length c" | "i < length c" "calls_of (c ! i) = []" | "i < length c" "calls_of (c ! i) \<noteq> []"
    using "1.prems" by linarith
  then show ?case
  proof cases
    case 2
    then show ?thesis
      using "1.IH"(3) by (auto simp: dedup_loop.simps [of c i n] drop_Suc_nth take_Suc_conv_app_nth)
  next
    case 3
    have e: "?e = Suc i + length ?rs" by (simp add: run_end_eq)
    have d: "drop i c = c ! i # drop (Suc i) c" using 3(1) by (rule drop_Suc_nth)
    have ref: "dedup_ref (drop i c) = c ! i # keep_last ?rs @ dedup_ref ?v" using 3 by (simp add: d)
    note dups = remove_dups [OF 3(1)]
    show ?thesis
    proof (cases "?rem = []")
      case True
      have "{k. later_dup (map result_id ?rs) k} = {}"
      proof (cases "?rs = []")
        case False
        then have "dup_indices c (Suc i) (Suc i + length ?rs) = []" using True by (simp add: run_end_eq)
        then show ?thesis using dups(2) by (metis empty_set image_is_empty)
      qed (simp add: later_dup_def)
      then have "keep_last ?rs = ?rs" by (simp add: keep_last_nths nths_all)
      moreover have "dedup_loop c i n = dedup_loop c ?e n"
        using 3 True by (subst dedup_loop.simps) (simp add: Let_def split: if_splits)
      moreover have "?e \<le> length c"
        using 3(1) length_takeWhile_le [of is_tool_result "drop (Suc i) c"] by (simp add: run_end_eq)
      moreover have "take ?e c = take i c @ c ! i # ?rs"
        using 3(1) take_run [of "Suc i" is_tool_result c] unfolding e by (simp add: take_Suc_conv_app_nth)
      moreover have "drop ?e c = ?v" unfolding e by (rule drop_run)
      moreover have "?e \<le> length c \<Longrightarrow> fst (dedup_loop c ?e n) = take ?e c @ dedup_ref (drop ?e c)
          \<and> snd (dedup_loop c ?e n) + length (fst (dedup_loop c ?e n)) = n + length c"
        by (rule "1.IH"(2) [OF 3 refl refl refl]) (use True in simp)
      ultimately show ?thesis using ref by auto
    next
      case False
      then have rem: "?rem = dup_indices c (Suc i) (Suc i + length ?rs)" by (auto simp: run_end_eq split: if_splits)
      let ?c' = "remove_all_at ?rem c"
      have c': "?c' = take (Suc i) c @ keep_last ?rs @ ?v" unfolding rem by (rule dups(1))
      have len: "length ?c' + length ?rem = length c"
        unfolding rem by (rule length_remove_all [OF dups(3) dup_indices_less])
      have tk: "take i ?c' = take i c" and dr: "drop i ?c' = c ! i # keep_last ?rs @ ?v"
        unfolding c' using 3(1) by (simp_all add: take_Suc_conv_app_nth)
      have "dedup_ref (drop i ?c') = dedup_ref (drop i c)"
        unfolding dr ref using 3 keep_last_all [OF run_all_results]
        by (simp add: takeWhile_all_append keep_last_id distinct_keep_last)
      moreover have "dedup_loop c i n = dedup_loop ?c' i (n + length ?rem)"
        using 3 False by (subst dedup_loop.simps) (simp add: Let_def split: if_splits)
      moreover have "i \<le> length ?c'" unfolding c' using 3(1) by simp
      moreover have "i \<le> length ?c' \<Longrightarrow>
          fst (dedup_loop ?c' i (n + length ?rem)) = take i ?c' @ dedup_ref (drop i ?c')
          \<and> snd (dedup_loop ?c' i (n + length ?rem)) + length (fst (dedup_loop ?c' i (n + length ?rem)))
              = n + length ?rem + length ?c'"
        by (rule "1.IH"(1) [OF 3 refl refl refl]) (use False in simp)
      ultimately show ?thesis using tk len by auto
    qed
  qed (simp add: dedup_loop.simps)
qed

lemma dedup_eq_ref: "fst (dedup_duplicate_tool_results c) = dedup_ref c"
  using dedup_loop_ref [of 0 c 0] by (simp add: dedup_duplicate_tool_results_def)

lemma dedup_count: "snd (dedup_duplicate_tool_results c) + length (dedup_ref c) = length c"
  using dedup_loop_ref [of 0 c 0] by (auto simp: dedup_duplicate_tool_results_def)

section \<open>Properties of the repair\<close>

lemma synthetic_all_results: "list_all is_tool_result (synthetic_results calls answered reason)"
  by (simp add: synthetic_results_def list_all_iff tool_result_def)

lemma answered_append: "answered_by (rs @ ss) = answered_by rs \<union> answered_by ss"
  by (auto simp: answered_by_def)

lemma answered_synthetic:
  "answered_by (synthetic_results calls answered reason) = {tc_id tc |tc. tc \<in> set calls \<and> tc_id tc \<notin> answered}"
  by (force simp: answered_by_def synthetic_results_def tool_result_def)

lemma dropWhile_repair_ref:
  "\<exists>d. repair_ref reason (dropWhile is_tool_result c) = dropWhile is_tool_result d"
proof (cases "dropWhile is_tool_result c")
  case Nil
  show ?thesis unfolding Nil by (intro exI [of _ "[]"]) simp
next
  case (Cons x xs)
  then have "\<not> is_tool_result x" by (rule dropWhile_hd_false)
  moreover obtain ys where "repair_ref reason (x # xs) = x # ys"
    by (cases "calls_of x = []") (simp_all add: Let_def)
  ultimately show ?thesis by (intro exI [of _ "x # ys"]) (simp add: Cons del: repair_ref.simps)
qed

lemma has_dangling_item_run:
  assumes "calls_of item \<noteq> []" "list_all is_tool_result rs"
  shows "has_dangling_ref (item # rs @ dropWhile is_tool_result d) \<longleftrightarrow>
           list_ex (\<lambda>tc. tc_id tc \<notin> answered_by rs) (calls_of item)
           \<or> has_dangling_ref (dropWhile is_tool_result d)"
  using assms by (simp add: takeWhile_all_append)

lemma repair_ref_no_dangling: "\<not> has_dangling_ref (repair_ref reason c)"
proof (induction reason c rule: repair_ref.induct)
  case (2 reason item rest)
  show ?case
  proof (cases "calls_of item = []")
    case False
    let ?rs = "takeWhile is_tool_result rest"
    let ?syn = "synthetic_results (calls_of item) (answered_by ?rs) reason"
    obtain d where d: "repair_ref reason (dropWhile is_tool_result rest) = dropWhile is_tool_result d"
      using dropWhile_repair_ref by blast
    have "\<not> list_ex (\<lambda>tc. tc_id tc \<notin> answered_by (?rs @ ?syn)) (calls_of item)"
      by (auto simp: answered_append answered_synthetic list_ex_iff)
    moreover have "\<not> has_dangling_ref (dropWhile is_tool_result d)" using 2(2) False d by simp
    ultimately have "\<not> has_dangling_ref (item # (?rs @ ?syn) @ dropWhile is_tool_result d)"
      using False run_all_results synthetic_all_results
      by (subst has_dangling_item_run) simp_all
    then show ?thesis using False d by (simp add: Let_def)
  qed (use 2(1) in simp)
qed simp

lemma repair_ref_id: "\<not> has_dangling_ref c \<Longrightarrow> repair_ref reason c = c"
proof (induction reason c rule: repair_ref.induct)
  case (2 reason item rest)
  then show ?case
    by (cases "calls_of item = []") (auto simp: Let_def synthetic_results_def list_ex_iff)
qed simp

lemma length_repair_ref: "has_dangling_ref c \<Longrightarrow> length c < length (repair_ref reason c)"
proof (induction reason c rule: repair_ref.induct)
  case (2 reason item rest)
  show ?case
  proof (cases "calls_of item = []")
    case False
    let ?rs = "takeWhile is_tool_result rest" and ?v = "dropWhile is_tool_result rest"
    let ?syn = "synthetic_results (calls_of item) (answered_by ?rs) reason"
    have l: "length rest = length ?rs + length ?v" by (metis length_append takeWhile_dropWhile_id)
    have le: "length ?v \<le> length (repair_ref reason ?v)"
      using 2(2) [OF False refl] repair_ref_id [of ?v reason] by (cases "has_dangling_ref ?v") auto
    have "length ?v < length ?syn + length (repair_ref reason ?v)"
    proof (cases "has_dangling_ref ?v")
      case True
      then show ?thesis using 2(2) [OF False refl] by simp
    next
      case nd: False
      then have "?syn \<noteq> []"
        using "2.prems" False by (auto simp: synthetic_results_def list_ex_iff filter_empty_conv)
      then show ?thesis using le by (cases ?syn) auto
    qed
    then show ?thesis using False l by (simp add: Let_def)
  qed (use 2 in simp)
qed simp

lemma subseq_repair_ref: "subseq c (repair_ref reason c)"
proof (induction reason c rule: repair_ref.induct)
  case (2 reason item rest)
  show ?case
  proof (cases "calls_of item = []")
    case False
    let ?rs = "takeWhile is_tool_result rest" and ?v = "dropWhile is_tool_result rest"
    let ?syn = "synthetic_results (calls_of item) (answered_by ?rs) reason"
    have "subseq ?v (?syn @ repair_ref reason ?v)"
      using 2(2) [OF False refl] by (simp add: list_emb_append2)
    then have "subseq (?rs @ ?v) (?rs @ ?syn @ repair_ref reason ?v)" by (rule list_emb_append_mono [OF subseq_order.order_refl])
    then show ?thesis using False by (simp add: Let_def)
  qed (use 2 in simp)
qed simp

text \<open>
  C8: repairing dangling tool calls. After the repair no assistant turn has an unanswered
  tool call; no item of the conversation is removed, changed or reordered; the returned count
  is the number of synthetic results inserted, which is positive exactly when the read-only
  test reports a dangling call; and a conversation that needs no repair is returned as is, so
  repairing twice changes nothing more.
\<close>

theorem repair_dangling_correct:
  "let (c', n) = repair_dangling_tool_calls c reason
   in \<not> has_dangling_tool_calls c' \<and> subseq c c' \<and> length c' = length c + n
      \<and> (0 < n \<longleftrightarrow> has_dangling_tool_calls c)
      \<and> repair_dangling_tool_calls c' reason' = (c', 0)
      \<and> (has_dangling_tool_calls c \<or> c' = c)"
proof -
  have n: "snd (repair_dangling_tool_calls x r) = length (repair_ref r x) - length x" for x r
    using repair_count [of x r] by simp
  have pair: "repair_dangling_tool_calls x r = (repair_ref r x, length (repair_ref r x) - length x)" for x r
    by (metis n prod.collapse repair_eq_ref)
  show ?thesis
    using repair_ref_no_dangling [of reason c] repair_ref_id length_repair_ref [of c reason]
      subseq_repair_ref [of c reason] list_emb_length [OF subseq_repair_ref [of c reason]]
    by (cases "has_dangling_ref c") (simp_all add: pair has_dangling_eq_ref)
qed

section \<open>Properties of deduplication\<close>

function no_duplicate_results :: "ConversationItem list \<Rightarrow> bool" where
  "no_duplicate_results [] = True"
| "no_duplicate_results (item # rest) =
     (if calls_of item = [] then no_duplicate_results rest
      else distinct (map result_id (takeWhile is_tool_result rest))
           \<and> no_duplicate_results (dropWhile is_tool_result rest))"
  by pat_completeness auto
termination
  by (relation "measure length") (auto simp: le_imp_less_Suc length_dropWhile_le)

lemma dropWhile_dedup_ref: "\<exists>d. dedup_ref (dropWhile is_tool_result c) = dropWhile is_tool_result d"
proof (cases "dropWhile is_tool_result c")
  case Nil
  show ?thesis unfolding Nil by (intro exI [of _ "[]"]) simp
next
  case (Cons x xs)
  then have "\<not> is_tool_result x" by (rule dropWhile_hd_false)
  moreover obtain ys where "dedup_ref (x # xs) = x # ys" by (cases "calls_of x = []") simp_all
  ultimately show ?thesis by (intro exI [of _ "x # ys"]) (simp add: Cons del: dedup_ref.simps)
qed

lemma no_dup_dedup: "no_duplicate_results (dedup_ref c)"
proof (induction c rule: dedup_ref.induct)
  case (2 item rest)
  obtain d where d: "dedup_ref (dropWhile is_tool_result rest) = dropWhile is_tool_result d"
    using dropWhile_dedup_ref by blast
  show ?case
    using 2 d keep_last_all [OF run_all_results [of rest]]
    by (cases "calls_of item = []") (simp_all add: takeWhile_all_append distinct_keep_last)
qed simp

lemma dedup_ref_id: "no_duplicate_results c \<Longrightarrow> dedup_ref c = c"
proof (induction c rule: dedup_ref.induct)
  case (2 item rest)
  then show ?case by (cases "calls_of item = []") (simp_all add: keep_last_id)
qed simp

lemma subseq_keep_last: "subseq (keep_last rs) rs"
  by (induction rs) (auto intro: list_emb.intros)

lemma subseq_dedup: "subseq (dedup_ref c) c"
proof (induction c rule: dedup_ref.induct)
  case (2 item rest)
  have "subseq (keep_last (takeWhile is_tool_result rest) @ dedup_ref (dropWhile is_tool_result rest))
          (takeWhile is_tool_result rest @ dropWhile is_tool_result rest)"
    if "calls_of item \<noteq> []"
    using 2(2) [OF that] by (intro list_emb_append_mono subseq_keep_last)
  with 2(1) show ?case by (cases "calls_of item = []") simp_all
qed simp

lemma last_result_keep_last:
  "find (\<lambda>r. result_id r = x) (rev (keep_last rs)) = find (\<lambda>r. result_id r = x) (rev rs)"
proof (induction rs)
  case (Cons r rs)
  have snoc: "find P (ys @ [z]) = (case find P ys of Some v \<Rightarrow> Some v | None \<Rightarrow> if P z then Some z else None)"
    for P :: "ConversationItem \<Rightarrow> bool" and ys z by (induction ys) auto
  have "result_id r = x \<Longrightarrow> result_id r \<in> set (map result_id rs) \<Longrightarrow> find (\<lambda>r. result_id r = x) (rev rs) \<noteq> None"
    by (auto simp: find_None_iff)
  then show ?case using Cons by (auto simp: snoc split: option.splits)
qed simp

text \<open>
  C14: removing duplicate results. Afterwards every run of tool results after a calling turn
  has pairwise distinct call ids, so each call has a single result; only results are removed
  and nothing is reordered; the count is the number removed; a conversation without
  duplicates is unchanged. Each run becomes \<open>keep_last\<close> of it (the reference \<open>dedup_ref\<close>),
  where the result kept for an id is the last one of the run.
\<close>

theorem dedup_results_correct:
  "let (c', n) = dedup_duplicate_tool_results c
   in c' = dedup_ref c \<and> no_duplicate_results c' \<and> subseq c' c \<and> length c' + n = length c
      \<and> (n = 0 \<longleftrightarrow> no_duplicate_results c)
      \<and> fst (dedup_duplicate_tool_results c') = c'
      \<and> find (\<lambda>r. result_id r = x) (rev (keep_last rs)) = find (\<lambda>r. result_id r = x) (rev rs)"
proof -
  have n: "snd (dedup_duplicate_tool_results c) + length (dedup_ref c) = length c" by (rule dedup_count)
  have "snd (dedup_duplicate_tool_results c) = 0 \<longleftrightarrow> no_duplicate_results c"
  proof
    assume "snd (dedup_duplicate_tool_results c) = 0"
    then have "dedup_ref c = c" using n subseq_same_length [OF subseq_dedup [of c]] by simp
    then show "no_duplicate_results c" using no_dup_dedup [of c] by simp
  qed (use n dedup_ref_id in simp)
  then show ?thesis
    using n no_dup_dedup [of c] subseq_dedup [of c] dedup_ref_id [OF no_dup_dedup, of c]
      last_result_keep_last
    by (simp add: split_beta dedup_eq_ref add.commute)
qed

end
