(* ===== verification/History_Repair.thy ===== *)
theory History_Repair
  imports Conversation_Repair
begin

text \<open>
  Validation and repair of a stored history,
  \<open>crates/codegen/xai-chat-state/src/compaction_utils.rs\<close>: \<open>validate_compacted_history\<close>,
  \<open>sanitize_compacted_history\<close>, \<open>strip_displaced_tool_results\<close> and
  \<open>repair_history\<close>, which composes the passes of \<open>Conversation_Repair\<close>. The
  predicate \<open>paired\<close> is the rule providers enforce.
\<close>

section \<open>Validation and sanitizing\<close>

fun validate_loop :: "ConversationItem list \<Rightarrow> string set \<Rightarrow> string list" where
  "validate_loop [] seen_ids = []"
| "validate_loop (Assistant a # items) seen_ids = validate_loop items (seen_ids \<union> tc_id ` set (a_tool_calls a))"
| "validate_loop (ToolResult tr # items) seen_ids =
     (if t_tool_call_id tr \<notin> seen_ids then t_tool_call_id tr # validate_loop items seen_ids
      else validate_loop items seen_ids)"
| "validate_loop (item # items) seen_ids = validate_loop items seen_ids"

definition validate_compacted_history :: "ConversationItem list \<Rightarrow> string list" where
  "validate_compacted_history items = validate_loop items {}"

record SanitizeResult =
  san_items :: "ConversationItem list"
  san_stripped_tool_call_ids :: "string list"

fun sanitize_loop :: "ConversationItem list \<Rightarrow> string set \<Rightarrow> ConversationItem list \<times> string list" where
  "sanitize_loop [] seen_ids = ([], [])"
| "sanitize_loop (Assistant a # items) seen_ids =
     (case sanitize_loop items (seen_ids \<union> tc_id ` set (a_tool_calls a)) of (kept, stripped) \<Rightarrow>
        (Assistant a # kept, stripped))"
| "sanitize_loop (ToolResult tr # items) seen_ids =
     (case sanitize_loop items seen_ids of (kept, stripped) \<Rightarrow>
        if t_tool_call_id tr \<in> seen_ids then (ToolResult tr # kept, stripped)
        else (kept, t_tool_call_id tr # stripped))"
| "sanitize_loop (item # items) seen_ids =
     (case sanitize_loop items seen_ids of (kept, stripped) \<Rightarrow> (item # kept, stripped))"

definition sanitize_compacted_history :: "ConversationItem list \<Rightarrow> SanitizeResult" where
  "sanitize_compacted_history items =
     (case sanitize_loop items {} of (kept, stripped) \<Rightarrow>
        \<lparr>san_items = kept, san_stripped_tool_call_ids = stripped\<rparr>)"

section \<open>Displaced results and the whole repair\<close>

fun strip_loop :: "ConversationItem list \<Rightarrow> string set \<Rightarrow> ConversationItem list \<times> string list" where
  "strip_loop [] run_ids = ([], [])"
| "strip_loop (Assistant a # items) run_ids =
     (case strip_loop items (tc_id ` set (a_tool_calls a)) of (kept, stripped) \<Rightarrow>
        (Assistant a # kept, stripped))"
| "strip_loop (ToolResult tr # items) run_ids =
     (case strip_loop items run_ids of (kept, stripped) \<Rightarrow>
        if t_tool_call_id tr \<in> run_ids then (ToolResult tr # kept, stripped)
        else (kept, t_tool_call_id tr # stripped))"
| "strip_loop (item # items) run_ids =
     (case strip_loop items {} of (kept, stripped) \<Rightarrow> (item # kept, stripped))"

definition strip_displaced_tool_results :: "ConversationItem list \<Rightarrow> ConversationItem list \<times> string list" where
  "strip_displaced_tool_results items = strip_loop items {}"

record HistoryRepairReport =
  duplicates_removed :: usize
  stripped_tool_result_ids :: "string list"
  synthetic_results_inserted :: usize

definition report_changed :: "HistoryRepairReport \<Rightarrow> bool" where
  "report_changed r \<longleftrightarrow>
     0 < duplicates_removed r \<or> stripped_tool_result_ids r \<noteq> [] \<or> 0 < synthetic_results_inserted r"

definition repair_history :: "ConversationItem list \<Rightarrow> ConversationItem list \<times> HistoryRepairReport" where
  "repair_history items =
     (let (items, duplicates) = dedup_duplicate_tool_results items;
          (items, stripped) = strip_displaced_tool_results items;
          (items, inserted) = repair_dangling_tool_calls items (HarnessHalted ''history_repair'')
      in (items, \<lparr>duplicates_removed = duplicates, stripped_tool_result_ids = stripped,
                  synthetic_results_inserted = inserted\<rparr>))"

section \<open>Sanitizing\<close>

lemma sanitize_loop_validate:
  "snd (sanitize_loop c s) = validate_loop c s \<and> validate_loop (fst (sanitize_loop c s)) s = []"
  by (induction c s rule: sanitize_loop.induct) (auto split: prod.splits)

lemma sanitize_loop_id: "validate_loop c s = [] \<Longrightarrow> fst (sanitize_loop c s) = c"
  by (induction c s rule: sanitize_loop.induct) (auto split: prod.splits if_splits)

lemma sanitize_loop_others:
  "filter (\<lambda>i. \<not> is_tool_result i) (fst (sanitize_loop c s)) = filter (\<lambda>i. \<not> is_tool_result i) c
   \<and> subseq (fst (sanitize_loop c s)) c"
  by (induction c s rule: sanitize_loop.induct) (auto split: prod.splits intro: list_emb.intros)

text \<open>
  C28: sanitizing agrees with validation. What \<open>sanitize_compacted_history\<close> strips is
  exactly what \<open>validate_compacted_history\<close> reports, in the same order; the result always
  validates; nothing but tool results is removed, and a valid history is returned unchanged.
\<close>

theorem sanitize_agrees_with_validate:
  "let r = sanitize_compacted_history items
   in san_stripped_tool_call_ids r = validate_compacted_history items
      \<and> validate_compacted_history (san_items r) = []
      \<and> subseq (san_items r) items
      \<and> filter (\<lambda>i. \<not> is_tool_result i) (san_items r) = filter (\<lambda>i. \<not> is_tool_result i) items
      \<and> (validate_compacted_history items = [] \<longleftrightarrow> san_items r = items)"
proof -
  obtain kept stripped where s: "sanitize_loop items {} = (kept, stripped)" by fastforce
  then show ?thesis
    using sanitize_loop_validate [of items "{}"] sanitize_loop_others [of items "{}"]
      sanitize_loop_id [of items "{}"]
    by (auto simp: sanitize_compacted_history_def validate_compacted_history_def)
qed

section \<open>The pairing rule\<close>

definition call_ids :: "ConversationItem \<Rightarrow> string set" where
  "call_ids item = tc_id ` set (calls_of item)"

function paired :: "ConversationItem list \<Rightarrow> bool" where
  "paired [] = True"
| "paired (item # rest) =
     (if is_tool_result item then False
      else if calls_of item = [] then paired rest
      else distinct (map result_id (takeWhile is_tool_result rest))
           \<and> result_id ` set (takeWhile is_tool_result rest) = call_ids item
           \<and> paired (dropWhile is_tool_result rest))"
  by pat_completeness auto
termination
  by (relation "measure length") (auto simp: le_imp_less_Suc length_dropWhile_le)

definition distinct_calls :: "ConversationItem list \<Rightarrow> bool" where
  "distinct_calls c \<longleftrightarrow> list_all (\<lambda>item. distinct (map tc_id (calls_of item))) c"

function strip_ref :: "ConversationItem list \<Rightarrow> ConversationItem list" where
  "strip_ref [] = []"
| "strip_ref (item # rest) =
     (if is_tool_result item then strip_ref rest
      else if calls_of item = [] then item # strip_ref rest
      else item # filter (\<lambda>r. result_id r \<in> call_ids item) (takeWhile is_tool_result rest)
             @ strip_ref (dropWhile is_tool_result rest))"
  by pat_completeness auto
termination
  by (relation "measure length") (auto simp: le_imp_less_Suc length_dropWhile_le)

lemma strip_loop_run:
  "list_all is_tool_result rs \<Longrightarrow>
     fst (strip_loop (rs @ v) s) = filter (\<lambda>r. result_id r \<in> s) rs @ fst (strip_loop v s)"
proof (induction rs)
  case (Cons r rs)
  then show ?case by (cases r) (auto split: prod.splits)
qed simp

lemma strip_loop_reset: "v = [] \<or> \<not> is_tool_result (hd v) \<Longrightarrow> strip_loop v s = strip_loop v {}"
proof (cases v)
  case (Cons x xs)
  assume "v = [] \<or> \<not> is_tool_result (hd v)"
  then show ?thesis unfolding Cons by (cases x) (auto simp: Cons)
qed simp

lemma strip_loop_calling:
  assumes "calls_of item \<noteq> []"
  shows "fst (strip_loop (item # rest) s) =
           item # filter (\<lambda>r. result_id r \<in> call_ids item) (takeWhile is_tool_result rest)
             @ fst (strip_loop (dropWhile is_tool_result rest) {})"
proof -
  let ?rs = "takeWhile is_tool_result rest" and ?v = "dropWhile is_tool_result rest"
  obtain a where a: "item = Assistant a" using assms by (cases item) auto
  have "fst (strip_loop (item # rest) s) = item # fst (strip_loop (?rs @ ?v) (call_ids item))"
    by (simp add: a call_ids_def split: prod.splits)
  also have "fst (strip_loop (?rs @ ?v) (call_ids item)) =
      filter (\<lambda>r. result_id r \<in> call_ids item) ?rs @ fst (strip_loop ?v (call_ids item))"
    by (rule strip_loop_run [OF run_all_results])
  also have "strip_loop ?v (call_ids item) = strip_loop ?v {}"
    by (rule strip_loop_reset) (metis hd_dropWhile)
  finally show ?thesis by simp
qed

lemma strip_loop_ref: "fst (strip_loop c {}) = strip_ref c"
proof (induction c rule: strip_ref.induct)
  case (2 item rest)
  show ?case
  proof (cases "calls_of item = []")
    case True
    then show ?thesis using 2(1,2) by (cases item) (auto split: prod.splits)
  next
    case False
    then have "\<not> is_tool_result item" by (cases item) auto
    then show ?thesis using 2(3) False by (simp add: strip_loop_calling)
  qed
qed simp

lemma strip_ref_hd: "takeWhile is_tool_result (strip_ref c) = []" "dropWhile is_tool_result (strip_ref c) = strip_ref c"
  by (induction c rule: strip_ref.induct) auto

abbreviation halted :: DanglingToolCallReason where
  "halted \<equiv> HarnessHalted ''history_repair''"

lemma repair_history_items:
  "fst (repair_history c) = repair_ref halted (strip_ref (dedup_ref c))"
  by (simp add: repair_history_def Let_def split_beta strip_displaced_tool_results_def
      strip_loop_ref repair_eq_ref dedup_eq_ref)

text \<open>What the three passes make of one calling turn and the results that follow it.\<close>

definition repaired_run :: "ConversationItem \<Rightarrow> ConversationItem list \<Rightarrow> ConversationItem list" where
  "repaired_run item rs =
     (let kept = filter (\<lambda>r. result_id r \<in> call_ids item) (keep_last rs)
      in kept @ synthetic_results (calls_of item) (answered_by kept) halted)"

lemma repair_history_run:
  assumes "calls_of item \<noteq> []"
  shows "fst (repair_history (item # rest)) =
           item # repaired_run item (takeWhile is_tool_result rest)
             @ fst (repair_history (dropWhile is_tool_result rest))"
proof -
  let ?rs = "takeWhile is_tool_result rest" and ?v = "dropWhile is_tool_result rest"
  let ?kept = "filter (\<lambda>r. result_id r \<in> call_ids item) (keep_last ?rs)"
  have nt: "\<not> is_tool_result item" using assms by (cases item) auto
  obtain d where d: "dedup_ref ?v = dropWhile is_tool_result d" using dropWhile_dedup_ref by blast
  have k: "list_all is_tool_result (keep_last ?rs)" by (rule keep_last_all [OF run_all_results])
  then have k': "list_all is_tool_result ?kept" by (auto simp: list_all_iff)
  have "strip_ref (dedup_ref (item # rest)) = item # ?kept @ strip_ref (dedup_ref ?v)"
    using assms nt k by (simp add: d takeWhile_all_append)
  moreover have "takeWhile is_tool_result (?kept @ strip_ref (dedup_ref ?v)) = ?kept"
    "dropWhile is_tool_result (?kept @ strip_ref (dedup_ref ?v)) = strip_ref (dedup_ref ?v)"
    using takeWhile_all_append [OF k', of "strip_ref (dedup_ref ?v)"] by (simp_all add: strip_ref_hd)
  ultimately show ?thesis
    using assms by (simp add: repair_history_items repaired_run_def Let_def)
qed

lemma repair_history_other:
  "calls_of item = [] \<Longrightarrow>
     fst (repair_history (item # rest)) =
       (if is_tool_result item then fst (repair_history rest) else item # fst (repair_history rest))"
  by (simp add: repair_history_items)

lemma answered_by_ids: "list_all is_tool_result rs \<Longrightarrow> answered_by rs = result_id ` set rs"
proof (induction rs)
  case (Cons r rs)
  then show ?case by (cases r) (auto simp: answered_by_def)
qed (simp add: answered_by_def)

lemma ids_synthetic:
  "map result_id (synthetic_results calls answered reason) = map tc_id (filter (\<lambda>tc. tc_id tc \<notin> answered) calls)"
  by (simp add: synthetic_results_def tool_result_def o_def)

lemma repaired_run_ok:
  assumes "list_all is_tool_result rs"
  shows "list_all is_tool_result (repaired_run item rs)"
    and "result_id ` set (repaired_run item rs) = call_ids item"
    and "distinct (map tc_id (calls_of item)) \<Longrightarrow> distinct (map result_id (repaired_run item rs))"
proof -
  define kept where "kept = filter (\<lambda>r. result_id r \<in> call_ids item) (keep_last rs)"
  have k: "list_all is_tool_result kept"
    using keep_last_all [OF assms] by (auto simp: kept_def list_all_iff)
  note ans = answered_by_ids [OF k]
  have r: "repaired_run item rs = kept @ synthetic_results (calls_of item) (result_id ` set kept) halted"
    by (simp add: repaired_run_def Let_def flip: kept_def ans)
  show "list_all is_tool_result (repaired_run item rs)" using k synthetic_all_results by (simp add: r)
  have ids: "result_id ` set (synthetic_results (calls_of item) (result_id ` set kept) halted) =
      call_ids item - result_id ` set kept"
    using arg_cong [OF ids_synthetic, of set] by (auto simp: call_ids_def)
  show "result_id ` set (repaired_run item rs) = call_ids item"
    unfolding r set_append image_Un ids by (auto simp: kept_def)
  assume dc: "distinct (map tc_id (calls_of item))"
  have "distinct (map result_id kept)"
    using distinct_keep_last [of rs] by (simp add: kept_def distinct_map_filter)
  moreover have "distinct (map result_id (synthetic_results (calls_of item) (result_id ` set kept) halted))"
    using dc by (simp add: ids_synthetic distinct_map_filter)
  ultimately show "distinct (map result_id (repaired_run item rs))" using ids by (auto simp: r)
qed

lemma paired_run:
  "calls_of item \<noteq> [] \<Longrightarrow> list_all is_tool_result rs \<Longrightarrow> takeWhile is_tool_result v = [] \<Longrightarrow>
     dropWhile is_tool_result v = v \<Longrightarrow>
     paired (item # rs @ v) \<longleftrightarrow> distinct (map result_id rs) \<and> result_id ` set rs = call_ids item \<and> paired v"
  using takeWhile_all_append [of is_tool_result rs v] by (cases item) simp_all

lemma repair_history_hd_both:
  "takeWhile is_tool_result (fst (repair_history c)) = []
   \<and> dropWhile is_tool_result (fst (repair_history c)) = fst (repair_history c)"
proof (induction c)
  case (Cons item rest)
  show ?case
  proof (cases "calls_of item = []")
    case True
    then show ?thesis using Cons by (simp add: repair_history_other)
  next
    case False
    then have "\<not> is_tool_result item" by (cases item) auto
    then show ?thesis using False by (simp add: repair_history_run)
  qed
qed (simp add: repair_history_items)

lemmas repair_history_hd =
  repair_history_hd_both [THEN conjunct1] repair_history_hd_both [THEN conjunct2]

lemma repair_history_paired_step:
  "distinct_calls c \<Longrightarrow> paired (fst (repair_history c))"
proof (induction c rule: strip_ref.induct)
  case (2 item rest)
  have dc: "distinct (map tc_id (calls_of item))" "distinct_calls rest"
    using 2(4) by (simp_all add: distinct_calls_def)
  show ?case
  proof (cases "calls_of item = []")
    case True
    then show ?thesis using 2(1,2) dc by (simp add: repair_history_other)
  next
    case False
    then have nt: "\<not> is_tool_result item" by (cases item) auto
    have "distinct_calls (dropWhile is_tool_result rest)"
      using dc(2) by (auto simp: distinct_calls_def list_all_iff dest: set_dropWhileD)
    then have "paired (fst (repair_history (dropWhile is_tool_result rest)))"
      using 2(3) False nt by simp
    then show ?thesis
      using repaired_run_ok [OF run_all_results, of item rest] dc(1)
      by (simp add: False repair_history_run paired_run repair_history_hd del: paired.simps)
  qed
qed (simp add: repair_history_items)

section \<open>Parts of a paired history\<close>

lemma paired_run_suffix:
  assumes "takeWhile is_tool_result rest @ dropWhile is_tool_result rest = xs @ ys"
    "ys = [] \<or> \<not> is_tool_result (hd ys)"
  shows "\<exists>zs. dropWhile is_tool_result rest = zs @ ys"
proof -
  let ?rs = "takeWhile is_tool_result rest" and ?v = "dropWhile is_tool_result rest"
  consider us where "?rs = xs @ us" "us @ ?v = ys" | us where "?rs @ us = xs" "?v = us @ ys"
    using append_eq_append_conv2 [THEN iffD1, OF assms(1)] by metis
  then show ?thesis
  proof cases
    case (1 us)
    have "list_all is_tool_result us" using run_all_results [of rest] 1(1) by simp
    then have "us = []" using assms(2) 1(2) by (cases us) auto
    then show ?thesis using 1(2) by auto
  qed auto
qed

lemma paired_suffix: "paired (xs @ ys) \<Longrightarrow> ys = [] \<or> \<not> is_tool_result (hd ys) \<Longrightarrow> paired ys"
proof (induction "xs @ ys" arbitrary: xs rule: paired.induct)
  case (2 item rest)
  show ?case
  proof (cases xs)
    case Nil
    then show ?thesis using 2 by simp
  next
    case (Cons x xs')
    then have r: "rest = xs' @ ys" "x = item" using "2.hyps"(3) by auto
    have p: "\<not> is_tool_result item" "calls_of item = [] \<Longrightarrow> paired rest"
      "calls_of item \<noteq> [] \<Longrightarrow> paired (dropWhile is_tool_result rest)"
      using 2(4) unfolding "2.hyps"(3) [symmetric] by (auto split: if_splits)
    show ?thesis
    proof (cases "calls_of item = []")
      case True
      then show ?thesis using 2(1) p r 2(5) by simp
    next
      case False
      obtain zs where "dropWhile is_tool_result rest = zs @ ys"
        using paired_run_suffix [of rest xs' ys] r 2(5) by auto
      then show ?thesis using 2(2) [of zs] p False 2(5) by simp
    qed
  qed
qed simp

text \<open>
  An item map that keeps ids: a calling turn or a result is mapped to one with the same call
  ids, anything else is dropped or mapped to an item that neither calls nor answers.
\<close>

definition keeps_ids :: "(ConversationItem \<Rightarrow> ConversationItem option) \<Rightarrow> bool" where
  "keeps_ids f \<longleftrightarrow>
     (\<forall>item. if is_tool_result item
             then \<exists>r. f item = Some r \<and> is_tool_result r \<and> result_id r = result_id item
             else if calls_of item \<noteq> [] then \<exists>a. f item = Some a \<and> calls_of a = calls_of item
             else case f item of None \<Rightarrow> True | Some i \<Rightarrow> \<not> is_tool_result i \<and> calls_of i = [])"

lemma keeps_ids_run:
  assumes "keeps_ids f" "list_all is_tool_result rs"
  shows "list_all is_tool_result (List.map_filter f rs)
         \<and> map result_id (List.map_filter f rs) = map result_id rs"
  using assms(2)
proof (induction rs)
  case (Cons r rs)
  moreover obtain r' where "f r = Some r'" "is_tool_result r'" "result_id r' = result_id r"
    using assms(1) Cons.prems unfolding keeps_ids_def by (metis (full_types) list.pred_inject(2))
  ultimately show ?case by (simp add: List.map_filter_simps)
qed (simp add: List.map_filter_simps)

lemma paired_hd: "paired v \<Longrightarrow> takeWhile is_tool_result v = [] \<and> dropWhile is_tool_result v = v"
  by (cases v) (auto split: if_splits)

lemma map_filter_append: "List.map_filter f (xs @ ys) = List.map_filter f xs @ List.map_filter f ys"
  by (simp add: List.map_filter_def)

lemma paired_map_filter:
  assumes f: "keeps_ids f"
  shows "paired c \<Longrightarrow> paired (List.map_filter f c)"
proof (induction c rule: paired.induct)
  case (2 item rest)
  have nt: "\<not> is_tool_result item" using 2(3) by (auto split: if_splits)
  show ?case
  proof (cases "calls_of item = []")
    case True
    then have "paired (List.map_filter f rest)" using 2 nt by simp
    moreover have "case f item of None \<Rightarrow> True | Some i \<Rightarrow> \<not> is_tool_result i \<and> calls_of i = []"
      using f nt True by (auto simp: keeps_ids_def dest: spec [of _ item])
    ultimately show ?thesis by (cases "f item") (auto simp: List.map_filter_simps)
  next
    case False
    let ?rs = "takeWhile is_tool_result rest" and ?v = "dropWhile is_tool_result rest"
    obtain a where a: "f item = Some a" "calls_of a = calls_of item"
      using f nt False unfolding keeps_ids_def by (metis (full_types))
    have v: "paired (List.map_filter f ?v)" using 2(2) [OF nt False] 2(3) nt False by simp
    have run: "list_all is_tool_result (List.map_filter f ?rs)"
      "map result_id (List.map_filter f ?rs) = map result_id ?rs"
      using keeps_ids_run [OF f run_all_results] by auto
    have "distinct (map result_id ?rs)" "result_id ` set ?rs = call_ids item"
      using 2(3) nt False by simp_all
    then have "distinct (map result_id (List.map_filter f ?rs))"
      "result_id ` set (List.map_filter f ?rs) = call_ids a"
      using run(2) a(2) by (auto simp: call_ids_def simp flip: set_map)
    then have "paired (a # List.map_filter f ?rs @ List.map_filter f ?v)"
      using a False run(1) v paired_hd [OF v] by (simp add: paired_run del: paired.simps)
    moreover have "List.map_filter f (item # rest) = a # List.map_filter f ?rs @ List.map_filter f ?v"
      using a(1) by (simp add: List.map_filter_simps flip: map_filter_append)
    ultimately show ?thesis by simp
  qed
qed (simp add: List.map_filter_simps)

section \<open>A paired history is left alone\<close>

lemma filter_own_run:
  "result_id ` set (takeWhile is_tool_result rest) = call_ids item \<Longrightarrow>
     filter (\<lambda>r. result_id r \<in> call_ids item) (takeWhile is_tool_result rest) = takeWhile is_tool_result rest"
  by (auto simp: filter_id_conv)

lemma dedup_paired: "paired c \<Longrightarrow> dedup_ref c = c"
proof (induction c rule: strip_ref.induct)
  case (2 item rest)
  then show ?case by (cases "calls_of item = []") (auto simp: keep_last_id split: if_splits)
qed simp

lemma strip_paired: "paired c \<Longrightarrow> strip_ref c = c"
proof (induction c rule: strip_ref.induct)
  case (2 item rest)
  then show ?case by (cases "calls_of item = []") (auto simp: filter_own_run split: if_splits)
qed simp

lemma paired_no_dangling: "paired c \<Longrightarrow> \<not> has_dangling_ref c"
proof (induction c rule: strip_ref.induct)
  case (2 item rest)
  then show ?case
    by (cases "calls_of item = []")
      (auto simp: list_ex_iff answered_by_ids run_all_results call_ids_def split: if_splits)
qed simp

lemma strip_loop_count: "length (snd (strip_loop c s)) + length (fst (strip_loop c s)) = length c"
  by (induction c s rule: strip_loop.induct) (auto split: prod.splits)

lemma strip_paired_pair: "paired c \<Longrightarrow> strip_displaced_tool_results c = (c, [])"
  using strip_loop_count [of c "{}"] strip_loop_ref [of c] strip_paired [of c]
  by (cases "strip_loop c {}") (simp add: strip_displaced_tool_results_def)

lemma dedup_paired_pair: "paired c \<Longrightarrow> dedup_duplicate_tool_results c = (c, 0)"
  using dedup_count [of c] dedup_eq_ref [of c] dedup_paired [of c]
  by (cases "dedup_duplicate_tool_results c") simp

lemma repair_no_dangling_pair: "\<not> has_dangling_ref c \<Longrightarrow> repair_dangling_tool_calls c reason = (c, 0)"
  using repair_eq_ref [of c reason] repair_ref_id [of c reason] repair_count [of c reason]
  by (cases "repair_dangling_tool_calls c reason") simp

lemma repair_history_paired_id:
  "paired c \<Longrightarrow> repair_history c = (c, \<lparr>duplicates_removed = 0, stripped_tool_result_ids = [], synthetic_results_inserted = 0\<rparr>)"
  by (simp add: repair_history_def dedup_paired_pair strip_paired_pair paired_no_dangling
      repair_no_dangling_pair)

abbreviation other_items :: "ConversationItem list \<Rightarrow> ConversationItem list" where
  "other_items c \<equiv> filter (\<lambda>i. \<not> is_tool_result i) c"

lemma other_items_run: "list_all is_tool_result rs \<Longrightarrow> other_items rs = []"
  by (simp add: filter_empty_conv list_all_iff)

lemma other_items_dropWhile: "other_items (dropWhile is_tool_result c) = other_items c"
  by (induction c) auto

lemma repair_history_others: "other_items (fst (repair_history c)) = other_items c"
proof (induction c rule: strip_ref.induct)
  case (2 item rest)
  show ?case
  proof (cases "calls_of item = []")
    case True
    then show ?thesis using 2(1,2) by (simp add: repair_history_other)
  next
    case False
    then have "\<not> is_tool_result item" by (cases item) auto
    then show ?thesis
      using 2(3) False
      by (simp add: repair_history_run other_items_run repaired_run_ok run_all_results
          other_items_dropWhile)
  qed
qed (simp add: repair_history_items)

text \<open>
  C2: the repair of a stored history. Whenever no assistant turn carries the same call id
  twice, the repaired history satisfies the pairing rule (every calling turn is followed by
  exactly one result per call, and no result stands anywhere else), a second repair changes
  nothing and reports nothing, and nothing but tool results is added or removed.
\<close>

theorem repair_history_pairs:
  assumes "distinct_calls items"
  shows "let items' = fst (repair_history items)
         in paired items'
            \<and> fst (repair_history items') = items' \<and> \<not> report_changed (snd (repair_history items'))
            \<and> filter (\<lambda>i. \<not> is_tool_result i) items' = filter (\<lambda>i. \<not> is_tool_result i) items"
  using repair_history_paired_step [OF assms] repair_history_others [of items]
  by (simp add: repair_history_paired_id report_changed_def)

lemma answered_by_simps:
  "answered_by [] = {}"
  "answered_by (ToolResult t # rs) = insert (t_tool_call_id t) (answered_by rs)"
  by (auto simp: answered_by_def)

definition example_call :: "string \<Rightarrow> ToolCall" where
  "example_call x = \<lparr>tc_id = x, tc_name = ''bash'', tc_arguments = ''''\<rparr>"

definition example_history :: "ConversationItem list" where
  "example_history =
     [tool_result ''z'' ''orphan'', assistant_tool_calls [example_call ''a'', example_call ''b''],
      tool_result ''a'' ''old'', tool_result ''a'' ''new'', user ''hi'', tool_result ''b'' ''late'']"

lemmas example_defs =
  example_history_def example_call_def tool_result_def assistant_tool_calls_def user_def user_tagged_def
  call_ids_def synthetic_results_def answered_by_simps

theorem repair_history_pairs_witness:
  "map result_id (fst (repair_history example_history)) = ['''', ''a'', ''b'', '''']
   \<and> paired (fst (repair_history example_history))"
proof -
  have "distinct_calls example_history" by (simp add: distinct_calls_def example_defs)
  then have "paired (fst (repair_history example_history))"
    using repair_history_pairs [of example_history] by (simp add: Let_def)
  moreover have "map result_id (fst (repair_history example_history)) = ['''', ''a'', ''b'', '''']"
    by (simp add: repair_history_items example_defs del: synthetic_dangling_result_text.simps)
  ultimately show ?thesis by simp
qed

text \<open>
  C29: the repair is not idempotent in general. For an assistant turn that carries the same
  call id twice and has no result, the first repair inserts a result per call, both with that
  id, so its output breaks the pairing rule, and a second repair removes one of them.
\<close>

theorem repair_history_not_idempotent:
  "let c0 = [assistant_tool_calls [example_call ''x'', example_call ''x'']];
       c1 = fst (repair_history c0);
       (c2, r2) = repair_history c1
   in map result_id c1 = ['''', ''x'', ''x''] \<and> \<not> paired c1 \<and> map result_id c2 = ['''', ''x'']
      \<and> report_changed r2"
proof -
  let ?c0 = "[assistant_tool_calls [example_call ''x'', example_call ''x'']]"
  let ?c1 = "fst (repair_history ?c0)"
  have c1: "?c1 = ?c0 @ [tool_result ''x'' (synthetic_dangling_result_text ''bash'' halted),
                         tool_result ''x'' (synthetic_dangling_result_text ''bash'' halted)]"
    by (simp add: repair_history_items example_defs del: synthetic_dangling_result_text.simps)
  have c2: "fst (repair_history ?c1) = ?c0 @ [tool_result ''x'' (synthetic_dangling_result_text ''bash'' halted)]"
    unfolding c1
    by (simp add: repair_history_items example_defs del: synthetic_dangling_result_text.simps)
  have "snd (dedup_duplicate_tool_results ?c1) = 1"
    using dedup_count [of ?c1] unfolding c1 by (simp add: example_defs)
  then have "report_changed (snd (repair_history ?c1))"
    by (simp add: repair_history_def report_changed_def split_beta)
  moreover have "\<not> paired ?c1" unfolding c1 by (simp add: example_defs)
  ultimately show ?thesis using c1 c2 by (simp add: split_beta example_defs)
qed

end
