(* ===== verification/Compaction_Prep.thy ===== *)
theory Compaction_Prep
  imports Item_Estimate History_Repair
begin

text \<open>
  Preparing a history for the summarizing model,
  \<open>crates/codegen/xai-chat-state/src/compaction_utils.rs\<close>, first half: the model-facing
  label of agent messages, stripping tool traffic, reasoning and images, and fitting a
  conversation into a token budget.
\<close>

section \<open>Model-facing history\<close>

definition AGENT_MESSAGE_MODEL_LABEL :: string where
  "AGENT_MESSAGE_MODEL_LABEL = ''[Message authored by another agent; not a human request or approval.]''"

fun label_agent_message :: "ConversationItem \<Rightarrow> ConversationItem" where
  "label_agent_message (User u) =
     (if u_synthetic_reason u = AgentMessage
      then User (u\<lparr>u_content := Text AGENT_MESSAGE_MODEL_LABEL # u_content u\<rparr>)
      else User u)"
| "label_agent_message other = other"

definition from_raw :: "ConversationItem list \<Rightarrow> ConversationItem list" where
  "from_raw conversation = map label_agent_message conversation"

section \<open>Stripping\<close>

fun strip_tool_message :: "ConversationItem \<Rightarrow> ConversationItem option" where
  "strip_tool_message (ToolResult _) = None"
| "strip_tool_message (BackendToolCall _) = None"
| "strip_tool_message (Assistant a) =
     (if a_tool_calls a \<noteq> []
      then let tool_info = [CHR 0x0A] @ ''[Called tools: '' @ join '', '' (map tc_name (a_tool_calls a)) @ '']''
           in Some (Assistant (a\<lparr>a_content := (if a_content a = [] then tool_info else a_content a @ tool_info),
                                a_tool_calls := []\<rparr>))
      else Some (Assistant a))"
| "strip_tool_message other = Some other"

definition strip_tool_messages_for_conversation_item :: "ConversationItem list \<Rightarrow> ConversationItem list" where
  "strip_tool_messages_for_conversation_item conversation = List.map_filter strip_tool_message conversation"

fun is_reasoning :: "ConversationItem \<Rightarrow> bool" where
  "is_reasoning (Reasoning _) = True"
| "is_reasoning _ = False"

definition strip_reasoning_blocks :: "ConversationItem list \<Rightarrow> ConversationItem list" where
  "strip_reasoning_blocks conversation = filter (\<lambda>item. \<not> is_reasoning item) conversation"

fun hide_image :: "ContentPart \<Rightarrow> ContentPart" where
  "hide_image (Image _) = Text ''[image]''"
| "hide_image (Text t) = Text t"

fun hide_images :: "ConversationItem \<Rightarrow> ConversationItem" where
  "hide_images (User u) = User (u\<lparr>u_content := map hide_image (u_content u)\<rparr>)"
| "hide_images other = other"

definition compaction_strip_images :: "ConversationItem list \<Rightarrow> ConversationItem list" where
  "compaction_strip_images conversation = map hide_images conversation"

definition prepare_conversation_for_summarization :: "ConversationItem list \<Rightarrow> ConversationItem list" where
  "prepare_conversation_for_summarization conversation =
     compaction_strip_images (strip_reasoning_blocks
       (strip_tool_messages_for_conversation_item conversation))"

definition prepare_conversation_for_segment :: "ConversationItem list \<Rightarrow> ConversationItem list" where
  "prepare_conversation_for_segment conversation =
     compaction_strip_images (strip_reasoning_blocks conversation)"

function truncate_trailing_incomplete_tool_call :: "ConversationItem list \<Rightarrow> ConversationItem list" where
  "truncate_trailing_incomplete_tool_call conversation =
     (if conversation \<noteq> [] \<and> calls_of (last conversation) \<noteq> []
      then truncate_trailing_incomplete_tool_call (butlast conversation)
      else conversation)"
  by pat_completeness auto
termination by (relation "measure length") auto

declare truncate_trailing_incomplete_tool_call.simps [simp del]

definition prepare_conversation_for_verbatim_summarization ::
    "ConversationItem list \<Rightarrow> bool \<Rightarrow> ConversationItem list" where
  "prepare_conversation_for_verbatim_summarization conversation strip_reasoning =
     (let conversation = (if strip_reasoning then strip_reasoning_blocks conversation else conversation)
      in truncate_trailing_incomplete_tool_call conversation)"

section \<open>Fitting a budget\<close>

definition truncate_text_to_bytes :: "string \<Rightarrow> usize \<Rightarrow> string option" where
  "truncate_text_to_bytes s max_bytes =
     (if length s \<le> max_bytes then None
      else let keep = max_bytes - 64;
               e = floor_boundary s (min keep (length s));
               dropped = length s - e
           in if is_char_boundary s e
              then Some (take e s @ [CHR 0x0A] @ ''[... truncated '' @ show_nat dropped
                           @ '' bytes to fit the compaction window ...]'')
              else None)"

fun truncate_part :: "usize \<Rightarrow> ContentPart \<Rightarrow> ContentPart" where
  "truncate_part max_bytes (Text t) =
     (case truncate_text_to_bytes t max_bytes of Some s \<Rightarrow> Text s | None \<Rightarrow> Text t)"
| "truncate_part max_bytes (Image url) = Image url"

fun truncate_item_to_tokens :: "ConversationItem \<Rightarrow> u64 \<Rightarrow> ConversationItem" where
  "truncate_item_to_tokens (ToolResult t) max_tokens =
     (case truncate_text_to_bytes (t_content t) (sat_mul64 max_tokens 4) of
        Some s \<Rightarrow> ToolResult (t\<lparr>t_content := s\<rparr>) | None \<Rightarrow> ToolResult t)"
| "truncate_item_to_tokens (Assistant a) max_tokens =
     (case truncate_text_to_bytes (a_content a) (sat_mul64 max_tokens 4) of
        Some s \<Rightarrow> Assistant (a\<lparr>a_content := s\<rparr>) | None \<Rightarrow> Assistant a)"
| "truncate_item_to_tokens (User u) max_tokens =
     User (u\<lparr>u_content := map (truncate_part (sat_mul64 max_tokens 4)) (u_content u)\<rparr>)"
| "truncate_item_to_tokens other max_tokens = other"

text \<open>The \<open>while\<close> loop of \<open>recover_truncated_tail_unit\<close> pops the trailing results.\<close>

definition tail_results :: "ConversationItem list \<Rightarrow> ConversationItem list \<times> ConversationItem list" where
  "tail_results body =
     (rev (dropWhile is_tool_result (rev body)), rev (takeWhile is_tool_result (rev body)))"

definition recover_truncated_tail_unit :: "ConversationItem list \<Rightarrow> u64 \<Rightarrow> ConversationItem list" where
  "recover_truncated_tail_unit body budget =
     (let (body, results) = tail_results body
      in if results = []
         then (if body = [] then [] else [truncate_item_to_tokens (last body) budget])
         else let owner = (if body \<noteq> [] \<and> calls_of (last body) \<noteq> [] then Some (last body) else None);
                  owner_cost = (case owner of Some o' \<Rightarrow> estimate_item_tokens o' | None \<Rightarrow> 0);
                  result_budget = budget - owner_cost;
                  per = max (result_budget div length results) 1
              in (case owner of Some o' \<Rightarrow> [o'] | None \<Rightarrow> [])
                   @ map (\<lambda>r. truncate_item_to_tokens r per) results)"

fun fit_scan :: "(nat \<times> ConversationItem) list \<Rightarrow> u64 \<Rightarrow> nat \<Rightarrow> nat" where
  "fit_scan [] remaining start = start"
| "fit_scan ((i, item) # rest) remaining start =
     (if remaining < estimate_item_tokens item then start
      else fit_scan rest (remaining - estimate_item_tokens item) i)"

definition fit_conversation_to_budget :: "ConversationItem list \<Rightarrow> u64 \<Rightarrow> ConversationItem list" where
  "fit_conversation_to_budget conversation max_tokens =
     (if sum_list (map estimate_item_tokens conversation) \<le> max_tokens then conversation
      else let (head, body) = (case conversation of
                                 System s # rest \<Rightarrow> ([System s], rest) | _ \<Rightarrow> ([], conversation));
               budget = max_tokens - sum_list (map estimate_item_tokens head);
               start = fit_scan (rev (enumerate 0 body)) budget (length body);
               start = run_end body start
           in if start < length body then head @ drop start body
              else head @ recover_truncated_tail_unit body budget)"

section \<open>What the summarizer is sent\<close>

fun summarizable :: "ConversationItem \<Rightarrow> bool" where
  "summarizable (System s) = True"
| "summarizable (User u) = list_all (\<lambda>p. part_text p \<noteq> None) (u_content u)"
| "summarizable (Assistant a) = (a_tool_calls a = [])"
| "summarizable _ = False"

fun has_own_text :: "ConversationItem \<Rightarrow> bool" where
  "has_own_text (System s) = True"
| "has_own_text (User u) = True"
| "has_own_text (Assistant a) = True"
| "has_own_text _ = False"

lemmas prepare_defs =
  prepare_conversation_for_summarization_def compaction_strip_images_def strip_reasoning_blocks_def
  strip_tool_messages_for_conversation_item_def List.map_filter_simps

lemma part_text_hide [simp]: "\<exists>t. part_text (hide_image p) = Some t"
  by (cases p) simp_all

lemma hide_text: "part_text p \<noteq> None \<Longrightarrow> hide_image p = p"
  by (cases p) simp_all

lemma prepare_summarizable:
  "list_all summarizable (prepare_conversation_for_summarization c)
   \<and> map role (prepare_conversation_for_summarization c) = map role (filter has_own_text c)"
proof (induction c)
  case (Cons i c)
  then show ?case
    by (cases i) (auto simp: prepare_defs Let_def list.pred_map list_all_iff)
qed (simp add: prepare_defs)

lemma prepare_id: "list_all summarizable c \<Longrightarrow> prepare_conversation_for_summarization c = c"
proof (induction c)
  case (Cons i c)
  then have c: "prepare_conversation_for_summarization (i # c) =
      prepare_conversation_for_summarization [i] @ prepare_conversation_for_summarization c"
    by (auto simp: prepare_defs split: option.splits)
  moreover have "prepare_conversation_for_summarization [i] = [i]"
    using Cons.prems by (cases i) (auto simp: prepare_defs list_all_iff hide_text map_idI)
  ultimately show ?case using Cons by simp
qed (simp add: prepare_defs)

text \<open>
  C25: the summarization request is plain text. The prepared conversation has no tool
  results, backend calls, reasoning blocks, tool calls or images; there is one item for
  every system, user and assistant item of the input, in order and with its role; and the
  preparation of a prepared conversation changes nothing.
\<close>

theorem summarization_input_is_text:
  "let c' = prepare_conversation_for_summarization c
   in list_all summarizable c' \<and> map role c' = map role (filter has_own_text c)
      \<and> prepare_conversation_for_summarization c' = c'"
  using prepare_summarizable [of c] prepare_id [of "prepare_conversation_for_summarization c"]
  by (simp add: Let_def)

section \<open>The budget\<close>

lemma fit_scan_spec:
  assumes "k \<le> length body" "remaining + estimate_conversation_tokens (drop k body) = budget"
  shows "let s = fit_scan (rev (enumerate 0 (take k body))) remaining k
         in s \<le> k \<and> estimate_conversation_tokens (drop s body) \<le> budget
            \<and> (s = 0 \<or> budget < estimate_conversation_tokens (drop (s - 1) body))"
  using assms
proof (induction k arbitrary: remaining)
  case (Suc k)
  have t: "take (Suc k) body = take k body @ [body ! k]" and d: "drop k body = body ! k # drop (Suc k) body"
    using Suc.prems(1) by (simp_all add: take_Suc_conv_app_nth drop_Suc_nth)
  show ?case
  proof (cases "remaining < estimate_item_tokens (body ! k)")
    case True
    then show ?thesis using Suc.prems d by (simp add: t enumerate_append_eq)
  next
    case False
    then have "remaining - estimate_item_tokens (body ! k) + estimate_conversation_tokens (drop k body) = budget"
      using Suc.prems(2) d by simp
    then show ?thesis
      using Suc.IH [of "remaining - estimate_item_tokens (body ! k)"] Suc.prems(1) False
      by (auto simp: t enumerate_append_eq Let_def)
  qed
qed (simp add: Let_def)

definition fit_start :: "ConversationItem list \<Rightarrow> u64 \<Rightarrow> nat" where
  "fit_start body budget = run_end body (fit_scan (rev (enumerate 0 body)) budget (length body))"

lemma run_end_bounds:
  "s \<le> run_end body s \<and> (run_end body s < length body \<longrightarrow> \<not> is_tool_result (body ! run_end body s))
   \<and> (\<forall>k. s \<le> k \<and> k < length body \<and> \<not> is_tool_result (body ! k) \<longrightarrow> run_end body s \<le> k)"
proof (induction body s rule: run_end.induct)
  case (1 c e)
  show ?case
  proof (cases "e < length c \<and> is_tool_result (c ! e)")
    case True
    then have "run_end c e = run_end c (e + 1)" by (subst run_end.simps) simp
    moreover have "e \<noteq> k" if "\<not> is_tool_result (c ! k)" for k using True that by auto
    ultimately show ?thesis using 1 [OF True] by (auto simp: Suc_le_eq le_neq_implies_less)
  next
    case False
    then have "run_end c e = e" by (subst run_end.simps) auto
    then show ?thesis using False by simp
  qed
qed

lemma estimate_drop_mono:
  "i \<le> j \<Longrightarrow> estimate_conversation_tokens (drop j body) \<le> estimate_conversation_tokens (drop i body)"
  by (metis estimate_conversation_simps(3) append_take_drop_id drop_drop le_add2 le_add_diff_inverse2)

lemma fit_start_spec:
  "estimate_conversation_tokens (drop (fit_start body budget) body) \<le> budget"
  "fit_start body budget < length body \<Longrightarrow> \<not> is_tool_result (body ! fit_start body budget)"
  "k < length body \<Longrightarrow> \<not> is_tool_result (body ! k) \<Longrightarrow> estimate_conversation_tokens (drop k body) \<le> budget \<Longrightarrow>
     fit_start body budget \<le> k"
proof -
  let ?s = "fit_scan (rev (enumerate 0 body)) budget (length body)"
  have s: "estimate_conversation_tokens (drop ?s body) \<le> budget"
    "?s = 0 \<or> budget < estimate_conversation_tokens (drop (?s - 1) body)"
    using fit_scan_spec [of "length body" body budget budget] by (simp_all add: Let_def)
  note r = run_end_bounds [of ?s body]
  show "estimate_conversation_tokens (drop (fit_start body budget) body) \<le> budget"
    using s(1) r estimate_drop_mono [of ?s "run_end body ?s" body] by (simp add: fit_start_def)
  show "fit_start body budget < length body \<Longrightarrow> \<not> is_tool_result (body ! fit_start body budget)"
    using r by (simp add: fit_start_def)
  assume k: "k < length body" "\<not> is_tool_result (body ! k)" "estimate_conversation_tokens (drop k body) \<le> budget"
  have "?s \<le> k"
  proof (rule ccontr)
    assume "\<not> ?s \<le> k"
    then have "budget < estimate_conversation_tokens (drop (?s - 1) body)" "k \<le> ?s - 1" using s(2) by auto
    then show False using k(3) estimate_drop_mono [of k "?s - 1" body] by simp
  qed
  then show "fit_start body budget \<le> k" using r k by (simp add: fit_start_def)
qed

definition system_head :: "ConversationItem list \<Rightarrow> ConversationItem list" where
  "system_head c = (if c \<noteq> [] \<and> is_system (hd c) then [hd c] else [])"

lemma fit_eq:
  assumes "c = system_head c @ body" "max_tokens < estimate_conversation_tokens c"
    "budget = max_tokens - estimate_conversation_tokens (system_head c)"
  shows "fit_conversation_to_budget c max_tokens =
           system_head c @ (if fit_start body budget < length body then drop (fit_start body budget) body
                            else recover_truncated_tail_unit body budget)"
proof -
  have "(case c of System s # rest \<Rightarrow> ([System s], rest) | _ \<Rightarrow> ([], c)) = (system_head c, body)"
  proof (cases c)
    case (Cons x xs)
    then show ?thesis using assms(1) by (cases x) (auto simp: system_head_def)
  qed (use assms(1) in \<open>simp add: system_head_def\<close>)
  then show ?thesis
    using assms(2,3)
    by (simp add: fit_conversation_to_budget_def estimate_conversation_tokens_def fit_start_def Let_def)
qed

text \<open>
  C6: fitting keeps the longest affordable tail. Whenever some tail that starts on an item
  other than a tool result fits in the budget next to the leading system message, the
  fitted conversation is that system message followed by a tail that contains it, its
  estimate does not exceed the limit, and nothing kept is altered.
\<close>

theorem fit_keeps_longest_tail:
  assumes "c = system_head c @ pre @ suf" "suf \<noteq> []" "\<not> is_tool_result (hd suf)"
    and "estimate_conversation_tokens (system_head c) + estimate_conversation_tokens suf \<le> max_tokens"
  shows "\<exists>mid. fit_conversation_to_budget c max_tokens = system_head c @ mid @ suf
               \<and> suffix mid pre
               \<and> estimate_conversation_tokens (fit_conversation_to_budget c max_tokens) \<le> max_tokens"
proof (cases "estimate_conversation_tokens c \<le> max_tokens")
  case True
  then have "fit_conversation_to_budget c max_tokens = c"
    by (simp add: fit_conversation_to_budget_def estimate_conversation_tokens_def)
  then show ?thesis using assms(1) True by (intro exI [of _ pre]) simp
next
  case False
  define budget where "budget = max_tokens - estimate_conversation_tokens (system_head c)"
  let ?body = "pre @ suf" and ?s = "fit_start (pre @ suf) budget"
  have k: "length pre < length ?body" "\<not> is_tool_result (?body ! length pre)"
    "estimate_conversation_tokens (drop (length pre) ?body) \<le> budget"
    using assms(2-4) by (simp_all add: hd_conv_nth budget_def nth_append)
  have s: "?s \<le> length pre" by (rule fit_start_spec(3) [OF k])
  have f: "fit_conversation_to_budget c max_tokens = system_head c @ drop ?s ?body"
    using fit_eq [OF assms(1) _ budget_def] False le_less_trans [OF s k(1)] by simp
  have "estimate_conversation_tokens (drop ?s ?body) \<le> budget" by (rule fit_start_spec(1))
  then show ?thesis
    using f s assms(4) by (intro exI [of _ "drop ?s pre"]) (simp add: budget_def suffix_drop)
qed

theorem fit_keeps_longest_tail_witness:
  "let c = [system ''You are'', user ''an old question'', assistant ''an old answer'', user ''now'']
   in estimate_conversation_tokens c = 7
      \<and> (\<exists>mid. fit_conversation_to_budget c 5 = system_head c @ mid @ [user ''now''])"
proof -
  let ?c = "[system ''You are'', user ''an old question'', assistant ''an old answer'', user ''now'']"
  have h: "system_head ?c = [system ''You are'']" by (simp add: system_head_def system_def)
  have e: "estimate_conversation_tokens [system ''You are''] = 1" "estimate_conversation_tokens [user ''now''] = 0"
    "estimate_conversation_tokens ?c = 7"
    by (simp_all add: system_def user_def user_tagged_def assistant_def estimate_tokens_def BYTES_PER_TOKEN_def
        estimate_image_tokens_def sat_mul64_def IMAGE_TOKEN_ESTIMATE_def U64_MAX_def)
  show ?thesis
    using fit_keeps_longest_tail [of ?c "[user ''an old question'', assistant ''an old answer'']" "[user ''now'']" 5] h e
    by (auto simp: user_def user_tagged_def numeral_eq_Suc)
qed

section \<open>Pairing survives the fit\<close>

lemma truncate_item_ids:
  "is_tool_result (truncate_item_to_tokens r n) = is_tool_result r"
  "result_id (truncate_item_to_tokens r n) = result_id r"
  "calls_of (truncate_item_to_tokens r n) = calls_of r"
  by (cases r; simp split: option.split)+

lemma paired_single: "paired [i] \<longleftrightarrow> \<not> is_tool_result i \<and> calls_of i = []"
  by (cases i) (auto simp: call_ids_def)

lemma tail_results_split: "tail_results body = (b, rs) \<Longrightarrow> body = b @ rs"
proof -
  assume "tail_results body = (b, rs)"
  then have "rev rs @ rev b = rev body" by (auto simp: tail_results_def)
  then show "body = b @ rs" by (metis rev_append rev_rev_ident)
qed

lemma paired_tail_unit:
  assumes p: "paired body" and t: "tail_results body = (b, rs)" "rs \<noteq> []"
  shows "b \<noteq> [] \<and> calls_of (last b) \<noteq> [] \<and> list_all is_tool_result rs
         \<and> distinct (map result_id rs) \<and> result_id ` set rs = call_ids (last b)"
proof -
  note body = tail_results_split [OF t(1)]
  have rs: "list_all is_tool_result rs"
    using t(1) by (auto simp: tail_results_def list_all_iff dest: set_takeWhileD)
  have b: "b = [] \<or> \<not> is_tool_result (last b)"
    using t(1) hd_dropWhile [of is_tool_result "rev body"]
    by (auto simp: tail_results_def last_rev)
  have hd: "is_tool_result (hd rs)" using rs t(2) by (cases rs) auto
  have ne: "b \<noteq> []" using p body hd t(2) by (cases rs) auto
  then have u: "paired (last b # rs)"
    using paired_suffix [of "butlast b" "last b # rs"] p b unfolding body
    by (metis append.assoc append_Cons append_Nil append_butlast_last_id list.sel(1))
  then have c: "calls_of (last b) \<noteq> []" using hd t(2) by (cases rs) (auto split: if_splits)
  then have "paired (last b # rs @ [])" using u by simp
  then show ?thesis using ne c rs paired_run [OF c rs, of "[]"] by (simp del: paired.simps)
qed

lemma recover_paired:
  assumes p: "paired body"
  shows "paired (recover_truncated_tail_unit body budget)"
proof -
  obtain b rs where t: "tail_results body = (b, rs)" by fastforce
  show ?thesis
  proof (cases "rs = []")
    case True
    then have b: "b = body" using tail_results_split [OF t] by simp
    show ?thesis
    proof (cases "body = []")
      case False
      then have "\<not> is_tool_result (last body)"
        using True t by (cases body rule: rev_cases) (auto simp: tail_results_def)
      then have "paired [last body]"
        using paired_suffix [of "butlast body" "[last body]"] p False by simp
      then show ?thesis
        using True t b False
        by (simp add: recover_truncated_tail_unit_def paired_single truncate_item_ids del: paired.simps)
    qed (use True t b in \<open>simp add: recover_truncated_tail_unit_def\<close>)
  next
    case False
    note u = paired_tail_unit [OF p t False]
    have "paired (last b # map (\<lambda>r. truncate_item_to_tokens r n) rs @ [])" for n
      using u by (subst paired_run) (auto simp: list.pred_map o_def truncate_item_ids image_image)
    then show ?thesis
      using False t u by (simp add: recover_truncated_tail_unit_def Let_def del: paired.simps)
  qed
qed

lemma system_paired: "paired (system_head c @ body) \<longleftrightarrow> paired body"
  by (cases "hd c") (auto simp: system_head_def)

lemma fit_paired:
  assumes "paired c"
  shows "paired (fit_conversation_to_budget c max_tokens)"
proof (cases "estimate_conversation_tokens c \<le> max_tokens")
  case True
  then show ?thesis using assms by (simp add: fit_conversation_to_budget_def estimate_conversation_tokens_def)
next
  case False
  define budget where "budget = max_tokens - estimate_conversation_tokens (system_head c)"
  obtain body where c: "c = system_head c @ body"
    using that [of "drop (length (system_head c)) c"] by (cases c) (simp_all add: system_head_def)
  have body: "paired body" using assms c system_paired by metis
  let ?s = "fit_start body budget"
  have "paired (drop ?s body)" if "?s < length body"
    using paired_suffix [of "take ?s body" "drop ?s body"] body fit_start_spec(2) [OF that] that
    by (simp add: hd_drop_conv_nth)
  then show ?thesis
    using fit_eq [OF c _ budget_def] False recover_paired [OF body] by (simp add: system_paired)
qed

text \<open>
  C10: fitting never orphans a tool result. When every calling turn of the conversation is
  followed by exactly its results, the same holds of the fitted conversation, whether whole
  turns were dropped or the last turn was truncated in place.
\<close>

theorem fit_keeps_pairing:
  assumes "paired c"
  shows "paired (fit_conversation_to_budget c max_tokens)"
  by (rule fit_paired [OF assms])

theorem fit_keeps_pairing_witness:
  "let c = [user ''run it'', assistant_tool_calls [example_call ''a''], tool_result ''a'' ''0123456789'']
   in paired c \<and> paired (fit_conversation_to_budget c 1)"
proof -
  let ?c = "[user ''run it'', assistant_tool_calls [example_call ''a''], tool_result ''a'' ''0123456789'']"
  have "paired ?c" by (simp add: example_defs)
  then show ?thesis using fit_keeps_pairing [of ?c 1] by simp
qed

section \<open>Truncating text\<close>

lemma show_nat_length: "n < 10 ^ k \<Longrightarrow> 0 < k \<Longrightarrow> length (show_nat n) \<le> k"
  unfolding show_nat_def
proof (induction k arbitrary: n)
  case (Suc k)
  show ?case
  proof (cases "n < 10 \<or> k = 0")
    case True
    then show ?thesis using Suc.prems by (subst show_radix.simps) auto
  next
    case False
    then have "length (show_radix 10 (n div 10)) \<le> k" using Suc.prems by (intro Suc.IH) auto
    then show ?thesis using False by (subst show_radix.simps) auto
  qed
qed simp

text \<open>
  C30: truncated text. A text over the limit is cut to a prefix that ends on a character
  boundary, followed by a note with the exact number of bytes dropped; and for limits of at
  least 64 bytes and texts under 100 MB the whole, note included, is within the limit.
\<close>

theorem truncate_text_within_limit:
  assumes "64 \<le> max_bytes" "max_bytes < length s" "length s < 10 ^ 8"
  shows "\<exists>e note. truncate_text_to_bytes s max_bytes = Some (take e s @ note)
           \<and> is_char_boundary s e \<and> e \<le> max_bytes - 64
           \<and> sublist (show_nat (length s - e)) note
           \<and> length (take e s @ note) \<le> max_bytes"
proof -
  define e where "e = floor_boundary s (max_bytes - 64)"
  define note' where "note' = [CHR 0x0A] @ ''[... truncated '' @ show_nat (length s - e)
      @ '' bytes to fit the compaction window ...]''"
  have e: "is_char_boundary s e" "e \<le> max_bytes - 64"
    by (simp_all add: e_def floor_boundary_boundary floor_boundary_le)
  have "min (max_bytes - 64) (length s) = max_bytes - 64" using assms by simp
  then have "truncate_text_to_bytes s max_bytes = Some (take e s @ note')"
    using assms(2) e by (simp add: truncate_text_to_bytes_def Let_def note'_def flip: e_def)
  moreover have "sublist (show_nat (length s - e)) note'"
    unfolding note'_def sublist_def by (metis append.assoc)
  moreover have "length (show_nat (length s - e)) \<le> 8"
    using assms(3) by (intro show_nat_length) auto
  then have "length (take e s @ note') \<le> max_bytes"
    using e assms by (simp add: note'_def)
  ultimately show ?thesis using e by blast
qed

theorem truncate_text_within_limit_witness:
  "\<exists>t. truncate_text_to_bytes (replicate 100 CHR ''x'') 70 = Some t \<and> length t \<le> 70"
  using truncate_text_within_limit [of 70 "replicate 100 CHR ''x''"] by auto

lemma show_nat_nonempty: "0 < length (show_nat n)"
  by (simp add: show_nat_def show_radix_nonempty)

text \<open>
  C40: small limits. For every limit below 57 bytes and every text longer than the limit, the
  truncation drops the whole text and returns only its note, which is longer than the limit; when
  the text itself has fewer than 57 bytes the note is longer than the text it replaces. From 64
  bytes on the limit is kept; in between it depends on the digits of the number of bytes dropped.
\<close>

theorem truncate_text_small_limit:
  assumes "max_bytes < 57" "max_bytes < length s"
  shows "\<exists>note. truncate_text_to_bytes s max_bytes = Some note
           \<and> length note = 56 + length (show_nat (length s)) \<and> max_bytes < length note
           \<and> (length s < 57 \<longrightarrow> length s < length note)"
proof -
  define note' where
    "note' = [CHR 0x0A] @ ''[... truncated '' @ show_nat (length s) @ '' bytes to fit the compaction window ...]''"
  have "max_bytes - 64 = 0" using assms(1) by simp
  moreover have "floor_boundary s 0 = 0" using floor_boundary_le [of s 0] by simp
  ultimately have t: "truncate_text_to_bytes s max_bytes = Some note'"
    using assms(2) by (simp add: truncate_text_to_bytes_def Let_def is_char_boundary_def note'_def)
  have l: "length note' = 56 + length (show_nat (length s))" by (simp add: note'_def)
  then have "57 \<le> length note'" using show_nat_nonempty [of "length s"] by linarith
  with t l assms(1) show ?thesis by (intro exI [of _ note']) linarith+
qed

theorem truncate_text_small_limit_witness:
  "\<exists>note. truncate_text_to_bytes ''0123456789'' 4 = Some note \<and> 10 < length note"
  using truncate_text_small_limit [of 4 "''0123456789''"] by auto

end
