(* ===== verification/Compaction_Context.thy ===== *)
theory Compaction_Context
  imports Compaction_Prep
begin

text \<open>
  What a compaction carries over, \<open>crates/codegen/xai-chat-state/src/compaction_utils.rs\<close>,
  middle part: extracting the user's query from a tagged message, real user turns, the
  messages since the last anchor, the latest agent message and the captured session state.
\<close>

section \<open>Queries\<close>

definition SYSTEM_TAGS :: "string list" where
  "SYSTEM_TAGS = [''user_info'', ''project_layout'', ''git_status'', ''fork-context'', ''system-reminder'',
     ''agent-memory'', ''system_reminder'', ''background_context'', ''command-name'', ''command-message'',
     ''command-args'', ''rules'']"

definition open_tag :: "string \<Rightarrow> string" where "open_tag tag = ''<'' @ tag @ ''>''"
definition close_tag :: "string \<Rightarrow> string" where "close_tag tag = ''</'' @ tag @ ''>''"

function strip_tag :: "string \<Rightarrow> string \<Rightarrow> string" where
  "strip_tag tag result =
     (case find_sub (open_tag tag) result of
        None \<Rightarrow> result
      | Some start \<Rightarrow>
          (case find_sub (close_tag tag) (drop start result) of
             None \<Rightarrow> result
           | Some rel_end \<Rightarrow>
               strip_tag tag (take start result @ drop (start + rel_end + length (close_tag tag)) result)))"
  by pat_completeness auto
termination
  by (relation "measure (\<lambda>(tag, s). length s)") (auto simp: close_tag_def dest!: find_sub_Some)

declare strip_tag.simps [simp del]

definition strip_system_tags :: "string \<Rightarrow> string" where
  "strip_system_tags s = trim (fold strip_tag SYSTEM_TAGS s)"

definition extract_user_query :: "string \<Rightarrow> string" where
  "extract_user_query s =
     (let stripped = strip_system_tags s
      in case find_sub ''<user_query>'' stripped of
           None \<Rightarrow> stripped
         | Some start \<Rightarrow>
             let content_start = start + length ''<user_query>''
             in case find_sub ''</user_query>'' (drop content_start stripped) of
                  None \<Rightarrow> stripped
                | Some e \<Rightarrow> trim (take e (drop content_start stripped)))"

definition wrap_user_query :: "string \<Rightarrow> string" where
  "wrap_user_query q = ''<user_query>'' @ [CHR 0x0A] @ q @ [CHR 0x0A] @ ''</user_query>''"

fun is_user :: "ConversationItem \<Rightarrow> bool" where
  "is_user (User _) = True"
| "is_user _ = False"

definition extract_last_user_query :: "ConversationItem list \<Rightarrow> string option" where
  "extract_last_user_query conversation =
     (case find is_user (rev conversation) of
        None \<Rightarrow> None
      | Some item \<Rightarrow> let q = extract_user_query (text_content item) in if q \<noteq> [] then Some q else None)"

definition AUTO_CONTINUE_PROMPT :: string where
  "AUTO_CONTINUE_PROMPT =
     ''Continue the conversation from where it left off without asking the user any further questions. Resume directly - do not acknowledge the summary, do not recap what was happening, do not preface with '' @
     [CHR 0x22] @ ''I'' @ [CHR 0x27] @ ''ll continue'' @ [CHR 0x22] @ '' or similar.'' @ [CHR 0x0A] @
     ''Pick up the last task as if the break never happened.''"

definition is_bootstrap_reminder_text :: "string \<Rightarrow> bool" where
  "is_bootstrap_reminder_text s = False"

definition is_synthetic_extracted_query :: "string \<Rightarrow> bool" where
  "is_synthetic_extracted_query s \<longleftrightarrow>
     s = [] \<or> s = ''__auto_continue__'' \<or> s = AUTO_CONTINUE_PROMPT \<or> is_bootstrap_reminder_text s"

fun is_image :: "ContentPart \<Rightarrow> bool" where
  "is_image (Image _) = True"
| "is_image (Text _) = False"

fun is_real_user_turn :: "ConversationItem \<Rightarrow> bool" where
  "is_real_user_turn (User u) =
     (if \<not> is_human (u_synthetic_reason u) then False
      else if list_ex is_image (u_content u) then True
      else \<not> is_synthetic_extracted_query (extract_user_query (text_content (User u))))"
| "is_real_user_turn _ = False"

definition extract_real_user_queries :: "ConversationItem list \<Rightarrow> string list" where
  "extract_real_user_queries conversation =
     map (\<lambda>item. extract_user_query (text_content item)) (filter is_real_user_turn conversation)"

definition extract_last_real_user_query :: "ConversationItem list \<Rightarrow> string option" where
  "extract_last_real_user_query conversation =
     map_option (\<lambda>item. extract_user_query (text_content item)) (find is_real_user_turn (rev conversation))"

section \<open>Messages since an anchor\<close>

definition omit_result :: "ToolResultItem \<Rightarrow> ConversationItem" where
  "omit_result t =
     ToolResult \<lparr>t_tool_call_id = t_tool_call_id t, t_content = ''Tool call omitted...'', t_images = []\<rparr>"

fun carry_item :: "ConversationItem \<Rightarrow> ConversationItem option" where
  "carry_item (Assistant a) = Some (Assistant a)"
| "carry_item (ToolResult t) = Some (omit_result t)"
| "carry_item _ = None"

definition extract_messages_since_last_user :: "ConversationItem list \<Rightarrow> ConversationItem list" where
  "extract_messages_since_last_user conversation =
     rev (List.map_filter carry_item (takeWhile (\<lambda>i. \<not> is_user i) (rev conversation)))"

definition extract_messages_since_last_real_user :: "ConversationItem list \<Rightarrow> ConversationItem list" where
  "extract_messages_since_last_real_user conversation =
     (let start = (case rposition is_real_user_turn conversation of Some idx \<Rightarrow> idx + 1 | None \<Rightarrow> 0)
      in List.map_filter carry_item (drop start conversation))"

datatype AgentMessagePosition = Only | BeforeHuman | AfterHuman

record AgentMessageAnchor =
  anchor_item :: ConversationItem
  anchor_position :: AgentMessagePosition

fun is_agent_message :: "ConversationItem \<Rightarrow> bool" where
  "is_agent_message (User u) = (u_synthetic_reason u = AgentMessage)"
| "is_agent_message _ = False"

definition extract_latest_agent_message :: "ConversationItem list \<Rightarrow> AgentMessageAnchor option" where
  "extract_latest_agent_message conversation =
     (case rposition is_agent_message conversation of
        None \<Rightarrow> None
      | Some agent_message_index \<Rightarrow>
          let position = (case rposition is_real_user_turn conversation of
                Some human_index \<Rightarrow> if agent_message_index < human_index then BeforeHuman else AfterHuman
              | None \<Rightarrow> Only)
          in if agent_message_index < length conversation
             then Some \<lparr>anchor_item = conversation ! agent_message_index, anchor_position = position\<rparr>
             else None)"

fun carry_anchor_item :: "ConversationItem \<Rightarrow> ConversationItem option" where
  "carry_anchor_item (User u) = (if u_synthetic_reason u = AgentMessage then Some (User u) else None)"
| "carry_anchor_item item = carry_item item"

definition extract_messages_since_last_compaction_anchor :: "ConversationItem list \<Rightarrow> ConversationItem list" where
  "extract_messages_since_last_compaction_anchor conversation =
     (let boundary = rposition (\<lambda>item. is_real_user_turn item \<or> is_agent_message item) conversation;
          start = (case boundary of
              None \<Rightarrow> 0
            | Some idx \<Rightarrow> if idx < length conversation \<and> is_agent_message (conversation ! idx) then idx else idx + 1)
      in List.map_filter carry_anchor_item (drop start conversation))"

section \<open>The captured session state\<close>

record RunningSubagentSummary =
  subagent_id :: string
  subagent_type :: string
  subagent_description :: string
  subagent_elapsed_ms :: u64

record BackgroundTaskSummary =
  bg_task_id :: string
  bg_command :: string
  bg_status :: string
  bg_tool_name :: "string option"

record ScheduledLoopSummary =
  sl_task_id :: string
  sl_interval :: string
  sl_next_fire_at :: string
  sl_prompt :: string
  sl_recurring :: bool
  sl_durable :: bool

record WorkflowRunSummary =
  wf_name :: string
  wf_run_id :: string
  wf_status :: string
  wf_objective :: string
  wf_current_phase :: "string option"
  wf_agents_used :: u64
  wf_agent_budget :: "u64 option"
  wf_elapsed_ms :: u64

record CompactionServerSummary =
  sv_name :: string
  sv_tool_count :: usize
  sv_description :: "string option"

datatype TodoSummaryStatus = TodoPending | TodoInProgress | TodoCompleted | TodoCancelled

fun is_actionable :: "TodoSummaryStatus \<Rightarrow> bool" where
  "is_actionable TodoPending = True"
| "is_actionable TodoInProgress = True"
| "is_actionable _ = False"

fun todo_tag :: "TodoSummaryStatus \<Rightarrow> string" where
  "todo_tag TodoPending = ''[pending]''"
| "todo_tag TodoInProgress = ''[in_progress]''"
| "todo_tag TodoCompleted = ''[completed]''"
| "todo_tag TodoCancelled = ''[cancelled]''"

record TodoSummary =
  todo_id :: string
  todo_content :: string
  todo_status :: TodoSummaryStatus

record CompactionStateContext =
  ctx_cwd_generation :: u64
  ctx_destination_project_instructions :: "string option"
  ctx_agent_message_anchor :: "AgentMessageAnchor option"
  ctx_recent_messages :: "ConversationItem list"
  ctx_last_user_query :: "string option"
  ctx_agent_edited_paths :: "string list"
  ctx_running_tasks :: "BackgroundTaskSummary list"
  ctx_running_subagents :: "RunningSubagentSummary list"
  ctx_connected_mcp_servers :: "CompactionServerSummary list"
  ctx_todos :: "TodoSummary list"
  ctx_scheduled_loops :: "ScheduledLoopSummary list"
  ctx_workflows :: "WorkflowRunSummary list"
  ctx_workflow_tool_name :: "string option"

text \<open>The set of edited paths is a \<open>BTreeSet\<close>: the sorted list of its elements.\<close>

record CompactionInputs =
  in_cwd_generation :: u64
  in_destination_project_instructions :: "string option"
  in_running_tasks :: "BackgroundTaskSummary list"
  in_running_subagents :: "RunningSubagentSummary list"
  in_agent_edited_paths :: "string list"
  in_connected_mcp_servers :: "CompactionServerSummary list"
  in_todos :: "TodoSummary list"
  in_scheduled_loops :: "ScheduledLoopSummary list"
  in_workflows :: "WorkflowRunSummary list"
  in_workflow_tool_name :: "string option"
  in_goal_objective :: "string option"

definition build_context :: "ConversationItem list \<Rightarrow> CompactionInputs \<Rightarrow> CompactionStateContext" where
  "build_context conversation inputs =
     \<lparr>ctx_cwd_generation = in_cwd_generation inputs,
      ctx_destination_project_instructions = in_destination_project_instructions inputs,
      ctx_agent_message_anchor = extract_latest_agent_message conversation,
      ctx_recent_messages = extract_messages_since_last_compaction_anchor conversation,
      ctx_last_user_query =
        (case in_goal_objective inputs of
           Some objective \<Rightarrow>
             if trim objective \<noteq> [] then Some objective else extract_last_real_user_query conversation
         | None \<Rightarrow> extract_last_real_user_query conversation),
      ctx_agent_edited_paths = in_agent_edited_paths inputs,
      ctx_running_tasks = in_running_tasks inputs,
      ctx_running_subagents = in_running_subagents inputs,
      ctx_connected_mcp_servers = in_connected_mcp_servers inputs,
      ctx_todos = in_todos inputs,
      ctx_scheduled_loops = in_scheduled_loops inputs,
      ctx_workflows = in_workflows inputs,
      ctx_workflow_tool_name = in_workflow_tool_name inputs\<rparr>"

definition task_summary :: "string \<Rightarrow> string \<Rightarrow> string \<Rightarrow> string option \<Rightarrow> BackgroundTaskSummary" where
  "task_summary task_id command status tool_name =
     \<lparr>bg_task_id = task_id, bg_command = command, bg_status = status, bg_tool_name = tool_name\<rparr>"

definition for_compaction :: "CompactionStateContext \<Rightarrow> CompactionStateContext" where
  "for_compaction ctx =
     ctx\<lparr>ctx_agent_message_anchor :=
           (case ctx_agent_message_anchor ctx of
              Some a \<Rightarrow> Some a
            | None \<Rightarrow> extract_latest_agent_message (ctx_recent_messages ctx)),
         ctx_recent_messages := []\<rparr>"

section \<open>Wrapping and extracting a query\<close>

abbreviation lt :: char where "lt \<equiv> CHR ''<''"

text \<open>
  A user message as the harness assembles it: tag blocks, plain text in between, and closing tags
  without an opening one.
\<close>

datatype piece = Block string string | Plain string | Closing string

fun piece_text :: "piece \<Rightarrow> string" where
  "piece_text (Block tag body) = open_tag tag @ body @ close_tag tag"
| "piece_text (Plain s) = s"
| "piece_text (Closing tag) = close_tag tag"

abbreviation render :: "piece list \<Rightarrow> string" where
  "render ps \<equiv> concat (map piece_text ps)"

definition tag_name :: "string \<Rightarrow> bool" where
  "tag_name t \<longleftrightarrow> t \<noteq> [] \<and> hd t \<noteq> CHR ''/'' \<and> lt \<notin> set t \<and> CHR ''>'' \<notin> set t"

fun well_marked :: "piece \<Rightarrow> bool" where
  "well_marked (Block tag body) = (tag_name tag \<and> lt \<notin> set body)"
| "well_marked (Plain s) = (lt \<notin> set s)"
| "well_marked (Closing tag) = tag_name tag"

fun is_block :: "string \<Rightarrow> piece \<Rightarrow> bool" where
  "is_block t (Block tag body) = (tag = t)"
| "is_block t _ = False"

lemma find_skip: "lt \<notin> set m \<Longrightarrow> find_sub (lt # p) (m @ s) = map_option (\<lambda>i. length m + i) (find_sub (lt # p) s)"
proof (induction m)
  case Nil
  then show ?case by (cases "find_sub (lt # p) s") simp_all
next
  case (Cons c m)
  then show ?case by (cases "find_sub (lt # p) s") auto
qed

lemma find_mark: "\<not> prefix p s \<Longrightarrow> find_sub (lt # p) (lt # s) = map_option Suc (find_sub (lt # p) s)"
  by simp

lemma tag_prefix: "tag_name t \<Longrightarrow> tag_name u \<Longrightarrow> prefix (t @ ''>'') (u @ ''>'' @ s) \<longleftrightarrow> t = u"
proof
  assume n: "tag_name t" "tag_name u" and "prefix (t @ ''>'') (u @ ''>'' @ s)"
  then obtain r where "t @ CHR ''>'' # r = u @ CHR ''>'' # s" by (auto simp: prefix_def)
  then have "takeWhile (\<lambda>c. c \<noteq> CHR ''>'') (t @ CHR ''>'' # r) = takeWhile (\<lambda>c. c \<noteq> CHR ''>'') (u @ CHR ''>'' # s)"
    by simp
  moreover have "takeWhile (\<lambda>c. c \<noteq> CHR ''>'') (x @ CHR ''>'' # y) = x" if "tag_name x" for x y
    using that by (subst takeWhile_append2) (auto simp: tag_name_def)
  ultimately show "t = u" using n by simp
qed simp

lemma slash_prefix: "tag_name t \<Longrightarrow> \<not> prefix (t @ ''>'') (CHR ''/'' # s)"
  by (cases t) (auto simp: tag_name_def)

lemma close_text: "close_tag t @ s = lt # (CHR ''/'' # t @ ''>'') @ s" "open_tag t @ s = lt # (t @ ''>'') @ s"
  by (simp_all add: close_tag_def open_tag_def)

lemma find_over_close:
  assumes "tag_name t" "tag_name u"
  shows "find_sub (open_tag t) (close_tag u @ s) = map_option (\<lambda>i. length (close_tag u) + i) (find_sub (open_tag t) s)"
proof -
  have "lt \<notin> set (CHR ''/'' # u @ ''>'')" using assms(2) by (simp add: tag_name_def)
  from find_skip [OF this, of "t @ ''>''" s] show ?thesis
    using find_mark [OF slash_prefix [OF assms(1)], of "u @ ''>'' @ s"]
    by (simp add: open_tag_def close_tag_def option.map_comp comp_def)
qed

lemma find_over_open:
  assumes "tag_name t" "tag_name u" "t \<noteq> u" "lt \<notin> set body"
  shows "find_sub (open_tag t) (open_tag u @ body @ s) =
           map_option (\<lambda>i. length (open_tag u @ body) + i) (find_sub (open_tag t) s)"
proof -
  have "lt \<notin> set (u @ ''>'' @ body)" using assms(2,4) by (simp add: tag_name_def)
  from find_skip [OF this, of "t @ ''>''" s] show ?thesis
    using find_mark [of "t @ ''>''" "u @ ''>'' @ body @ s"] tag_prefix [OF assms(1,2), of "body @ s"] assms(3)
    by (simp add: open_tag_def option.map_comp comp_def)
qed

lemma find_over_piece:
  assumes "tag_name t" "well_marked p" "\<not> is_block t p"
  shows "find_sub (open_tag t) (piece_text p @ s) = map_option (\<lambda>i. length (piece_text p) + i) (find_sub (open_tag t) s)"
proof (cases p)
  case (Block u body)
  then show ?thesis
    using assms find_over_open [of t u body "close_tag u @ s"] find_over_close [of t u s]
    by (auto simp: option.map_comp comp_def add.assoc)
next
  case (Plain m)
  then show ?thesis using assms find_skip [of m "t @ ''>''" s] by (simp add: open_tag_def)
next
  case (Closing u)
  then show ?thesis using assms find_over_close by simp
qed

lemma find_over_pieces:
  assumes "tag_name t" "list_all well_marked ps" "\<not> list_ex (is_block t) ps"
  shows "find_sub (open_tag t) (render ps @ s) = map_option (\<lambda>i. length (render ps) + i) (find_sub (open_tag t) s)"
  using assms(2,3)
proof (induction ps)
  case Nil
  then show ?case by (cases "find_sub (open_tag t) s") simp_all
next
  case (Cons p ps)
  then show ?case
    using find_over_piece [OF assms(1), of p "render ps @ s"] by (simp add: option.map_comp comp_def add.assoc)
qed

lemma find_close:
  assumes "tag_name t" "lt \<notin> set body"
  shows "find_sub (close_tag t) (open_tag t @ body @ close_tag t @ s) = Some (length (open_tag t @ body))"
proof -
  have "\<not> prefix (CHR ''/'' # t @ ''>'') (t @ ''>'' @ body @ close_tag t @ s)"
    using assms(1) by (cases t) (auto simp: tag_name_def)
  moreover have "find_sub (close_tag t) ((t @ ''>'' @ body) @ close_tag t @ s) = Some (length (t @ ''>'' @ body))"
    unfolding close_tag_def using assms find_sub_first [of lt "t @ ''>'' @ body" "CHR ''/'' # t @ ''>''" s]
    by (simp add: tag_name_def)
  ultimately show ?thesis using find_mark [of "CHR ''/'' # t @ ''>''" "t @ ''>'' @ body @ close_tag t @ s"]
    by (simp add: open_tag_def close_tag_def)
qed

text \<open>The loop for one tag removes exactly the blocks of that tag.\<close>

lemma strip_tag_blocks:
  assumes "tag_name t" "list_all well_marked ps"
  shows "strip_tag t (render ps) = render (filter (\<lambda>p. \<not> is_block t p) ps)"
  using assms(2)
proof (induction "length ps" arbitrary: ps rule: less_induct)
  case less
  show ?case
  proof (cases "list_ex (is_block t) ps")
    case False
    then have "find_sub (open_tag t) (render ps) = None"
      using find_over_pieces [OF assms(1) less.prems False, of "[]"] by (simp add: open_tag_def)
    moreover have "filter (\<lambda>p. \<not> is_block t p) ps = ps" using False by (auto simp: filter_id_conv list_ex_iff)
    ultimately show ?thesis by (simp add: strip_tag.simps)
  next
    case True
    then obtain ps1 p ps2 where ps: "ps = ps1 @ p # ps2" "is_block t p" "\<not> list_ex (is_block t) ps1"
      by (metis list_ex_iff split_list_first_prop)
    obtain body where p: "p = Block t body" using ps(2) by (cases p) auto
    have w: "list_all well_marked ps1" "lt \<notin> set body" "list_all well_marked (ps1 @ ps2)"
      using less.prems by (simp_all add: ps p)
    let ?rest = "piece_text p @ render ps2"
    have s: "find_sub (open_tag t) (render ps) = Some (length (render ps1))"
      using find_over_pieces [OF assms(1) w(1) ps(3), of ?rest] by (simp add: ps p open_tag_def)
    have d: "drop (length (render ps1)) (render ps) = ?rest" by (simp add: ps)
    have c: "find_sub (close_tag t) ?rest = Some (length (open_tag t @ body))"
      using find_close [OF assms(1) w(2), of "render ps2"] by (simp add: p)
    have "strip_tag t (render ps) = strip_tag t (render (ps1 @ ps2))"
      by (subst strip_tag.simps) (simp add: s d c, simp add: ps p)
    then show ?thesis using less.hyps [of "ps1 @ ps2"] w(3) by (simp add: ps p)
  qed
qed

lemma strip_tags_blocks:
  assumes "list_all tag_name ts" "list_all well_marked ps"
  shows "fold strip_tag ts (render ps) = render (filter (\<lambda>p. \<not> list_ex (\<lambda>t. is_block t p) ts) ps)"
  using assms
proof (induction ts arbitrary: ps)
  case (Cons t ts)
  have "list_all well_marked (filter (\<lambda>p. \<not> is_block t p) ps)" using Cons.prems(2) by (simp add: list_all_iff)
  then show ?case using Cons strip_tag_blocks [of t ps] by (simp add: conj_commute)
qed simp

lemma system_tag_names: "list_all tag_name (''user_query'' # SYSTEM_TAGS)"
  by (simp add: SYSTEM_TAGS_def tag_name_def)

lemma not_system_tag: "''user_query'' \<notin> set SYSTEM_TAGS"
  by (simp add: SYSTEM_TAGS_def)

lemma trim_newlines:
  assumes "set m \<subseteq> {CHR 0x0A}" "set n \<subseteq> {CHR 0x0A}" "s \<noteq> []" "\<not> is_cont (hd s)"
  shows "trim (m @ s @ n) = trim s"
proof -
  have w: "is_whitespace [CHR 0x0A]" "\<not> is_cont CHR 0x0A" by (simp_all add: is_whitespace_def ws_chars_def is_cont_def)
  have "trim (s @ n) = trim s" using assms(2)
  proof (induction n rule: rev_induct)
    case (snoc c n)
    then show ?case using trim_snoc [OF w, of "s @ n"] by simp
  qed simp
  moreover have "trim (m @ s @ n) = trim (s @ n)" using assms(1)
  proof (induction m)
    case (Cons c m)
    have "\<not> is_cont (hd (m @ s @ n))" using Cons.prems assms(3,4) w(2) by (cases m) auto
    then show ?case using Cons trim_cons [OF w(1), of "m @ s @ n"] by simp
  qed simp
  ultimately show ?thesis by simp
qed

text \<open>What is extracted from a message whose blocks are gone: the text up to the first closing tag.\<close>

lemma extract_first_query:
  assumes "strip_system_tags s = ''<user_query>'' @ [CHR 0x0A] @ q @ r" "lt \<notin> set q"
    and "find_sub ''</user_query>'' (q @ r) = Some n" "take n (q @ r) = q'"
  shows "extract_user_query s = trim (CHR 0x0A # q')"
proof -
  have "find_sub ''</user_query>'' (CHR 0x0A # q @ r) = Some (Suc n)" using assms(3) by simp
  then show ?thesis using assms(4) unfolding extract_user_query_def assms(1) by (simp add: Let_def)
qed

text \<open>
  The runtime's part of a message: blocks of the runtime's tags with bodies free of angle
  brackets, and line feeds between them.
\<close>

fun runtime_piece :: "piece \<Rightarrow> bool" where
  "runtime_piece (Block tag body) = (tag \<in> set SYSTEM_TAGS \<and> lt \<notin> set body)"
| "runtime_piece (Plain s) = (set s \<subseteq> {CHR 0x0A})"
| "runtime_piece (Closing tag) = False"

lemma runtime_left:
  assumes "list_all runtime_piece ps"
  shows "set (render (filter (\<lambda>p. \<not> list_ex (\<lambda>t. is_block t p) SYSTEM_TAGS) ps)) \<subseteq> {CHR 0x0A}
         \<and> list_all well_marked ps"
  using assms
proof (induction ps)
  case (Cons p ps)
  then show ?case using system_tag_names by (cases p) (auto simp: list_ex_iff list_all_iff)
qed simp

lemma query_among_blocks:
  assumes "CHR ''<'' \<notin> set q" "q = [] \<or> \<not> is_cont (hd q)" "list_all runtime_piece (before @ after)"
    and "CHR ''<'' \<notin> set rest"
  shows "extract_user_query (render before @ wrap_user_query q @ render after) = trim q
         \<and> extract_user_query (wrap_user_query (q @ ''</user_query>'' @ rest)) = trim q"
proof
  have t: "trim (CHR 0x0A # q @ [CHR 0x0A]) = trim q" "trim (CHR 0x0A # q) = trim q"
    using assms(2) by (auto intro!: trim_surround trim_cons simp: is_whitespace_def ws_chars_def is_cont_def)
  define u where "u = Block ''user_query'' (CHR 0x0A # q @ [CHR 0x0A])"
  let ?keep = "filter (\<lambda>p. \<not> list_ex (\<lambda>t. is_block t p) SYSTEM_TAGS)"
  have uq: "\<not> list_ex (\<lambda>t. is_block t u) SYSTEM_TAGS" "well_marked u" "piece_text u = wrap_user_query q"
    using not_system_tag system_tag_names assms(1)
    by (auto simp: u_def list_ex_iff wrap_user_query_def open_tag_def close_tag_def)
  have left: "set (render (?keep before)) \<subseteq> {CHR 0x0A}" "set (render (?keep after)) \<subseteq> {CHR 0x0A}"
    "list_all well_marked (before @ u # after)"
    using runtime_left [of before] runtime_left [of after] assms(3) uq(2) by simp_all
  have w: "wrap_user_query q = lt # (''user_query>'' @ [CHR 0x0A] @ q @ [CHR 0x0A] @ ''</user_query'') @ [CHR ''>'']"
    by (simp add: wrap_user_query_def)
  have "strip_system_tags (render (before @ u # after)) = trim (render (?keep before) @ wrap_user_query q @ render (?keep after))"
    using strip_tags_blocks [OF _ left(3), of SYSTEM_TAGS] system_tag_names uq(1,3)
    by (simp add: strip_system_tags_def)
  also have "\<dots> = trim (wrap_user_query q)"
    using left(1,2) by (intro trim_newlines) (simp_all add: w is_cont_def)
  also have "\<dots> = wrap_user_query q"
    unfolding w by (rule trim_id) (simp_all add: token_char_def is_cont_def is_whitespace_def ws_chars_def)
  finally have s: "strip_system_tags (render before @ wrap_user_query q @ render after) =
      ''<user_query>'' @ [CHR 0x0A] @ (q @ [CHR 0x0A]) @ ''</user_query>''"
    unfolding wrap_user_query_def using uq(3) by (simp add: wrap_user_query_def)
  show "extract_user_query (render before @ wrap_user_query q @ render after) = trim q"
    using extract_first_query [OF s, of "length (q @ [CHR 0x0A])" "q @ [CHR 0x0A]"] assms(1) t(1)
      find_sub_first [of lt "q @ [CHR 0x0A]" "''/user_query>''" "[]"]
    by simp
  let ?ps = "[Block ''user_query'' (CHR 0x0A # q), Plain (rest @ [CHR 0x0A]), Closing ''user_query'']"
  have c: "render ?ps = wrap_user_query (q @ ''</user_query>'' @ rest)"
    by (simp add: wrap_user_query_def open_tag_def close_tag_def)
  have "fold strip_tag SYSTEM_TAGS (render ?ps) = render ?ps"
    using strip_tags_blocks [of SYSTEM_TAGS ?ps] system_tag_names not_system_tag assms(1,4)
    by (simp add: list_ex_iff)
  then have s: "strip_system_tags (wrap_user_query (q @ ''</user_query>'' @ rest)) =
      ''<user_query>'' @ [CHR 0x0A] @ q @ (''</user_query>'' @ rest @ [CHR 0x0A] @ ''</user_query>'')"
    unfolding strip_system_tags_def c
    using trim_id [of lt "''user_query>'' @ [CHR 0x0A] @ q @ ''</user_query>'' @ rest @ [CHR 0x0A] @ ''</user_query''" "CHR ''>''"]
    by (simp add: wrap_user_query_def token_char_def is_cont_def is_whitespace_def ws_chars_def)
  show "extract_user_query (wrap_user_query (q @ ''</user_query>'' @ rest)) = trim q"
    using extract_first_query [OF s, of "length q" q] assms(1) t(2)
      find_sub_first [of lt q "''/user_query>''" "rest @ [CHR 0x0A] @ ''</user_query>''"]
    by simp
qed

lemma wrapped_query_extracted:
  assumes "lt \<notin> set q" "q = [] \<or> \<not> is_cont (hd q)"
  shows "extract_user_query (wrap_user_query q) = trim q"
  using query_among_blocks [OF assms, of "[]" "[]" "[]"] by simp

text \<open>
  C24: a tagged query is extracted. Take a message that holds a user query wrapped in its
  \<open>user_query\<close> block, before and after it any number of the runtime's tag blocks separated by line
  feeds, all bodies and the query free of opening angle brackets: all blocks are removed and the
  query itself, trimmed, is what is extracted. A query that contains a closing \<open>user_query\<close> tag
  is cut there: only the part before it is extracted.
\<close>

theorem tagged_query_extracted:
  assumes "CHR ''<'' \<notin> set q" "q = [] \<or> \<not> is_cont (hd q)" "list_all runtime_piece (before @ after)"
    and "CHR ''<'' \<notin> set rest"
  shows "extract_user_query (render before @ wrap_user_query q @ render after) = trim q
         \<and> extract_user_query (wrap_user_query (q @ ''</user_query>'' @ rest)) = trim q"
  by (rule query_among_blocks [OF assms])

theorem tagged_query_extracted_witness:
  "extract_user_query (''<git_status>clean</git_status>'' @ [CHR 0x0A] @ wrap_user_query ''fix the tests'') = trim ''fix the tests''
   \<and> extract_user_query (wrap_user_query (''why'' @ ''</user_query>'' @ ''?'')) = trim ''why''"
  using tagged_query_extracted [of "''fix the tests''" "[Block ''git_status'' ''clean'', Plain [CHR 0x0A]]" "[]" "''?''"]
    tagged_query_extracted [of "''why''" "[]" "[]" "''?''"]
  by (simp add: is_cont_def SYSTEM_TAGS_def open_tag_def close_tag_def)

section \<open>The carried messages\<close>

lemma keeps_ids_carry: "keeps_ids carry_item"
  unfolding keeps_ids_def
proof (rule allI)
  fix i
  show "if is_tool_result i then \<exists>r. carry_item i = Some r \<and> is_tool_result r \<and> result_id r = result_id i
        else if calls_of i \<noteq> [] then \<exists>a. carry_item i = Some a \<and> calls_of a = calls_of i
        else case carry_item i of None \<Rightarrow> True | Some j \<Rightarrow> \<not> is_tool_result j \<and> calls_of j = []"
    by (cases i) (simp_all add: omit_result_def)
qed

lemma keeps_ids_carry_anchor: "keeps_ids carry_anchor_item"
  unfolding keeps_ids_def
proof (rule allI)
  fix i
  show "if is_tool_result i then \<exists>r. carry_anchor_item i = Some r \<and> is_tool_result r \<and> result_id r = result_id i
        else if calls_of i \<noteq> [] then \<exists>a. carry_anchor_item i = Some a \<and> calls_of a = calls_of i
        else case carry_anchor_item i of None \<Rightarrow> True | Some j \<Rightarrow> \<not> is_tool_result j \<and> calls_of j = []"
    by (cases i) (simp_all add: omit_result_def)
qed

lemma paired_from:
  assumes "paired c" "is_user (c ! i)" "i < length c"
  shows "paired (drop i c)" "paired (drop (Suc i) c)"
proof -
  have n: "\<not> is_tool_result (c ! i)" "calls_of (c ! i) = []" using assms(2) by (cases "c ! i"; simp)+
  show p: "paired (drop i c)"
    using paired_suffix [of "take i c" "drop i c"] assms(1,3) n(1) by (simp add: hd_drop_conv_nth)
  then show "paired (drop (Suc i) c)" using n assms(3) by (simp add: drop_Suc_nth)
qed

lemma real_user_is_user: "is_real_user_turn i \<Longrightarrow> is_user i" "is_agent_message i \<Longrightarrow> is_user i"
  by (cases i; simp)+

lemma since_last_user_eq:
  "extract_messages_since_last_user c =
     List.map_filter carry_item (drop (case rposition is_user c of Some i \<Rightarrow> Suc i | None \<Rightarrow> 0) c)"
proof -
  have "rev (takeWhile (\<lambda>i. \<not> is_user i) (rev c)) = drop (case rposition is_user c of Some i \<Rightarrow> Suc i | None \<Rightarrow> 0) c"
  proof (induction c rule: rev_induct)
    case (snoc x c)
    then show ?case
      by (auto simp: rposition_append rposition_None split: option.splits dest: rposition_Some)
  qed simp
  moreover have "rev (List.map_filter f xs) = List.map_filter f (rev xs)" for f xs
    by (simp add: List.map_filter_def rev_filter rev_map)
  ultimately show ?thesis unfolding extract_messages_since_last_user_def by metis
qed

lemma paired_since:
  assumes "paired c" "rposition P c = Some i" "\<And>x. P x \<Longrightarrow> is_user x"
  shows "paired (drop (Suc i) c) \<and> paired (drop i c)"
  using assms(3) rposition_Some [OF assms(2)] paired_from [OF assms(1)] by blast

lemma anchor_messages_paired:
  assumes "paired c"
  shows "paired (extract_messages_since_last_compaction_anchor c)"
  unfolding extract_messages_since_last_compaction_anchor_def Let_def
  by (rule paired_map_filter [OF keeps_ids_carry_anchor])
    (use assms paired_since [OF assms, of "\<lambda>i. is_real_user_turn i \<or> is_agent_message i"] real_user_is_user
     in \<open>auto split: option.split\<close>)

text \<open>
  C15: carried messages stay paired. From a conversation in which every calling turn is
  followed by exactly its results, the messages since the last user turn, since the last
  real user turn and since the last compaction anchor satisfy the same rule: no boundary
  splits a call from its results.
\<close>

theorem carried_messages_paired:
  assumes "paired c"
  shows "paired (extract_messages_since_last_user c)
         \<and> paired (extract_messages_since_last_real_user c)
         \<and> paired (extract_messages_since_last_compaction_anchor c)"
proof -
  have "paired (extract_messages_since_last_user c)"
    unfolding since_last_user_eq
    by (rule paired_map_filter [OF keeps_ids_carry])
      (use assms paired_since [OF assms, of is_user] in \<open>auto split: option.split\<close>)
  moreover have "paired (extract_messages_since_last_real_user c)"
    unfolding extract_messages_since_last_real_user_def Let_def
    by (rule paired_map_filter [OF keeps_ids_carry])
      (use assms paired_since [OF assms, of is_real_user_turn] real_user_is_user
       in \<open>auto split: option.split\<close>)
  ultimately show ?thesis using anchor_messages_paired [OF assms] by blast
qed

theorem carried_messages_paired_witness:
  "let c = [user ''go'', assistant_tool_calls [example_call ''a''], tool_result ''a'' ''ok'']
   in paired c \<and> paired (extract_messages_since_last_compaction_anchor c)"
proof -
  let ?c = "[user ''go'', assistant_tool_calls [example_call ''a''], tool_result ''a'' ''ok'']"
  have "paired ?c" by (simp add: example_defs)
  then show ?thesis using carried_messages_paired [of ?c] by simp
qed

end
