(* ===== verification/Compacted_History.thy ===== *)
theory Compacted_History
  imports Compaction_Context
begin

text \<open>
  The compacted history, \<open>crates/codegen/xai-chat-state/src/compaction_utils.rs\<close>, last part:
  cleaning the summarizing model's output, bounding captured text, and assembling the
  history that replaces the conversation.
\<close>

section \<open>Cleaning the summary\<close>

abbreviation nl :: char where "nl \<equiv> CHR 0x0A"

definition zwsp :: string where "zwsp = [CHR 0xE2, CHR 0x80, CHR 0x8B]"

function strip_analysis :: "string \<Rightarrow> string" where
  "strip_analysis result =
     (case find_sub ''<analysis>'' result of
        None \<Rightarrow> result
      | Some start \<Rightarrow>
          let is_leading =
                (case find_sub ''<summary>'' result of
                   Some sp \<Rightarrow>
                     start < sp
                     \<or> (sp + length ''<summary>'' \<le> start
                         \<and> trim (drop (sp + length ''<summary>'') (take start result)) = [])
                 | None \<Rightarrow> trim (take start result) = [])
          in if \<not> is_leading then result
             else case find_sub ''</analysis>'' (drop start result) of
                    Some rel \<Rightarrow>
                      strip_analysis (take start result @ drop (start + rel + length ''</analysis>'') result)
                  | None \<Rightarrow>
                      let drop_to = (case find_sub ''<summary>'' (drop start result) of
                                       None \<Rightarrow> length result | Some rel \<Rightarrow> start + rel)
                      in take start result @ drop drop_to result)"
  by pat_completeness auto
termination
  by (relation "measure length") (auto dest!: find_sub_Some)

declare strip_analysis.simps [simp del]

definition strip_leading_scratchpad :: "string \<Rightarrow> string" where
  "strip_leading_scratchpad inner =
     (let s = trim inner;
          lead = trim_start_matches [CHR ''#'', CHR ''*'', CHR ''-'', CHR ''>'', CHR '' '', CHR 0x09] s;
          s = (if \<not> (lead \<noteq> [] \<and> is_ascii_digit (hd lead))
               then case rfind_sub ''</analysis>'' s of
                      Some pos \<Rightarrow> trim_start (drop (pos + length ''</analysis>'') s)
                    | None \<Rightarrow> s
               else s)
      in case strip_prefix ''<summary>'' s of Some rest \<Rightarrow> trim_start rest | None \<Rightarrow> s)"

definition neutralize_compaction_control_tokens :: "string \<Rightarrow> string" where
  "neutralize_compaction_control_tokens s =
     (let s = replace_sub ''</summary>'' (''<'' @ zwsp @ ''/summary>'') s;
          s = replace_sub ''<summary>'' (''<'' @ zwsp @ ''summary>'') s;
          s = replace_sub ''</analysis>'' (''<'' @ zwsp @ ''/analysis>'') s;
          s = replace_sub ''<analysis>'' (''<'' @ zwsp @ ''analysis>'') s;
          s = replace_sub ''</summary_request>'' (''<'' @ zwsp @ ''/summary_request>'') s
      in replace_sub ''<summary_request>'' (''<'' @ zwsp @ ''summary_request>'') s)"

function collapse_blank_lines :: "string \<Rightarrow> string" where
  "collapse_blank_lines result =
     (if contains_sub [nl, nl, nl] result
      then collapse_blank_lines (replace_sub [nl, nl, nl] [nl, nl] result) else result)"
  by pat_completeness auto
termination
  by (relation "measure length") (auto simp: contains_sub_iff replace_sub_def length_replace_less)

declare collapse_blank_lines.simps [simp del]

definition unwrap_summary :: "string \<Rightarrow> string" where
  "unwrap_summary result =
     (case (find_sub ''<summary>'' result, rfind_sub ''</summary>'' result) of
        (Some start, Some e) \<Rightarrow>
          if start < e
          then let before = take start result;
                   after = drop (e + length ''</summary>'') result;
                   inner = strip_leading_scratchpad
                             (trim (if start + length ''<summary>'' \<le> e
                                    then drop (start + length ''<summary>'') (take e result) else []))
               in before @ ''Summary:'' @ [nl] @ inner @ after
          else result
      | _ \<Rightarrow> result)"

definition format_compact_summary :: "string \<Rightarrow> string" where
  "format_compact_summary summary =
     trim (collapse_blank_lines (neutralize_compaction_control_tokens
       (unwrap_summary (strip_analysis summary))))"

definition format_compact_summary_content :: "string \<Rightarrow> string" where
  "format_compact_summary_content raw_summary =
     ''This session is being continued from a previous conversation that ran out of context. '' @
     ''The summary below covers the earlier portion of the conversation.'' @ [nl, nl] @
     format_compact_summary raw_summary"

definition MIN_SUMMARY_SEED_CHARS :: usize where "MIN_SUMMARY_SEED_CHARS = 500"

definition is_degenerate_summary :: "string \<Rightarrow> bool" where
  "is_degenerate_summary raw_summary \<longleftrightarrow>
     length (chars (format_compact_summary raw_summary)) < MIN_SUMMARY_SEED_CHARS"

definition MAX_CAPTURED_SUMMARY_CHARS :: usize where "MAX_CAPTURED_SUMMARY_CHARS = 8192"

definition ellipsis :: string where "ellipsis = [CHR 0xE2, CHR 0x80, CHR 0xA6]"

definition bound_captured_output :: "string \<Rightarrow> usize \<Rightarrow> string" where
  "bound_captured_output s max_chars =
     (let tot = length (chars s)
      in if tot \<le> max_chars then s
         else let hd_n = max_chars div 2;
                  tl_n = max_chars - hd_n;
                  head_str = concat (take hd_n (chars s));
                  tail_str = concat (drop (tot - tl_n) (chars s));
                  elided = tot - hd_n - tl_n
              in head_str @ [nl, nl] @ ellipsis @ ''['' @ show_nat elided @ '' chars elided]'' @ ellipsis
                   @ [nl, nl] @ tail_str)"

record CompactionAttempt =
  ca_attempt :: u32
  ca_outcome :: string
  ca_summary_chars :: u64
  ca_summary :: "string option"
  ca_error :: "string option"

definition format_transcript_location :: "string \<Rightarrow> string" where
  "format_transcript_location path =
     [nl, nl] @ ''<transcript_location>'' @ [nl] @
     ''The full, unsummarized transcript of this conversation is saved at:'' @ [nl] @ path @ [nl] @
     ''If you need details that were dropped from the summary above (exact code, '' @
     ''error text, file contents, or earlier tool output), read this file to '' @
     ''recover them.'' @ [nl] @ ''</transcript_location>''"

section \<open>Assembling the history\<close>

record CompactedHistoryInput =
  ch_system_message :: ConversationItem
  ch_user_message_prefix :: string
  ch_agents_md_reminder :: "string option"
  ch_state_context :: CompactionStateContext
  ch_compaction_summary :: string
  ch_system_reminder :: "string option"
  ch_summary_before_recent :: bool
  ch_transcript_hint :: "string option"
  ch_summary_count :: u64

definition summary_before_recent_carrier :: "CompactedHistoryInput \<Rightarrow> string option" where
  "summary_before_recent_carrier input = None"

definition build_compacted_history :: "CompactedHistoryInput \<Rightarrow> ConversationItem list" where
  "build_compacted_history input =
     (let ctx = ch_state_context input;
          carrier = summary_before_recent_carrier input;
          summary_first = (carrier \<noteq> None);
          summary_item =
            (case carrier of
               Some s \<Rightarrow> user_meta s
             | None \<Rightarrow>
                 user_meta (format_compact_summary_content (ch_compaction_summary input) @
                   (case ch_transcript_hint input of Some hint \<Rightarrow> hint | None \<Rightarrow> [])));
          compacted = [ch_system_message input, user_meta (ch_user_message_prefix input)];
          instructions =
            (if ctx_cwd_generation ctx = 0 then ch_agents_md_reminder input
             else ctx_destination_project_instructions ctx);
          compacted = compacted @
            (case instructions of Some reminder \<Rightarrow> [project_instructions reminder] | None \<Rightarrow> []);
          anchor = (if \<not> list_ex is_agent_message (ctx_recent_messages ctx)
                    then ctx_agent_message_anchor ctx else None);
          compacted = compacted @
            (case anchor of
               Some a \<Rightarrow> if anchor_position a = BeforeHuman then [anchor_item a] else []
             | None \<Rightarrow> []);
          compacted = compacted @
            (case ctx_last_user_query ctx of Some last_query \<Rightarrow> [user (wrap_user_query last_query)] | None \<Rightarrow> []);
          compacted = compacted @
            (case anchor of
               Some a \<Rightarrow> if anchor_position a \<noteq> BeforeHuman then [anchor_item a] else []
             | None \<Rightarrow> []);
          compacted = (if summary_first then compacted @ [summary_item] @ ctx_recent_messages ctx
                       else compacted @ ctx_recent_messages ctx @ [summary_item])
      in compacted @ (case ch_system_reminder input of Some reminder \<Rightarrow> [system_reminder reminder] | None \<Rightarrow> []))"

section \<open>No control token survives\<close>

lemma replace_prefix:
  "r \<noteq> [] \<Longrightarrow> hd r \<notin> set q \<Longrightarrow> prefix q (replace_nonempty p r s) \<Longrightarrow> prefix q s"
proof (induction p r s arbitrary: q rule: replace_nonempty.induct)
  case (2 p r c cs)
  show ?case
  proof (cases "prefix p (c # cs)")
    case True
    then show ?thesis using 2(3-5) by (cases r; cases q) auto
  next
    case False
    then show ?thesis using 2(2) [OF False, of "tl q"] 2(3-5) by (cases q) auto
  qed
qed auto

text \<open>
  A replacement \<open>r\<close> of \<open>p\<close> that starts with the same byte, which occurs nowhere else in \<open>r\<close>,
  makes no occurrence of a pattern that starts with that byte once, and leaves none of \<open>p\<close>.
\<close>

lemma replace_no_new:
  assumes w: "l \<notin> set w" and q: "l \<notin> set q" "\<And>v. \<not> prefix q (w @ v)"
  shows "sublist (l # q) (replace_nonempty p (l # w) s) \<Longrightarrow> sublist (l # q) s \<and> l # q \<noteq> p"
proof (induction p "l # w" s rule: replace_nonempty.induct)
  case (2 p c cs)
  show ?case
  proof (cases "prefix p (c # cs)")
    case True
    let ?rest = "replace_nonempty p (l # w) (drop (length p - 1) cs)"
    have "sublist (l # q) (l # w @ ?rest)" using 2(3) True by simp
    then have "sublist (l # q) (w @ ?rest)" using q(2) by (auto simp: sublist_Cons_right)
    then have "sublist (l # q) ?rest" using sublist_marked [OF w] by blast
    then have "sublist (l # q) (drop (length p - 1) cs) \<and> l # q \<noteq> p" using 2(1) [OF True] by blast
    moreover have "sublist (drop (length p - 1) cs) (c # cs)"
      by (simp add: sublist_Cons_right)
    ultimately show ?thesis by (metis sublist_order.order_trans)
  next
    case False
    then have "prefix (l # q) (c # replace_nonempty p (l # w) cs) \<or> sublist (l # q) (replace_nonempty p (l # w) cs)"
      using 2(3) by (simp add: sublist_Cons_right)
    then show ?thesis
    proof
      assume "prefix (l # q) (c # replace_nonempty p (l # w) cs)"
      then have "prefix (l # q) (c # cs)" using replace_prefix [of "l # w" q p cs] q(1) by auto
      then show ?thesis using False by auto
    next
      assume "sublist (l # q) (replace_nonempty p (l # w) cs)"
      then show ?thesis using 2(2) [OF False] by (simp add: sublist_Cons_right)
    qed
  qed
qed simp

definition control_tokens :: "string list" where
  "control_tokens = [''</summary>'', ''<summary>'', ''</analysis>'', ''<analysis>'', ''</summary_request>'', ''<summary_request>'']"

lemma neutralize_step:
  assumes "t \<in> set control_tokens" "p \<in> set control_tokens"
    "sublist t (replace_sub p (''<'' @ zwsp @ tl p) s)"
  shows "sublist t s \<and> t \<noteq> p"
proof -
  obtain q where t: "t = lt # q" "lt \<notin> set q" "hd q \<noteq> CHR 0xE2" "q \<noteq> []"
    using assms(1) by (auto simp: control_tokens_def)
  have "lt \<notin> set (zwsp @ tl p)" using assms(2) by (auto simp: control_tokens_def zwsp_def)
  moreover have "\<not> prefix q ((zwsp @ tl p) @ v)" for v using t(3,4) by (cases q) (auto simp: zwsp_def)
  moreover have "p \<noteq> []" using assms(2) by (auto simp: control_tokens_def)
  ultimately show ?thesis
    using replace_no_new [of lt "zwsp @ tl p" q p s] assms(3) t(1,2) by (simp add: replace_sub_def)
qed

lemma neutralize_clean:
  assumes "t \<in> set control_tokens"
  shows "\<not> sublist t (neutralize_compaction_control_tokens s)"
proof
  assume "sublist t (neutralize_compaction_control_tokens s)"
  moreover have n: "neutralize_compaction_control_tokens s =
      fold (\<lambda>p. replace_sub p (''<'' @ zwsp @ tl p)) control_tokens s"
    by (simp add: neutralize_compaction_control_tokens_def control_tokens_def Let_def)
  moreover have "set ps \<subseteq> set control_tokens \<Longrightarrow>
      sublist t (fold (\<lambda>p. replace_sub p (''<'' @ zwsp @ tl p)) ps u) \<Longrightarrow> sublist t u \<and> t \<notin> set ps" for ps u
  proof (induction ps arbitrary: u)
    case (Cons p ps)
    then have "sublist t (replace_sub p (''<'' @ zwsp @ tl p) u) \<and> t \<notin> set ps" by simp
    then show ?case using neutralize_step [OF assms, of p u] Cons.prems(1) by auto
  qed simp
  ultimately show False using assms by (metis subset_refl)
qed

lemma collapse_no_new:
  assumes "t \<in> set control_tokens"
  shows "sublist t (replace_nonempty [nl, nl, nl] [nl, nl] s) \<Longrightarrow> sublist t s"
proof -
  obtain q where t: "t = lt # q" "nl \<notin> set q" using assms by (auto simp: control_tokens_def)
  show "sublist t (replace_nonempty [nl, nl, nl] [nl, nl] s) \<Longrightarrow> sublist t s"
  proof (induction "[nl, nl, nl]" "[nl, nl]" s rule: replace_nonempty.induct)
    case (2 c cs)
    show ?case
    proof (cases "prefix [nl, nl, nl] (c # cs)")
      case True
      then have "replace_nonempty [nl, nl, nl] [nl, nl] (c # cs) =
          [nl, nl] @ replace_nonempty [nl, nl, nl] [nl, nl] (drop (length [nl, nl, nl] - 1) cs)"
        by (simp only: replace_nonempty.simps if_True)
      then have "sublist t ([nl, nl] @ replace_nonempty [nl, nl, nl] [nl, nl] (drop 2 cs))"
        using 2(3) by (simp add: numeral_2_eq_2)
      then have "sublist t (replace_nonempty [nl, nl, nl] [nl, nl] (drop 2 cs))"
        using sublist_marked [of lt "[nl, nl]" q] by (simp add: t)
      then have "sublist t (drop 2 cs)" using 2(1) [OF True] by (simp add: numeral_2_eq_2)
      moreover have "sublist (drop 2 cs) (c # cs)" by (simp add: sublist_Cons_right)
      ultimately show ?thesis by (metis sublist_order.order_trans)
    next
      case False
      then have "replace_nonempty [nl, nl, nl] [nl, nl] (c # cs) = c # replace_nonempty [nl, nl, nl] [nl, nl] cs"
        by (simp only: replace_nonempty.simps if_False)
      then have "prefix t (c # replace_nonempty [nl, nl, nl] [nl, nl] cs)
          \<or> sublist t (replace_nonempty [nl, nl, nl] [nl, nl] cs)"
        using 2(3) by (metis sublist_Cons_right)
      then show ?thesis
        using 2(2) [OF False] replace_prefix [of "[nl, nl]" q "[nl, nl, nl]" cs]
        by (auto simp: t sublist_Cons_right)
    qed
  qed simp
qed

lemma collapse_clean:
  assumes "t \<in> set control_tokens"
  shows "sublist t (collapse_blank_lines s) \<Longrightarrow> sublist t s"
proof (induction s rule: collapse_blank_lines.induct)
  case (1 s)
  then show ?case
    using collapse_no_new [OF assms, of s]
    by (cases "contains_sub [nl, nl, nl] s") (auto simp: collapse_blank_lines.simps [of s] replace_sub_def)
qed

lemma collapse_no_blank_run: "\<not> sublist [nl, nl, nl] (collapse_blank_lines s)"
proof (induction s rule: collapse_blank_lines.induct)
  case (1 s)
  then show ?case by (subst collapse_blank_lines.simps) (auto simp: contains_sub_iff)
qed

text \<open>
  C7: a cleaned summary cannot steer the next turn. Whatever text the summarizing model
  produced, the cleaned summary contains no opening or closing \<open>summary\<close>, \<open>analysis\<close> or
  \<open>summary_request\<close> tag, and no run of three line feeds; it carries no surrounding white
  space.
\<close>

theorem compact_summary_has_no_control_token:
  "filter (\<lambda>t. contains_sub t (format_compact_summary raw))
     [''</summary>'', ''<summary>'', ''</analysis>'', ''<analysis>'', ''</summary_request>'',
      ''<summary_request>'', [CHR 0x0A, CHR 0x0A, CHR 0x0A]] = []
   \<and> trim (format_compact_summary raw) = format_compact_summary raw"
proof -
  define s where "s = neutralize_compaction_control_tokens (unwrap_summary (strip_analysis raw))"
  have f: "format_compact_summary raw = trim (collapse_blank_lines s)"
    by (simp add: format_compact_summary_def s_def)
  have sub: "sublist t (collapse_blank_lines s)" if "sublist t (format_compact_summary raw)" for t
    using that sublist_trim [of "collapse_blank_lines s"] unfolding f by (metis sublist_order.order_trans)
  have "\<not> sublist t (format_compact_summary raw)" if "t \<in> set control_tokens" for t
    using sub collapse_clean [OF that] neutralize_clean [OF that] unfolding s_def by blast
  then show ?thesis
    using sub [of "[nl, nl, nl]"] collapse_no_blank_run [of s]
    by (auto simp: contains_sub_iff control_tokens_def f)
qed

section \<open>The assembled history\<close>

lemma paired_plain:
  "list_all (\<lambda>i. \<not> is_tool_result i \<and> calls_of i = []) xs \<Longrightarrow> paired (xs @ ys) \<longleftrightarrow> paired ys"
  by (induction xs) auto

lemma paired_snoc_plain:
  "paired c \<Longrightarrow> list_all (\<lambda>i. \<not> is_tool_result i \<and> calls_of i = []) ys \<Longrightarrow> paired (c @ ys)"
proof (induction c rule: paired.induct)
  case 1
  then show ?case using paired_plain [of ys "[]"] by simp
next
  case (2 item rest)
  have nt: "\<not> is_tool_result item" using 2(3) by (auto split: if_splits)
  show ?case
  proof (cases "calls_of item = []")
    case True
    then show ?thesis using 2 nt by simp
  next
    case False
    let ?rs = "takeWhile is_tool_result rest" and ?v = "dropWhile is_tool_result rest"
    have v: "paired (?v @ ys)" using 2 nt False by simp
    have "paired (item # ?rs @ ?v @ ys)"
      using 2(3) nt False v paired_hd [OF v] run_all_results [of rest]
      by (subst paired_run) simp_all
    then show ?thesis by (metis append.assoc append_Cons takeWhile_dropWhile_id)
  qed
qed

lemma agent_anchor_plain:
  assumes "extract_latest_agent_message c = Some a"
  shows "is_agent_message (anchor_item a)"
  using assms by (auto simp: extract_latest_agent_message_def Let_def dest: rposition_Some
      split: option.splits if_splits)

lemma agent_plain: "is_agent_message i \<Longrightarrow> \<not> is_tool_result i \<and> calls_of i = []"
  by (cases i) auto

lemmas made_items = user_meta_def project_instructions_def user_def system_reminder_def user_tagged_def

text \<open>The items before and after the recent messages.\<close>

definition live_anchor :: "CompactionStateContext \<Rightarrow> AgentMessageAnchor option" where
  "live_anchor ctx =
     (if \<not> list_ex is_agent_message (ctx_recent_messages ctx) then ctx_agent_message_anchor ctx else None)"

definition history_head :: "CompactedHistoryInput \<Rightarrow> ConversationItem list" where
  "history_head input =
     [ch_system_message input, user_meta (ch_user_message_prefix input)] @
     map project_instructions (list_of_option
       (if ctx_cwd_generation (ch_state_context input) = 0 then ch_agents_md_reminder input
        else ctx_destination_project_instructions (ch_state_context input)))"

definition history_inputs :: "CompactionStateContext \<Rightarrow> ConversationItem list" where
  "history_inputs ctx =
     (let anchors = list_of_option (live_anchor ctx)
      in map anchor_item (filter (\<lambda>a. anchor_position a = BeforeHuman) anchors)
         @ map (\<lambda>q. user (wrap_user_query q)) (list_of_option (ctx_last_user_query ctx))
         @ map anchor_item (filter (\<lambda>a. anchor_position a \<noteq> BeforeHuman) anchors))"

definition history_end :: "CompactedHistoryInput \<Rightarrow> ConversationItem list" where
  "history_end input =
     user_meta (format_compact_summary_content (ch_compaction_summary input)
                @ concat (list_of_option (ch_transcript_hint input)))
     # map system_reminder (list_of_option (ch_system_reminder input))"

lemma build_shape:
  "build_compacted_history input =
     history_head input @ history_inputs (ch_state_context input)
     @ ctx_recent_messages (ch_state_context input) @ history_end input"
proof -
  have f: "(case x of Some v \<Rightarrow> [g v] | None \<Rightarrow> []) = map g (list_of_option x)" for x :: "'a option" and g :: "'a \<Rightarrow> 'b"
    by (cases x) simp_all
  have h: "(case x of Some v \<Rightarrow> v | None \<Rightarrow> []) = concat (list_of_option x)" for x :: "string option"
    by (cases x) simp_all
  have a: "(case x of Some v \<Rightarrow> if P v then [g v] else [] | None \<Rightarrow> []) = map g (filter P (list_of_option x))"
    for x :: "'c option" and g :: "'c \<Rightarrow> 'd" and P by (cases x) simp_all
  show ?thesis
    unfolding build_compacted_history_def Let_def f h a
    by (simp add: summary_before_recent_carrier_def history_head_def history_inputs_def history_end_def
        live_anchor_def Let_def f h a)
qed

lemma build_paired:
  assumes "paired c" "\<not> is_tool_result (ch_system_message input)" "calls_of (ch_system_message input) = []"
    and "ch_state_context input = build_context c inputs
         \<or> ch_state_context input = for_compaction (build_context c inputs)"
  shows "paired (build_compacted_history input)"
proof -
  let ?ctx = "ch_state_context input"
  let ?plain = "list_all (\<lambda>i. \<not> is_tool_result i \<and> calls_of i = [])"
  have recent: "paired (ctx_recent_messages ?ctx)"
    using assms(1,4) anchor_messages_paired by (auto simp: build_context_def for_compaction_def)
  have anchor: "\<not> is_tool_result (anchor_item a) \<and> calls_of (anchor_item a) = []"
    if "ctx_agent_message_anchor ?ctx = Some a" for a
    using assms(4) that agent_anchor_plain [of _ a] agent_plain
    by (auto simp: build_context_def for_compaction_def split: option.splits)
  have "?plain (history_inputs ?ctx)"
    using anchor by (auto simp: history_inputs_def live_anchor_def list_all_iff made_items Let_def)
  moreover have "?plain (history_head input)" "?plain (history_end input)"
    using assms(2,3) by (auto simp: history_head_def history_end_def list_all_iff made_items)
  ultimately show ?thesis
    unfolding build_shape using paired_plain paired_snoc_plain [OF recent] by metis
qed

text \<open>
  C13: the compacted history is well formed. When every calling turn of the conversation is
  followed by exactly its results, so is every calling turn of the history that replaces
  it, both with the recent messages kept and in the view without them.
\<close>

theorem compacted_history_paired:
  assumes "paired c" "\<not> is_tool_result (ch_system_message input)" "calls_of (ch_system_message input) = []"
    and "ch_state_context input = build_context c inputs
         \<or> ch_state_context input = for_compaction (build_context c inputs)"
  shows "paired (build_compacted_history input)"
  by (rule build_paired [OF assms])

definition example_input :: "CompactionStateContext \<Rightarrow> CompactedHistoryInput" where
  "example_input ctx =
     \<lparr>ch_system_message = system ''sys'', ch_user_message_prefix = ''prefix'', ch_agents_md_reminder = None,
      ch_state_context = ctx, ch_compaction_summary = ''did it'', ch_system_reminder = None,
      ch_summary_before_recent = False, ch_transcript_hint = None, ch_summary_count = 1\<rparr>"

definition example_inputs :: CompactionInputs where
  "example_inputs =
     \<lparr>in_cwd_generation = 0, in_destination_project_instructions = None, in_running_tasks = [],
      in_running_subagents = [], in_agent_edited_paths = [], in_connected_mcp_servers = [], in_todos = [],
      in_scheduled_loops = [], in_workflows = [], in_workflow_tool_name = None, in_goal_objective = None\<rparr>"

theorem compacted_history_paired_witness:
  "let c = [user ''go'', assistant_tool_calls [example_call ''a''], tool_result ''a'' ''ok'']
   in paired (build_compacted_history (example_input (build_context c example_inputs)))"
proof -
  let ?c = "[user ''go'', assistant_tool_calls [example_call ''a''], tool_result ''a'' ''ok'']"
  have "paired ?c" by (simp add: example_defs)
  then show ?thesis
    using compacted_history_paired [of ?c "example_input (build_context ?c example_inputs)" example_inputs]
    by (simp add: example_input_def system_def)
qed

text \<open>
  C23: the latest inputs keep their order. Compacting a conversation whose latest agent
  message is at index \<open>i\<close> and latest real user turn at \<open>j\<close>, without a goal objective,
  gives a history that holds that agent message unchanged and the user's query, in the
  order the conversation had them.
\<close>

theorem compaction_keeps_input_order:
  assumes "rposition is_agent_message c = Some i" "rposition is_real_user_turn c = Some j"
    and "ch_state_context input = for_compaction (build_context c inputs)" "in_goal_objective inputs = None"
  shows "build_compacted_history input =
           history_head input
           @ (if i < j then [c ! i, user (wrap_user_query (extract_user_query (text_content (c ! j))))]
              else [user (wrap_user_query (extract_user_query (text_content (c ! j)))), c ! i])
           @ history_end input"
proof -
  have i: "i < length c" using rposition_Some [OF assms(1)] by simp
  have q: "extract_last_real_user_query c = Some (extract_user_query (text_content (c ! j)))"
    using find_rev_rposition [OF assms(2)] by (simp add: extract_last_real_user_query_def)
  have a: "extract_latest_agent_message c =
      Some \<lparr>anchor_item = c ! i, anchor_position = (if i < j then BeforeHuman else AfterHuman)\<rparr>"
    using assms(1,2) i by (simp add: extract_latest_agent_message_def Let_def)
  show ?thesis
    unfolding build_shape assms(3)
    by (simp add: for_compaction_def build_context_def history_inputs_def live_anchor_def a q assms(4) Let_def)
qed

theorem compaction_keeps_input_order_witness:
  "let c = [agent_message ''note'', user_with_parts [Image ''u'']]
   in build_compacted_history (example_input (for_compaction (build_context c example_inputs))) =
        [system ''sys'', user_meta ''prefix'', agent_message ''note'',
         user (wrap_user_query (extract_user_query ''''))]
        @ history_end (example_input (for_compaction (build_context c example_inputs)))"
proof -
  let ?c = "[agent_message ''note'', user_with_parts [Image ''u'']]"
  let ?in = "example_input (for_compaction (build_context ?c example_inputs))"
  have r: "rposition is_agent_message ?c = Some 0" "rposition is_real_user_turn ?c = Some 1"
    by (simp_all add: agent_message_def user_with_parts_def user_tagged_def is_human_def)
  have s: "ch_state_context ?in = for_compaction (build_context ?c example_inputs)"
    "in_goal_objective example_inputs = None" "ch_agents_md_reminder ?in = None"
    "ctx_cwd_generation (for_compaction (build_context ?c example_inputs)) = 0"
    by (simp_all add: example_input_def example_inputs_def for_compaction_def build_context_def)
  have "history_head ?in = [system ''sys'', user_meta ''prefix'']"
    using s by (simp add: history_head_def) (simp add: example_input_def)
  then show ?thesis
    using compaction_keeps_input_order [OF r s(1,2)]
    by (simp add: user_with_parts_def List.map_filter_simps Let_def)
qed

end
