(* ===== verification/Compaction_Apply.thy ===== *)
theory Compaction_Apply
  imports Compacted_History
begin

text \<open>
  How a session puts a compaction into effect, \<open>crates/codegen/xai-grok-shell/src/session/compaction.rs\<close>:
  the history built from the captured state is sanitized, validated and, if anything is left to
  complain about, built once more. The branch on the stripped ids only writes a log line. What
  follows in the code (checkpoints, the prefix a forked session inherits) is not modelled.
\<close>

section \<open>The step\<close>

definition apply_compaction :: "CompactedHistoryInput \<Rightarrow> CompactionStateContext \<Rightarrow> ConversationItem list" where
  "apply_compaction input state_context =
     (let input = input\<lparr>ch_state_context := for_compaction state_context\<rparr>;
          sanitize_result = sanitize_compacted_history (build_compacted_history input);
          compacted_history = san_items sanitize_result;
          remaining_violations = validate_compacted_history compacted_history
      in if remaining_violations = [] then compacted_history else build_compacted_history input)"

section \<open>Lemmas\<close>

abbreviation plain :: "ConversationItem \<Rightarrow> bool" where
  "plain i \<equiv> \<not> is_tool_result i \<and> calls_of i = []"

lemma plain_validates: "list_all plain items \<Longrightarrow> validate_loop items s = []"
proof (induction items)
  case (Cons i items)
  then show ?case by (cases i) auto
qed simp

lemma plain_sanitized: "list_all plain items \<Longrightarrow> sanitize_loop items s = (items, [])"
proof (induction items)
  case (Cons i items)
  then show ?case by (cases i) auto
qed simp

lemma apply_plain:
  assumes "list_all plain (build_compacted_history (input\<lparr>ch_state_context := for_compaction ctx\<rparr>))"
  shows "apply_compaction input ctx = build_compacted_history (input\<lparr>ch_state_context := for_compaction ctx\<rparr>)
         \<and> validate_compacted_history
               (build_compacted_history (input\<lparr>ch_state_context := for_compaction ctx\<rparr>)) = []"
  using plain_validates [OF assms, of "{}"] plain_sanitized [OF assms, of "{}"]
  by (simp add: apply_compaction_def Let_def sanitize_compacted_history_def validate_compacted_history_def)

text \<open>Without recent messages a history is its head, at most two inputs and its end.\<close>

lemma length_list_of_option: "length (list_of_option x) \<le> 1"
  by (cases x) simp_all

lemma history_lengths:
  "length (history_head input) \<le> 3" "length (history_inputs ctx) \<le> 2" "length (history_end input) \<le> 2"
proof -
  show "length (history_head input) \<le> 3" "length (history_end input) \<le> 2"
    using length_list_of_option by (auto simp: history_head_def history_end_def)
  show "length (history_inputs ctx) \<le> 2"
    using sum_length_filter_compl [of "\<lambda>a. anchor_position a = BeforeHuman" "list_of_option (live_anchor ctx)"]
      length_list_of_option [of "live_anchor ctx"] length_list_of_option [of "ctx_last_user_query ctx"]
    by (simp add: history_inputs_def Let_def)
qed

lemma compacted_anchor:
  assumes "ctx_agent_message_anchor (for_compaction (build_context c inputs)) = Some a"
  shows "is_agent_message (anchor_item a)"
  using assms agent_anchor_plain [of _ a] by (auto simp: build_context_def for_compaction_def split: option.splits)

lemma compacted_shape:
  "build_compacted_history (input\<lparr>ch_state_context := for_compaction ctx\<rparr>) =
     history_head (input\<lparr>ch_state_context := for_compaction ctx\<rparr>) @ history_inputs (for_compaction ctx)
     @ history_end (input\<lparr>ch_state_context := for_compaction ctx\<rparr>)"
  using build_shape [of "input\<lparr>ch_state_context := for_compaction ctx\<rparr>"] by (simp add: for_compaction_def)

lemma compacted_plain:
  assumes "plain (ch_system_message input)"
  shows "list_all plain (build_compacted_history (input\<lparr>ch_state_context := for_compaction (build_context c inputs)\<rparr>))"
proof -
  have "list_all plain (history_inputs (for_compaction (build_context c inputs)))"
    using compacted_anchor agent_plain
    by (auto simp: history_inputs_def live_anchor_def list_all_iff made_items Let_def split: if_splits)
  then show ?thesis
    using assms unfolding compacted_shape by (auto simp: history_head_def history_end_def list_all_iff made_items)
qed

lemma find_last: "P y \<Longrightarrow> list_all (\<lambda>z. \<not> P z) zs \<Longrightarrow> find P (rev (xs @ y # zs)) = Some y"
proof (induction zs rule: rev_induct)
  case Nil
  then show ?case by simp
qed simp

lemma agent_not_real: "is_agent_message i \<Longrightarrow> \<not> is_real_user_turn i"
  by (cases i) (auto simp: is_human_def)

lemma end_not_real: "list_all (\<lambda>i. \<not> is_real_user_turn i) (history_end input)"
  by (auto simp: history_end_def list_all_iff made_items is_human_def)

lemma wrapped_is_real:
  "extract_user_query (wrap_user_query q) = q \<Longrightarrow> \<not> is_synthetic_extracted_query q \<Longrightarrow>
     is_real_user_turn (user (wrap_user_query q)) \<and> extract_user_query (text_content (user (wrap_user_query q))) = q"
  by (simp add: user_def user_tagged_def is_human_def List.map_filter_simps)

lemma extracted_trimmed: "trim (extract_user_query s) = extract_user_query s"
  by (simp add: extract_user_query_def strip_system_tags_def Let_def split: option.splits)

lemma last_query_trimmed: "extract_last_real_user_query c = Some q \<Longrightarrow> trim q = q"
  by (auto simp: extract_last_real_user_query_def extracted_trimmed)

lemma compacted_query:
  assumes "ctx_last_user_query (for_compaction (build_context c inputs)) = Some q"
    and "extract_user_query (wrap_user_query q) = q" "\<not> is_synthetic_extracted_query q"
  shows "extract_last_real_user_query
           (build_compacted_history (input\<lparr>ch_state_context := for_compaction (build_context c inputs)\<rparr>)) = Some q"
proof -
  let ?ctx = "for_compaction (build_context c inputs)"
  let ?anchors = "list_of_option (live_anchor ?ctx)"
  obtain pre post where h: "history_inputs ?ctx = pre @ user (wrap_user_query q) # post"
      "set post \<subseteq> anchor_item ` set ?anchors"
    using assms(1) by (fastforce simp: history_inputs_def Let_def)
  have "list_all (\<lambda>i. \<not> is_real_user_turn i) post"
    using h(2) compacted_anchor agent_not_real
    by (fastforce simp: live_anchor_def list_all_iff split: if_splits)
  then have "list_all (\<lambda>i. \<not> is_real_user_turn i) (post @ history_end (input\<lparr>ch_state_context := ?ctx\<rparr>))"
    using end_not_real by simp
  from find_last [of is_real_user_turn, OF _ this, of "user (wrap_user_query q)"] show ?thesis
    unfolding compacted_shape h(1) extract_last_real_user_query_def
    using wrapped_is_real [OF assms(2,3)] by (metis append.assoc append_Cons option.simps(9))
qed

end
